(* ===== verification/Squid_Prelude.thy ===== *)
theory Squid_Prelude
  imports Main "HOL-Library.Word"
begin

text \<open>
  Shared vocabulary of the development: byte strings, the 32-bit size arithmetic of
  \<^verbatim>\<open>SBuf::size_type\<close>, the exceptions the parsing code throws, the ASCII
  classification functions of the C library that the sources call, and generic lemmas
  on lists that the component theories share.
\<close>

section \<open>Byte strings and 32-bit sizes\<close>

type_synonym bytes = "char list"

abbreviation LF :: char where "LF \<equiv> CHR 0x0A"
abbreviation CR :: char where "CR \<equiv> CHR 0x0D"
abbreviation SP :: char where "SP \<equiv> CHR 0x20"
abbreviation HTAB :: char where "HTAB \<equiv> CHR 0x09"

text \<open>
  \<^verbatim>\<open>SBuf::size_type\<close> is \<^verbatim>\<open>uint32_t\<close>. Sizes are natural numbers below
  \<open>2 ^ 32\<close>; the two operations below write the wrap-around out wherever the sources
  add or subtract sizes that are not already known to be in range.
\<close>

definition uadd32 :: "nat \<Rightarrow> nat \<Rightarrow> nat" where
  "uadd32 a b = (a + b) mod 4294967296"

definition usub32 :: "nat \<Rightarrow> nat \<Rightarrow> nat" where
  "usub32 a b = (a + (4294967296 - b)) mod 4294967296"

definition npos :: nat where
  "npos = 4294967295"

definition maxSize :: nat where
  "maxSize = 268435455"

named_theorems size_simps \<open>facts about 32-bit sizes that hold of in-range operands\<close>

lemma uadd32_exact [size_simps]: "a + b < 4294967296 \<Longrightarrow> uadd32 a b = a + b"
  by (simp add: uadd32_def)

lemma usub32_exact [size_simps]:
  assumes "b \<le> a" "a < 4294967296"
  shows "usub32 a b = a - b"
proof -
  from assms have "a + (4294967296 - b) = (a - b) + 4294967296" by linarith
  then have "usub32 a b = ((a - b) + 4294967296) mod 4294967296"
    by (simp only: usub32_def)
  with assms show ?thesis by (simp only: mod_add_self2) simp
qed

lemma usub32_wraps: "a < b \<Longrightarrow> b < 4294967296 \<Longrightarrow> usub32 a b = 4294967296 - (b - a)"
  by (simp add: usub32_def)

lemma maxSize_less_npos [simp]: "maxSize < npos"
  by (simp add: maxSize_def npos_def)

lemma le_maxSize_neq_npos [size_simps]: "n \<le> maxSize \<Longrightarrow> n \<noteq> npos"
  by (auto simp: maxSize_def npos_def)

lemma le_maxSize_less_npos [size_simps]: "n \<le> maxSize \<Longrightarrow> n < npos"
  by (auto simp: maxSize_def npos_def)

lemma le_maxSize_less_2p32 [size_simps]: "n \<le> maxSize \<Longrightarrow> n < 4294967296"
  by (auto simp: maxSize_def)

section \<open>Exceptions\<close>

text \<open>
  What the parsing code throws: \<^verbatim>\<open>Parser::InsufficientInput\<close> (more bytes are needed),
  \<^verbatim>\<open>TextException\<close> with its description (also what a failed \<^verbatim>\<open>Must()\<close> throws),
  and a failed \<^verbatim>\<open>assert()\<close>, which ends the process.
\<close>

datatype exn =
    InsufficientInput
  | TextException string
  | AssertFailure string

text \<open>A method that may throw works on a state: it returns the exception or the result, with the state it reached.\<close>

type_synonym ('a, 's) throwing = "'s \<Rightarrow> (exn + 'a) \<times> 's"

definition then_do :: "('a, 's) throwing \<Rightarrow> ('a \<Rightarrow> ('b, 's) throwing) \<Rightarrow> ('b, 's) throwing" where
  "then_do f g s = (case f s of (Inl e, s1) \<Rightarrow> (Inl e, s1) | (Inr x, s1) \<Rightarrow> g x s1)"

definition must :: "bool \<Rightarrow> string \<Rightarrow> exn + unit" where
  "must c s = (if c then Inr () else Inl (TextException (''check failed: '' @ s)))"

definition must_do :: "bool \<Rightarrow> string \<Rightarrow> (unit, 's) throwing" where
  "must_do c s h = (must c s, h)"

definition assert_do :: "bool \<Rightarrow> string \<Rightarrow> (unit, 's) throwing" where
  "assert_do c s h = (if c then Inr () else Inl (AssertFailure s), h)"

section \<open>ASCII classification\<close>

text \<open>The C-locale functions of \<^verbatim>\<open>ctype.h\<close>, on bytes.\<close>

definition xisdigit :: "char \<Rightarrow> bool" where
  "xisdigit c \<longleftrightarrow> 48 \<le> (of_char c :: nat) \<and> (of_char c :: nat) \<le> 57"

definition xisupper :: "char \<Rightarrow> bool" where
  "xisupper c \<longleftrightarrow> 65 \<le> (of_char c :: nat) \<and> (of_char c :: nat) \<le> 90"

definition xislower :: "char \<Rightarrow> bool" where
  "xislower c \<longleftrightarrow> 97 \<le> (of_char c :: nat) \<and> (of_char c :: nat) \<le> 122"

definition xisalpha :: "char \<Rightarrow> bool" where
  "xisalpha c \<longleftrightarrow> xisupper c \<or> xislower c"

definition xtolower :: "char \<Rightarrow> char" where
  "xtolower c = (if xisupper c then char_of ((of_char c :: nat) + 32) else c)"

definition xtoupper :: "char \<Rightarrow> char" where
  "xtoupper c = (if xislower c then char_of ((of_char c :: nat) - 32) else c)"

definition xisspace :: "char \<Rightarrow> bool" where
  "xisspace c \<longleftrightarrow> c = SP \<or> (9 \<le> (of_char c :: nat) \<and> (of_char c :: nat) \<le> 13)"

lemmas ctype_defs = xisdigit_def xisupper_def xislower_def xisalpha_def xtolower_def xtoupper_def

lemma of_char_less_256 [simp]: "(of_char c :: nat) < 256"
  by simp

lemma unat_less_256: "unat (w :: 8 word) < 256"
  using unsigned_less [of w] by simp

lemma of_char_nat_inject: "(of_char c :: nat) = of_char d \<longleftrightarrow> c = d"
  by simp

section \<open>Lists\<close>

text \<open>The index of the first element satisfying a predicate, counted from a base.\<close>

fun first_idx :: "('a \<Rightarrow> bool) \<Rightarrow> 'a list \<Rightarrow> nat \<Rightarrow> nat option" where
  "first_idx P [] n = None"
| "first_idx P (c # cs) n = (if P c then Some n else first_idx P cs (Suc n))"

lemma first_idx_None_iff [simp]: "first_idx P xs n = None \<longleftrightarrow> (\<forall>x\<in>set xs. \<not> P x)"
  by (induction xs arbitrary: n) auto

lemma first_idx_eq:
  "first_idx P xs n =
     (if \<exists>x\<in>set xs. P x then Some (n + length (takeWhile (\<lambda>x. \<not> P x) xs)) else None)"
  by (induction xs arbitrary: n) auto

lemma takeWhile_eq_length_take: "take (length (takeWhile P xs)) xs = takeWhile P xs"
  by (induction xs) auto

lemma drop_length_takeWhile: "drop (length (takeWhile P xs)) xs = dropWhile P xs"
  by (induction xs) auto

lemma takeWhile_all_append [simp]:
  "\<forall>x\<in>set xs. P x \<Longrightarrow> takeWhile P (xs @ ys) = xs @ takeWhile P ys"
  by (induction xs) auto

lemma dropWhile_all_append [simp]:
  "\<forall>x\<in>set xs. P x \<Longrightarrow> dropWhile P (xs @ ys) = dropWhile P ys"
  by (induction xs) auto

lemma takeWhile_stop: "(\<And>x. x \<in> set xs \<Longrightarrow> P x) \<Longrightarrow> \<not> P y \<Longrightarrow> takeWhile P (xs @ y # ys) = xs"
  by (induction xs) auto

lemma dropWhile_stop: "(\<And>x. x \<in> set xs \<Longrightarrow> P x) \<Longrightarrow> \<not> P y \<Longrightarrow> dropWhile P (xs @ y # ys) = y # ys"
  by (induction xs) auto

lemma length_takeWhile_less: "x \<in> set xs \<Longrightarrow> \<not> P x \<Longrightarrow> length (takeWhile P xs) < length xs"
  by (induction xs) auto

lemma takeWhile_eq_Nil_iff': "takeWhile P xs = [] \<longleftrightarrow> xs = [] \<or> \<not> P (hd xs)"
  by (cases xs) auto

lemma take_Suc_0_eq [simp]: "xs \<noteq> [] \<Longrightarrow> take (Suc 0) xs = [hd xs]"
  by (cases xs) auto

end
