(* ===== verification/Character_Set.thy ===== *)
theory Character_Set
  imports Squid_Prelude
begin

text \<open>
  \<^verbatim>\<open>src/base/CharacterSet\<close>: a set of bytes kept as a vector of 256 cells. The
  cells are only ever assigned 0 or 1, so each is a \<^typ>\<open>bool\<close>. The theory models the
  constructors, the mutators and the named sets, shows that each operation has the
  set-theoretic meaning its documentation gives it, and gives the simplifier one
  membership fact per named set.
\<close>

section \<open>The vector of cells\<close>

record charset =
  cs_name :: string
  cs_chars :: "bool list"

definition cs_index :: "charset \<Rightarrow> char \<Rightarrow> bool" where
  "cs_index cs c = cs_chars cs ! of_char c"

definition cs_add :: "charset \<Rightarrow> char \<Rightarrow> charset" where
  "cs_add cs c = cs\<lparr>cs_chars := (cs_chars cs)[of_char c := True]\<rparr>"

definition cs_remove :: "charset \<Rightarrow> char \<Rightarrow> charset" where
  "cs_remove cs c = cs\<lparr>cs_chars := (cs_chars cs)[of_char c := False]\<rparr>"

text \<open>
  The loop of \<^verbatim>\<open>addRange()\<close>. Its counter is an \<^verbatim>\<open>unsigned char\<close>: the loop stops
  one short of \<open>high\<close> because \<open>++low\<close> would wrap for \<open>high = 255\<close>.
\<close>

function addRange_loop :: "bool list \<Rightarrow> 8 word \<Rightarrow> 8 word \<Rightarrow> bool list" where
  "addRange_loop cells low high =
     (if low < high then addRange_loop (cells[unat low := True]) (low + 1) high else cells)"
  by pat_completeness auto
termination
proof (relation "measure (\<lambda>(cells, low, high). unat high - unat low)", goal_cases)
  case 1
  show ?case by simp
next
  case (2 cells low high)
  then have "unat low < unat high" by (simp add: word_less_nat_alt)
  moreover from this have "unat (low + 1) = unat low + 1"
    using unat_less_256 [of high] by (simp add: unat_word_ariths)
  ultimately show ?case by simp
qed

declare addRange_loop.simps [simp del]

definition cs_addRange :: "charset \<Rightarrow> 8 word \<Rightarrow> 8 word \<Rightarrow> charset" where
  "cs_addRange cs low high =
     cs\<lparr>cs_chars := (addRange_loop (cs_chars cs) low high)[unat high := True]\<rparr>"

text \<open>The element-wise loops of \<^verbatim>\<open>operator +=\<close> and \<^verbatim>\<open>operator -=\<close>.\<close>

fun cells_or :: "bool list \<Rightarrow> bool list \<Rightarrow> bool list" where
  "cells_or (d # ds) (s # ss) = (if s then True else d) # cells_or ds ss"
| "cells_or ds _ = ds"

fun cells_minus :: "bool list \<Rightarrow> bool list \<Rightarrow> bool list" where
  "cells_minus (d # ds) (s # ss) = (if s then False else d) # cells_minus ds ss"
| "cells_minus ds _ = ds"

definition cs_union :: "charset \<Rightarrow> charset \<Rightarrow> charset" where
  "cs_union lhs rhs = lhs\<lparr>cs_chars := cells_or (cs_chars lhs) (cs_chars rhs)\<rparr>"

definition cs_diff :: "charset \<Rightarrow> charset \<Rightarrow> charset" where
  "cs_diff lhs rhs = lhs\<lparr>cs_chars := cells_minus (cs_chars lhs) (cs_chars rhs)\<rparr>"

definition cs_rename :: "charset \<Rightarrow> string \<Rightarrow> charset" where
  "cs_rename cs label = cs\<lparr>cs_name := label\<rparr>"

definition cs_eq :: "charset \<Rightarrow> charset \<Rightarrow> bool" where
  "cs_eq a b \<longleftrightarrow> cs_chars a = cs_chars b"

text \<open>\<^verbatim>\<open>isEmpty()\<close> asks whether the vector itself has no cells.\<close>

definition cs_isEmpty :: "charset \<Rightarrow> bool" where
  "cs_isEmpty cs \<longleftrightarrow> cs_chars cs = []"

section \<open>Constructors\<close>

definition cs_blank :: "string \<Rightarrow> charset" where
  "cs_blank label = \<lparr>cs_name = label, cs_chars = replicate 256 False\<rparr>"

text \<open>The three constructors: from the bytes of a C string, from one range, from a list of ranges.\<close>

definition cs_of_string :: "string \<Rightarrow> bytes \<Rightarrow> charset" where
  "cs_of_string label s = foldl cs_add (cs_blank label) s"

definition cs_of_range :: "string \<Rightarrow> 8 word \<Rightarrow> 8 word \<Rightarrow> charset" where
  "cs_of_range label low high = cs_addRange (cs_blank label) low high"

definition cs_of_ranges :: "string \<Rightarrow> (8 word \<times> 8 word) list \<Rightarrow> charset" where
  "cs_of_ranges label rs = foldl (\<lambda>cs r. cs_addRange cs (fst r) (snd r)) (cs_blank label) rs"

definition cs_complement :: "charset \<Rightarrow> string \<Rightarrow> charset" where
  "cs_complement cs label = \<lparr>cs_name = label, cs_chars = map Not (cs_chars cs)\<rparr>"

text \<open>\<^verbatim>\<open>printChars()\<close>: the members, in byte order.\<close>

definition cs_printChars :: "charset \<Rightarrow> bytes" where
  "cs_printChars cs = map char_of (filter (\<lambda>idx. cs_chars cs ! idx) [0..<256::nat])"

section \<open>What the operations mean\<close>

text \<open>The class invariant: the vector always has 256 cells.\<close>

definition cs_ok :: "charset \<Rightarrow> bool" where
  "cs_ok cs \<longleftrightarrow> length (cs_chars cs) = 256"

definition cs_set :: "charset \<Rightarrow> char set" where
  "cs_set cs = {c. cs_index cs c}"

named_theorems charset_simps \<open>membership in a character set, by how the set was built\<close>

lemma cs_ok_blank [simp]: "cs_ok (cs_blank l)"
  by (simp add: cs_ok_def cs_blank_def)

lemma cs_index_blank [charset_simps]: "\<not> cs_index (cs_blank l) c"
  using of_char_less_256 [of c] by (simp add: cs_index_def cs_blank_def)

lemma cs_ok_add [simp]: "cs_ok cs \<Longrightarrow> cs_ok (cs_add cs c)"
  by (simp add: cs_ok_def cs_add_def)

lemma cs_index_add [charset_simps]: "cs_ok cs \<Longrightarrow> cs_index (cs_add cs c) d \<longleftrightarrow> d = c \<or> cs_index cs d"
  by (auto simp: cs_ok_def cs_add_def cs_index_def nth_list_update)

lemma cs_ok_remove [simp]: "cs_ok cs \<Longrightarrow> cs_ok (cs_remove cs c)"
  by (simp add: cs_ok_def cs_remove_def)

lemma cs_index_remove [charset_simps]:
  "cs_ok cs \<Longrightarrow> cs_index (cs_remove cs c) d \<longleftrightarrow> d \<noteq> c \<and> cs_index cs d"
  by (auto simp: cs_ok_def cs_remove_def cs_index_def nth_list_update)

lemma length_addRange_loop [simp]: "length (addRange_loop cells low high) = length cells"
proof (induction cells low high rule: addRange_loop.induct)
  case (1 cells low high)
  then show ?case by (cases "low < high") (simp_all add: addRange_loop.simps [of cells])
qed

lemma nth_addRange_loop:
  assumes "k < length cells"
  shows "addRange_loop cells low high ! k \<longleftrightarrow> cells ! k \<or> (unat low \<le> k \<and> k < unat high)"
  using assms
proof (induction cells low high rule: addRange_loop.induct)
  case (1 cells low high)
  show ?case
  proof (cases "low < high")
    case True
    then have lt: "unat low < unat high" by (simp add: word_less_nat_alt)
    then have suc: "unat (low + 1) = unat low + 1"
      using unat_less_256 [of high] by (simp add: unat_word_ariths)
    from 1 True have "addRange_loop (cells[unat low := True]) (low + 1) high ! k \<longleftrightarrow>
        cells[unat low := True] ! k \<or> (unat low + 1 \<le> k \<and> k < unat high)"
      by (simp add: suc)
    with True lt "1.prems" show ?thesis
      by (cases "k = unat low") (auto simp: addRange_loop.simps [of cells])
  next
    case False
    then show ?thesis
      by (auto simp: addRange_loop.simps [of cells] word_less_nat_alt)
  qed
qed

lemma cs_ok_addRange [simp]: "cs_ok cs \<Longrightarrow> cs_ok (cs_addRange cs low high)"
  by (simp add: cs_ok_def cs_addRange_def)

lemma cs_index_addRange:
  assumes "cs_ok cs"
  shows "cs_index (cs_addRange cs low high) c \<longleftrightarrow>
     cs_index cs c \<or> of_char c = unat high \<or> (unat low \<le> of_char c \<and> of_char c < unat high)"
proof -
  have "unat high < 256" using unat_less_256 [of high] by simp
  then show ?thesis using assms of_char_less_256 [of c]
    by (auto simp: cs_ok_def cs_addRange_def cs_index_def nth_list_update nth_addRange_loop)
qed

lemma cs_index_addRange_le [charset_simps]:
  "cs_ok cs \<Longrightarrow> low \<le> high \<Longrightarrow>
     cs_index (cs_addRange cs low high) c \<longleftrightarrow>
       cs_index cs c \<or> (unat low \<le> of_char c \<and> of_char c \<le> unat high)"
  by (auto simp: cs_index_addRange word_le_nat_alt)

lemma length_cells_or [simp]: "length (cells_or ds ss) = length ds"
  by (induction ds ss rule: cells_or.induct) auto

lemma nth_cells_or:
  "length ss = length ds \<Longrightarrow> k < length ds \<Longrightarrow> cells_or ds ss ! k \<longleftrightarrow> ds ! k \<or> ss ! k"
  by (induction ds ss arbitrary: k rule: cells_or.induct) (auto simp: nth_Cons split: nat.splits)

lemma length_cells_minus [simp]: "length (cells_minus ds ss) = length ds"
  by (induction ds ss rule: cells_minus.induct) auto

lemma nth_cells_minus:
  "length ss = length ds \<Longrightarrow> k < length ds \<Longrightarrow> cells_minus ds ss ! k \<longleftrightarrow> ds ! k \<and> \<not> ss ! k"
  by (induction ds ss arbitrary: k rule: cells_minus.induct) (auto simp: nth_Cons split: nat.splits)

lemma cs_ok_union [simp]: "cs_ok a \<Longrightarrow> cs_ok (cs_union a b)"
  by (simp add: cs_ok_def cs_union_def)

lemma cs_index_union [charset_simps]:
  "cs_ok a \<Longrightarrow> cs_ok b \<Longrightarrow> cs_index (cs_union a b) c \<longleftrightarrow> cs_index a c \<or> cs_index b c"
  by (simp add: cs_ok_def cs_union_def cs_index_def nth_cells_or)

lemma cs_ok_diff [simp]: "cs_ok a \<Longrightarrow> cs_ok (cs_diff a b)"
  by (simp add: cs_ok_def cs_diff_def)

lemma cs_index_diff [charset_simps]:
  "cs_ok a \<Longrightarrow> cs_ok b \<Longrightarrow> cs_index (cs_diff a b) c \<longleftrightarrow> cs_index a c \<and> \<not> cs_index b c"
  by (simp add: cs_ok_def cs_diff_def cs_index_def nth_cells_minus)

lemma cs_ok_complement [simp]: "cs_ok a \<Longrightarrow> cs_ok (cs_complement a l)"
  by (simp add: cs_ok_def cs_complement_def)

lemma cs_index_complement [charset_simps]:
  "cs_ok a \<Longrightarrow> cs_index (cs_complement a l) c \<longleftrightarrow> \<not> cs_index a c"
  by (simp add: cs_ok_def cs_complement_def cs_index_def)

lemma cs_ok_rename [simp]: "cs_ok (cs_rename a l) = cs_ok a"
  by (simp add: cs_ok_def cs_rename_def)

lemma cs_index_rename [charset_simps]: "cs_index (cs_rename a l) c = cs_index a c"
  by (simp add: cs_index_def cs_rename_def)

lemma cs_foldl_add:
  "cs_ok cs \<Longrightarrow> cs_ok (foldl cs_add cs s) \<and>
     (\<forall>c. cs_index (foldl cs_add cs s) c \<longleftrightarrow> c \<in> set s \<or> cs_index cs c)"
  by (induction s arbitrary: cs) (auto simp: cs_index_add)

lemma cs_ok_of_string [simp]: "cs_ok (cs_of_string l s)"
  by (simp add: cs_of_string_def cs_foldl_add)

lemma cs_index_of_string [charset_simps]: "cs_index (cs_of_string l s) c \<longleftrightarrow> c \<in> set s"
  by (simp add: cs_of_string_def cs_foldl_add cs_index_blank)

lemma cs_ok_of_range [simp]: "cs_ok (cs_of_range l low high)"
  by (simp add: cs_of_range_def)

lemma cs_index_of_range [charset_simps]:
  "low \<le> high \<Longrightarrow>
     cs_index (cs_of_range l low high) c \<longleftrightarrow> unat low \<le> of_char c \<and> of_char c \<le> unat high"
  by (simp add: cs_of_range_def cs_index_addRange_le cs_index_blank)

lemma cs_foldl_addRange:
  "cs_ok cs \<Longrightarrow> list_all (\<lambda>r. fst r \<le> snd r) rs \<Longrightarrow>
     cs_ok (foldl (\<lambda>cs r. cs_addRange cs (fst r) (snd r)) cs rs) \<and>
     (\<forall>c. cs_index (foldl (\<lambda>cs r. cs_addRange cs (fst r) (snd r)) cs rs) c \<longleftrightarrow>
        cs_index cs c \<or> list_ex (\<lambda>r. unat (fst r) \<le> of_char c \<and> of_char c \<le> unat (snd r)) rs)"
  by (induction rs arbitrary: cs) (auto simp: cs_index_addRange_le)

lemma cs_ok_foldl_addRange:
  "cs_ok cs \<Longrightarrow> cs_ok (foldl (\<lambda>cs r. cs_addRange cs (fst r) (snd r)) cs rs)"
  by (induction rs arbitrary: cs) auto

lemma cs_ok_of_ranges [simp]: "cs_ok (cs_of_ranges l rs)"
  by (simp add: cs_of_ranges_def cs_ok_foldl_addRange)

lemma cs_index_of_ranges [charset_simps]:
  "list_all (\<lambda>r. fst r \<le> snd r) rs \<Longrightarrow>
     cs_index (cs_of_ranges l rs) c \<longleftrightarrow>
       list_ex (\<lambda>r. unat (fst r) \<le> of_char c \<and> of_char c \<le> unat (snd r)) rs"
  by (simp add: cs_of_ranges_def cs_foldl_addRange cs_index_blank)

lemma set_cs_printChars: "set (cs_printChars cs) = cs_set cs"
proof -
  have "cs_index cs c \<Longrightarrow> c \<in> set (cs_printChars cs)" for c
    using of_char_less_256 [of c]
    by (auto simp: cs_printChars_def cs_index_def intro!: image_eqI [of _ _ "of_char c"])
  then show ?thesis
    by (auto simp: cs_printChars_def cs_set_def cs_index_def)
qed

section \<open>The named sets\<close>

definition cs_ALPHA :: charset where
  "cs_ALPHA = cs_of_string ''ALPHA'' ''abcdefghijklmnopqrstuvwxyzABCDEFGHIJKLMNOPQRSTUVWXYZ''"

definition cs_BIT :: charset where
  "cs_BIT = cs_of_string ''BIT'' ''01''"

definition cs_CR :: charset where
  "cs_CR = cs_of_string ''CR'' [CHR 0x0D]"

definition cs_CTL :: charset where
  "cs_CTL = cs_of_ranges ''CTL'' [(0x01, 0x1f), (0x7f, 0x7f)]"

definition cs_DIGIT :: charset where
  "cs_DIGIT = cs_of_string ''DIGIT'' ''0123456789''"

definition cs_DQUOTE :: charset where
  "cs_DQUOTE = cs_of_string ''DQUOTE'' [CHR 0x22]"

definition cs_HEXDIG :: charset where
  "cs_HEXDIG = cs_of_string ''HEXDIG'' ''0123456789aAbBcCdDeEfF''"

definition cs_HTAB :: charset where
  "cs_HTAB = cs_of_string ''HTAB'' [CHR 0x09]"

definition cs_LF :: charset where
  "cs_LF = cs_of_string ''LF'' [CHR 0x0A]"

definition cs_SP :: charset where
  "cs_SP = cs_of_string ''SP'' [CHR 0x20]"

definition cs_VCHAR :: charset where
  "cs_VCHAR = cs_of_range ''VCHAR'' 0x21 0x7e"

definition cs_WSP :: charset where
  "cs_WSP = cs_of_string ''WSP'' [CHR 0x20, CHR 0x09]"

definition cs_CTEXT :: charset where
  "cs_CTEXT = cs_of_ranges ''ctext''
     [(0x09, 0x09), (0x20, 0x20), (0x2a, 0x5b), (0x5d, 0x7e), (0x80, 0xff)]"

definition cs_TCHAR :: charset where
  "cs_TCHAR = cs_of_string ''TCHAR'' (''!#$%&'' @ [CHR 0x27] @
     ''*+-.^_`|~0123456789abcdefghijklmnopqrstuvwxyzABCDEFGHIJKLMNOPQRSTUVWXYZ'')"

definition cs_SPECIAL :: charset where
  "cs_SPECIAL = cs_of_string ''SPECIAL'' (''()<>@,;:'' @ [CHR 0x5C, CHR 0x22] @ ''/[]?={}'')"

definition cs_QDTEXT :: charset where
  "cs_QDTEXT = cs_of_ranges ''QDTEXT''
     [(0x09, 0x09), (0x20, 0x21), (0x23, 0x5b), (0x5d, 0x7e), (0x80, 0xff)]"

definition cs_OBSTEXT :: charset where
  "cs_OBSTEXT = cs_of_range ''OBSTEXT'' 0x80 0xff"

definition cs_ETAGC :: charset where
  "cs_ETAGC = cs_of_ranges ''ETAGC'' [(0x21, 0x21), (0x23, 0x7e), (0x80, 0xff)]"

definition cs_TOKEN68C :: charset where
  "cs_TOKEN68C = cs_of_string ''TOKEN68C''
     ''-._~+/0123456789abcdefghijklmnopqrstuvwxyzABCDEFGHIJKLMNOPQRSTUVWXYZ''"

definition cs_RFC3986_UNRESERVED :: charset where
  "cs_RFC3986_UNRESERVED = cs_of_string ''RFC3986_UNRESERVED''
     ''0123456789abcdefghijklmnopqrstuvwxyzABCDEFGHIJKLMNOPQRSTUVWXYZ-._~''"

lemmas named_set_defs =
  cs_ALPHA_def cs_BIT_def cs_CR_def cs_CTL_def cs_DIGIT_def cs_DQUOTE_def cs_HEXDIG_def
  cs_HTAB_def cs_LF_def cs_SP_def cs_VCHAR_def cs_WSP_def cs_CTEXT_def cs_TCHAR_def
  cs_SPECIAL_def cs_QDTEXT_def cs_OBSTEXT_def cs_ETAGC_def cs_TOKEN68C_def
  cs_RFC3986_UNRESERVED_def

lemma cs_ok_named [simp]:
  "cs_ok cs_ALPHA" "cs_ok cs_BIT" "cs_ok cs_CR" "cs_ok cs_CTL" "cs_ok cs_DIGIT"
  "cs_ok cs_DQUOTE" "cs_ok cs_HEXDIG" "cs_ok cs_HTAB" "cs_ok cs_LF" "cs_ok cs_SP"
  "cs_ok cs_VCHAR" "cs_ok cs_WSP" "cs_ok cs_CTEXT" "cs_ok cs_TCHAR" "cs_ok cs_SPECIAL"
  "cs_ok cs_QDTEXT" "cs_ok cs_OBSTEXT" "cs_ok cs_ETAGC" "cs_ok cs_TOKEN68C"
  "cs_ok cs_RFC3986_UNRESERVED"
  by (simp_all add: named_set_defs)

lemma cs_index_CR [charset_simps]: "cs_index cs_CR c \<longleftrightarrow> c = CHR 0x0D"
  by (simp add: cs_CR_def charset_simps)

lemma cs_index_LF [charset_simps]: "cs_index cs_LF c \<longleftrightarrow> c = CHR 0x0A"
  by (simp add: cs_LF_def charset_simps)

lemma cs_index_SP [charset_simps]: "cs_index cs_SP c \<longleftrightarrow> c = CHR 0x20"
  by (simp add: cs_SP_def charset_simps)

lemma cs_index_HTAB [charset_simps]: "cs_index cs_HTAB c \<longleftrightarrow> c = CHR 0x09"
  by (simp add: cs_HTAB_def charset_simps)

lemma cs_index_WSP [charset_simps]: "cs_index cs_WSP c \<longleftrightarrow> c = CHR 0x20 \<or> c = CHR 0x09"
  by (simp add: cs_WSP_def charset_simps)

lemma cs_index_VCHAR [charset_simps]:
  "cs_index cs_VCHAR c \<longleftrightarrow> 33 \<le> (of_char c :: nat) \<and> (of_char c :: nat) \<le> 126"
  by (simp add: cs_VCHAR_def charset_simps)

lemma cs_index_OBSTEXT [charset_simps]: "cs_index cs_OBSTEXT c \<longleftrightarrow> 128 \<le> (of_char c :: nat)"
proof -
  have "(of_char c :: nat) \<le> 255" using of_char_less_256 [of c] by linarith
  then show ?thesis by (simp add: cs_OBSTEXT_def charset_simps)
qed

lemma cs_index_DIGIT [charset_simps]: "cs_index cs_DIGIT c \<longleftrightarrow> xisdigit c"
proof -
  have "xisdigit c \<longleftrightarrow> (of_char c :: nat) \<in> {48, 49, 50, 51, 52, 53, 54, 55, 56, 57}"
    by (simp add: xisdigit_def) arith
  also have "\<dots> \<longleftrightarrow> c \<in> set ''0123456789''"
    by (simp add: char_of_eq_iff flip: of_char_nat_inject)
  finally show ?thesis by (simp only: cs_DIGIT_def cs_index_of_string)
qed

lemma cs_index_TCHAR [charset_simps]: "cs_index cs_TCHAR c \<longleftrightarrow> c \<in> set (''!#$%&'' @ [CHR 0x27] @
     ''*+-.^_`|~0123456789abcdefghijklmnopqrstuvwxyzABCDEFGHIJKLMNOPQRSTUVWXYZ'')"
  by (simp only: cs_TCHAR_def cs_index_of_string)

section \<open>Correctness of the character sets\<close>

text \<open>The 256-cell representation computes set algebra: adding, removing, ranges, the operators and the
  complement of well-formed sets are union, difference and complement of the sets of their members, and
  \<^verbatim>\<open>printChars()\<close> prints exactly the members.\<close>

lemma charset_algebra:
  assumes "cs_ok a" "cs_ok b" "low \<le> high"
  shows "cs_set (cs_union a b) = cs_set a \<union> cs_set b \<and>
    cs_set (cs_diff a b) = cs_set a - cs_set b \<and>
    cs_set (cs_complement a l) = - cs_set a \<and>
    cs_set (cs_add a c) = insert c (cs_set a) \<and>
    cs_set (cs_remove a c) = cs_set a - {c} \<and>
    cs_set (cs_addRange a low high) = cs_set a \<union> {c. unat low \<le> of_char c \<and> of_char c \<le> unat high} \<and>
    cs_set (cs_of_string l s) = set s \<and>
    set (cs_printChars a) = cs_set a"
  using assms by (auto simp: cs_set_def charset_simps set_cs_printChars)

text \<open>\<^verbatim>\<open>isEmpty()\<close> tests the storage vector, which always has 256 cells: it is false for every well-formed set,
  also for one without members.\<close>

lemma isEmpty_always_false:
  "cs_ok cs \<Longrightarrow> \<not> cs_isEmpty cs"
  by (auto simp: cs_ok_def cs_isEmpty_def)

end
