(* ===== verification/SBuf_Value.thy ===== *)
theory SBuf_Value
  imports Character_Set
begin

text \<open>
  \<^verbatim>\<open>src/sbuf/SBuf\<close>, the string value of a buffer: slicing, searching and
  comparing. A buffer of at most \<^const>\<open>maxSize\<close> bytes is its byte list; a position
  that was not found is \<^const>\<open>npos\<close>. How a buffer keeps that value in a shared,
  reference-counted store is the subject of theory \<open>SBuf_Heap\<close>, which proves that the
  mutators there change the value as the functions here say.
\<close>

section \<open>Slicing\<close>

text \<open>
  \<^verbatim>\<open>SBuf::chop(pos, n)\<close> first clamps its arguments. The sum \<open>pos + n\<close> is
  computed in 32 bits.
\<close>

definition chop_pos :: "nat \<Rightarrow> nat \<Rightarrow> nat" where
  "chop_pos len pos = (if pos = npos \<or> pos > len then len else pos)"

definition chop_len :: "nat \<Rightarrow> nat \<Rightarrow> nat \<Rightarrow> nat" where
  "chop_len len pos n = (if n = npos \<or> uadd32 pos n > len then len - pos else n)"

definition sb_chop :: "bytes \<Rightarrow> nat \<Rightarrow> nat \<Rightarrow> bytes" where
  "sb_chop s pos0 n0 =
     (let pos = chop_pos (length s) pos0;
          n = chop_len (length s) pos n0
      in if pos = length s \<or> n = 0 then [] else take n (drop pos s))"

definition sb_substr :: "bytes \<Rightarrow> nat \<Rightarrow> nat \<Rightarrow> bytes" where
  "sb_substr s pos n = sb_chop s pos n"

text \<open>\<^verbatim>\<open>SBuf::consume(n)\<close>: the first \<open>n\<close> bytes, and what is left.\<close>

definition sb_consume :: "bytes \<Rightarrow> nat \<Rightarrow> bytes \<times> bytes" where
  "sb_consume s n0 =
     (let n = (if n0 = npos then length s else min n0 (length s))
      in (sb_substr s 0 n, sb_chop s n npos))"

text \<open>\<^verbatim>\<open>SBuf::trim()\<close>: the two byte-by-byte loops, from the end and from the beginning.\<close>

definition sb_trim :: "bytes \<Rightarrow> bytes \<Rightarrow> bool \<Rightarrow> bool \<Rightarrow> bytes" where
  "sb_trim s toRemove atBeginning atEnd =
     (let s1 = (if atEnd then rev (dropWhile (\<lambda>c. c \<in> set toRemove) (rev s)) else s)
      in if atBeginning then dropWhile (\<lambda>c. c \<in> set toRemove) s1 else s1)"

definition sb_copy :: "bytes \<Rightarrow> nat \<Rightarrow> bytes" where
  "sb_copy s n = take (min n (length s)) s"

section \<open>Searching\<close>

definition or_npos :: "nat option \<Rightarrow> nat" where
  "or_npos r = (case r of None \<Rightarrow> npos | Some i \<Rightarrow> i)"

definition sb_findFirstOf :: "bytes \<Rightarrow> charset \<Rightarrow> nat \<Rightarrow> nat" where
  "sb_findFirstOf s cs startPos =
     (if startPos = npos then npos
      else if startPos \<ge> length s then npos
      else or_npos (first_idx (\<lambda>c. cs_index cs c) (drop startPos s) startPos))"

definition sb_findFirstNotOf :: "bytes \<Rightarrow> charset \<Rightarrow> nat \<Rightarrow> nat" where
  "sb_findFirstNotOf s cs startPos =
     (if startPos = npos then npos
      else if startPos \<ge> length s then npos
      else or_npos (first_idx (\<lambda>c. \<not> cs_index cs c) (drop startPos s) startPos))"

text \<open>The backward loops run from \<open>endPos\<close> down to the first byte.\<close>

primrec scan_back :: "('a \<Rightarrow> bool) \<Rightarrow> 'a list \<Rightarrow> nat \<Rightarrow> nat" where
  "scan_back P s 0 = npos"
| "scan_back P s (Suc cur) = (if P (s ! cur) then cur else scan_back P s cur)"

definition sb_findLastOf :: "bytes \<Rightarrow> charset \<Rightarrow> nat \<Rightarrow> nat" where
  "sb_findLastOf s cs endPos0 =
     (if s = [] then npos
      else let endPos = (if endPos0 = npos \<or> endPos0 \<ge> length s then length s - 1 else endPos0)
           in scan_back (\<lambda>c. cs_index cs c) s (Suc endPos))"

definition sb_findLastNotOf :: "bytes \<Rightarrow> charset \<Rightarrow> nat \<Rightarrow> nat" where
  "sb_findLastNotOf s cs endPos0 =
     (if s = [] then npos
      else let endPos = (if endPos0 = npos \<or> endPos0 \<ge> length s then length s - 1 else endPos0)
           in scan_back (\<lambda>c. \<not> cs_index cs c) s (Suc endPos))"

definition sb_find_char :: "bytes \<Rightarrow> char \<Rightarrow> nat \<Rightarrow> nat" where
  "sb_find_char s c startPos =
     (if startPos = npos then npos
      else if startPos > length s then npos
      else or_npos (first_idx (\<lambda>d. d = c) (drop startPos s) startPos))"

text \<open>
  \<^verbatim>\<open>SBuf::find(needle)\<close>: \<^verbatim>\<open>memchr()\<close> for the first byte of the needle,
  then \<^verbatim>\<open>memcmp()\<close>, then on from the byte after. \<open>count\<close> is
  \<open>lastPossible - start\<close>.
\<close>

fun find_loop :: "bytes \<Rightarrow> bytes \<Rightarrow> nat \<Rightarrow> nat \<Rightarrow> nat" where
  "find_loop s needle start 0 = npos"
| "find_loop s needle start (Suc count) =
     (if s ! start = hd needle \<and> take (length needle) (drop start s) = needle
      then start else find_loop s needle (Suc start) count)"

definition sb_find :: "bytes \<Rightarrow> bytes \<Rightarrow> nat \<Rightarrow> nat" where
  "sb_find s needle startPos =
     (if startPos = npos then npos
      else if startPos > length s then npos
      else if length needle = 0 then startPos
      else if length needle = 1 then sb_find_char s (hd needle) startPos
      else find_loop s needle startPos (length s + 1 - length needle - startPos))"

definition sb_rfind_char :: "bytes \<Rightarrow> char \<Rightarrow> nat \<Rightarrow> nat" where
  "sb_rfind_char s c endPos0 =
     (if length s = 0 then npos
      else let endPos = (if endPos0 = npos \<or> endPos0 \<ge> length s then length s else Suc endPos0)
           in scan_back (\<lambda>d. d = c) s endPos)"

primrec rfind_loop :: "bytes \<Rightarrow> bytes \<Rightarrow> nat \<Rightarrow> nat" where
  "rfind_loop s needle 0 = npos"
| "rfind_loop s needle (Suc cur) =
     (if s ! cur = hd needle \<and> take (length needle) (drop cur s) = needle
      then cur else rfind_loop s needle cur)"

definition sb_rfind :: "bytes \<Rightarrow> bytes \<Rightarrow> nat \<Rightarrow> nat" where
  "sb_rfind s needle endPos0 =
     (if length needle = 1 then sb_rfind_char s (hd needle) endPos0
      else if length s < length needle then npos
      else let endPos = (if endPos0 = npos \<or> endPos0 > length s - length needle
                         then length s - length needle else endPos0)
           in if length needle = 0 then endPos else rfind_loop s needle (Suc endPos))"

section \<open>Comparing\<close>

text \<open>
  \<^verbatim>\<open>memcmp()\<close> compares unsigned bytes; only the sign of its result is specified.
  \<^verbatim>\<open>memcasecmp()\<close> subtracts \<^verbatim>\<open>char\<close> values, which are signed here.
\<close>

fun memcmp :: "bytes \<Rightarrow> bytes \<Rightarrow> int" where
  "memcmp (a # as) (b # bs) =
     (if a = b then memcmp as bs else sgn (int (of_char a) - int (of_char b)))"
| "memcmp _ _ = 0"

definition schar :: "char \<Rightarrow> int" where
  "schar c = (let n = int (of_char c) in if n \<ge> 128 then n - 256 else n)"

fun memcasecmp :: "bytes \<Rightarrow> bytes \<Rightarrow> int" where
  "memcasecmp (a # as) (b # bs) =
     (let rv = schar (xtolower a) - schar (xtolower b)
      in if rv \<noteq> 0 then rv else memcasecmp as bs)"
| "memcasecmp _ _ = 0"

text \<open>
  \<^verbatim>\<open>SBuf::compare(S, isCaseSensitive, n)\<close>: a bounded comparison compares the two
  \<open>n\<close>-byte prefixes. The branch \<^verbatim>\<open>n <= length() || n <= S.length()\<close> of the source
  is reached with \<open>n = npos\<close> only, which no length reaches.
\<close>

definition sb_compare_all :: "bytes \<Rightarrow> bytes \<Rightarrow> bool \<Rightarrow> int" where
  "sb_compare_all s t caseSensitive =
     (let byteCompareLen = min (length t) (length s);
          rv = (if caseSensitive then memcmp (take byteCompareLen s) (take byteCompareLen t)
                else memcasecmp (take byteCompareLen s) (take byteCompareLen t))
      in if rv \<noteq> 0 then rv
         else if npos \<le> length s \<or> npos \<le> length t then 0
         else if length s = length t then 0
         else if length s > length t then 1
         else -1)"

definition sb_compare :: "bytes \<Rightarrow> bytes \<Rightarrow> bool \<Rightarrow> nat \<Rightarrow> int" where
  "sb_compare s t caseSensitive n =
     (if n \<noteq> npos then sb_compare_all (sb_substr s 0 n) (sb_substr t 0 n) caseSensitive
      else sb_compare_all s t caseSensitive)"

definition sb_cmp :: "bytes \<Rightarrow> bytes \<Rightarrow> int" where
  "sb_cmp s t = sb_compare s t True npos"

definition sb_caseCmp :: "bytes \<Rightarrow> bytes \<Rightarrow> int" where
  "sb_caseCmp s t = sb_compare s t False npos"

definition sb_startsWith :: "bytes \<Rightarrow> bytes \<Rightarrow> bool \<Rightarrow> bool" where
  "sb_startsWith s t caseSensitive =
     (if length s < length t then False
      else sb_compare s t caseSensitive (length t) = 0)"

text \<open>
  \<^verbatim>\<open>compare()\<close> against a C string: the byte list is what precedes the terminating
  zero byte, and the scan may also stop at a zero byte of the buffer.
\<close>

definition c_char :: "bytes \<Rightarrow> nat \<Rightarrow> char" where
  "c_char s i = (if i < length s then s ! i else CHR 0x00)"

fun cstr_loop :: "(char \<Rightarrow> char) \<Rightarrow> bytes \<Rightarrow> bytes \<Rightarrow> nat \<Rightarrow> nat \<Rightarrow> int \<times> nat \<times> nat" where
  "cstr_loop f s t i 0 = (0, i, 0)"
| "cstr_loop f s t i (Suc byteCount) =
     (let rv = schar (f (c_char s i)) - schar (f (c_char t i))
      in if rv \<noteq> 0 then (rv, Suc i, Suc byteCount)
         else if c_char s i = CHR 0x00 then (0, Suc i, Suc byteCount)
         else if byteCount = 0 then (0, Suc i, 0)
         else cstr_loop f s t (Suc i) byteCount)"

definition sb_compare_cstr :: "bytes \<Rightarrow> bytes \<Rightarrow> bool \<Rightarrow> nat \<Rightarrow> int" where
  "sb_compare_cstr s t caseSensitive n =
     (if n = 0 then 0
      else if length s = 0 then - schar (c_char t 0)
      else case cstr_loop (if caseSensitive then id else xtolower) s t 0 (min (length s) n) of
        (rv, right, byteCount) \<Rightarrow>
          if byteCount = 0 \<and> length s < n then - schar (c_char t right) else rv)"

section \<open>Slicing is take and drop\<close>

text \<open>The values an \<^verbatim>\<open>SBuf\<close> can hold: at most \<^const>\<open>maxSize\<close> bytes.\<close>

definition sb_ok :: "bytes \<Rightarrow> bool" where
  "sb_ok s \<longleftrightarrow> length s \<le> maxSize"

lemma sb_ok_Nil [simp]: "sb_ok []"
  by (simp add: sb_ok_def)

lemma sb_ok_drop [simp]: "sb_ok s \<Longrightarrow> sb_ok (drop n s)"
  by (simp add: sb_ok_def)

lemma sb_ok_take [simp]: "sb_ok s \<Longrightarrow> sb_ok (take n s)"
  by (simp add: sb_ok_def)

lemma sb_ok_appendD: "sb_ok (s @ t) \<Longrightarrow> sb_ok s \<and> sb_ok t"
  by (simp add: sb_ok_def)

lemma sb_ok_length [size_simps]: "sb_ok s \<Longrightarrow> length s < npos"
  by (simp add: sb_ok_def maxSize_def npos_def)

lemma sb_ok_length_neq [simp]: "sb_ok s \<Longrightarrow> length s \<noteq> npos"
  by (auto simp: sb_ok_def maxSize_def npos_def)

lemma sb_chop_exact:
  assumes "sb_ok s" "n = npos \<or> pos + n < 4294967296"
  shows "sb_chop s pos n = (if n = npos then drop pos s else take n (drop pos s))"
proof (cases "pos > length s \<or> pos = npos")
  case True
  then have "chop_pos (length s) pos = length s" by (auto simp: chop_pos_def)
  moreover have "length s \<le> pos" using True sb_ok_length [OF assms(1)] by auto
  ultimately show ?thesis by (simp add: sb_chop_def)
next
  case False
  then have p: "chop_pos (length s) pos = pos" by (simp add: chop_pos_def)
  show ?thesis
  proof (cases "n = npos")
    case True
    then show ?thesis using False by (simp add: sb_chop_def p chop_len_def)
  next
    case n: False
    with assms have u: "uadd32 pos n = pos + n" by (simp add: size_simps)
    show ?thesis using False n by (auto simp: sb_chop_def p chop_len_def u)
  qed
qed

lemma sb_chop_tail: "sb_ok s \<Longrightarrow> sb_chop s pos npos = drop pos s"
  by (simp add: sb_chop_exact)

lemma sb_substr_0: "sb_ok s \<Longrightarrow> n < 4294967296 \<Longrightarrow> sb_substr s 0 n = take n s"
  using sb_ok_length [of s] by (auto simp: sb_substr_def sb_chop_exact)

lemma sb_substr_tail: "sb_ok s \<Longrightarrow> sb_substr s pos npos = drop pos s"
  by (simp add: sb_substr_def sb_chop_tail)

lemma sb_consume_eq:
  assumes "sb_ok s" "n < 4294967296"
  shows "sb_consume s n = (take n s, drop n s)"
proof -
  define m where "m = (if n = npos then length s else min n (length s))"
  have "length s < 4294967296" using sb_ok_length [OF assms(1)] by (simp add: npos_def)
  then have m: "m < 4294967296" by (auto simp: m_def)
  have "take m s = take n s" "drop m s = drop n s"
    using sb_ok_length [OF assms(1)] by (auto simp: m_def min_def)
  moreover have "sb_consume s n = (sb_substr s 0 m, sb_chop s m npos)"
    by (simp add: sb_consume_def m_def Let_def)
  ultimately show ?thesis
    by (simp add: sb_substr_0 [OF assms(1) m] sb_chop_tail [OF assms(1)])
qed

lemma sb_consume_npos: "sb_ok s \<Longrightarrow> sb_consume s npos = (s, [])"
  using sb_ok_length [of s] by (simp add: sb_consume_eq npos_def)

section \<open>What the searches find\<close>

lemma sb_findFirstNotOf_0:
  "sb_findFirstNotOf s cs 0 =
     (if \<forall>c\<in>set s. cs_index cs c then npos else length (takeWhile (cs_index cs) s))"
  by (auto simp: sb_findFirstNotOf_def or_npos_def first_idx_eq npos_def)

lemma sb_findFirstOf_0:
  "sb_findFirstOf s cs 0 =
     (if \<forall>c\<in>set s. \<not> cs_index cs c then npos
      else length (takeWhile (\<lambda>c. \<not> cs_index cs c) s))"
  by (auto simp: sb_findFirstOf_def or_npos_def first_idx_eq npos_def)

lemma scan_back_spec:
  "scan_back P s n = npos \<and> (\<forall>i<n. \<not> P (s ! i)) \<or>
   scan_back P s n < n \<and> P (s ! scan_back P s n) \<and> (\<forall>i. scan_back P s n < i \<and> i < n \<longrightarrow> \<not> P (s ! i))"
proof (induction n)
  case 0
  show ?case by simp
next
  case (Suc n)
  show ?case
  proof (cases "P (s ! n)")
    case True
    then show ?thesis by auto
  next
    case False
    with Suc show ?thesis by (auto simp: less_Suc_eq)
  qed
qed

lemma scan_back_less_or_npos: "scan_back P s n = npos \<or> scan_back P s n < n"
  using scan_back_spec [of P s n] by auto

text \<open>Whether \<open>needle\<close> stands in \<open>s\<close> at offset \<open>i\<close>.\<close>

definition occurs_at :: "bytes \<Rightarrow> bytes \<Rightarrow> nat \<Rightarrow> bool" where
  "occurs_at s needle i \<longleftrightarrow> take (length needle) (drop i s) = needle"

lemma occurs_at_hd:
  assumes "occurs_at s needle i" "needle \<noteq> []" "i < length s"
  shows "s ! i = hd needle"
proof -
  have "hd needle = hd (take (length needle) (drop i s))"
    using assms(1) by (simp add: occurs_at_def)
  also have "\<dots> = s ! i"
    using assms(2,3) by (simp add: hd_drop_conv_nth)
  finally show ?thesis by simp
qed

lemma occurs_at_fits:
  assumes "occurs_at s needle i" "needle \<noteq> []"
  shows "i + length needle \<le> length s"
proof -
  have "length needle = length (take (length needle) (drop i s))"
    using assms(1) by (simp add: occurs_at_def)
  then have "length needle \<le> length s - i" by simp
  moreover have "0 < length needle" using assms(2) by simp
  ultimately show ?thesis by linarith
qed

declare find_loop.simps [simp del]

lemma find_loop_spec:
  assumes "needle \<noteq> []" "start + count \<le> length s"
  shows "find_loop s needle start count = npos \<and>
           (\<forall>i\<in>{start..<start + count}. \<not> occurs_at s needle i) \<or>
         find_loop s needle start count \<in> {start..<start + count} \<and>
           occurs_at s needle (find_loop s needle start count) \<and>
           (\<forall>i\<in>{start..<find_loop s needle start count}. \<not> occurs_at s needle i)"
  using assms(2)
proof (induction count arbitrary: start)
  case 0
  then show ?case by (simp add: find_loop.simps)
next
  case (Suc count)
  let ?r = "find_loop s needle (Suc start) count"
  have range: "{start..<start + Suc count} = insert start {Suc start..<Suc start + count}"
    by auto
  show ?case
  proof (cases "occurs_at s needle start")
    case True
    then have "s ! start = hd needle" using assms(1) Suc.prems by (simp add: occurs_at_hd)
    with True have "find_loop s needle start (Suc count) = start"
      by (simp add: occurs_at_def find_loop.simps)
    with True show ?thesis by simp
  next
    case False
    then have step: "find_loop s needle start (Suc count) = ?r"
      by (simp add: occurs_at_def find_loop.simps)
    from Suc.prems have "Suc start + count \<le> length s" by simp
    from Suc.IH [OF this] consider
        "?r = npos" "\<forall>i\<in>{Suc start..<Suc start + count}. \<not> occurs_at s needle i"
      | "?r \<in> {Suc start..<Suc start + count}" "occurs_at s needle ?r"
        "\<forall>i\<in>{Suc start..<?r}. \<not> occurs_at s needle i"
      by blast
    then show ?thesis
    proof cases
      case 1
      with False show ?thesis unfolding step range by blast
    next
      case 2
      then have e: "{start..<?r} = insert start {Suc start..<?r}" by auto
      have "\<forall>i\<in>{start..<?r}. \<not> occurs_at s needle i" unfolding e using 2(3) False by blast
      with 2 show ?thesis unfolding step range by blast
    qed
  qed
qed

section \<open>What the comparisons decide\<close>

lemma memcmp_eq_0: "length a = length b \<Longrightarrow> memcmp a b = 0 \<longleftrightarrow> a = b"
  by (induction a b rule: list_induct2) (auto simp: sgn_0_0)

lemma schar_inject [simp]: "schar a = schar b \<longleftrightarrow> a = b"
proof -
  have *: "(if 128 \<le> x then x - 256 else x) = (if 128 \<le> y then y - 256 else y) \<longleftrightarrow> x = y"
    if "0 \<le> x" "x < 256" "0 \<le> y" "y < 256" for x y :: int
    using that by auto
  have "int (of_char a) < 256" "int (of_char b) < 256"
    using of_char_less_256 [of a] of_char_less_256 [of b] by linarith+
  then have "schar a = schar b \<longleftrightarrow> int (of_char a) = int (of_char b)"
    unfolding schar_def Let_def by (intro *) simp_all
  then show ?thesis by simp
qed

lemma memcasecmp_eq_0:
  "length a = length b \<Longrightarrow> memcasecmp a b = 0 \<longleftrightarrow> map xtolower a = map xtolower b"
  by (induction a b rule: list_induct2) (auto simp: Let_def)

lemma sb_compare_all_eq_0:
  assumes "sb_ok s" "sb_ok t"
  shows "sb_compare_all s t cs = 0 \<longleftrightarrow>
           (if cs then s = t else map xtolower s = map xtolower t)"
proof (cases "length s = length t")
  case True
  with assms show ?thesis
    using sb_ok_length [of s]
    by (auto simp: sb_compare_all_def Let_def memcmp_eq_0 memcasecmp_eq_0)
next
  case False
  then have "s \<noteq> t" "map xtolower s \<noteq> map xtolower t" by (auto dest: map_eq_imp_length_eq)
  with False show ?thesis
    using sb_ok_length [OF assms(1)] sb_ok_length [OF assms(2)]
    by (auto simp: sb_compare_all_def Let_def)
qed

lemma sb_cmp_eq_0: "sb_ok s \<Longrightarrow> sb_ok t \<Longrightarrow> sb_cmp s t = 0 \<longleftrightarrow> s = t"
  by (simp add: sb_cmp_def sb_compare_def sb_compare_all_eq_0)

lemma sb_caseCmp_eq_0:
  "sb_ok s \<Longrightarrow> sb_ok t \<Longrightarrow> sb_caseCmp s t = 0 \<longleftrightarrow> map xtolower s = map xtolower t"
  by (simp add: sb_caseCmp_def sb_compare_def sb_compare_all_eq_0)

lemma sb_startsWith_eq:
  assumes "sb_ok s" "sb_ok t"
  shows "sb_startsWith s t True \<longleftrightarrow> take (length t) s = t"
proof -
  have lt: "length t < 4294967296" "length t \<noteq> npos"
    using sb_ok_length [OF assms(2)] by (simp_all add: npos_def)
  show ?thesis
  proof (cases "length s < length t")
    case True
    then have "take (length t) s \<noteq> t" by (metis length_take min_less_iff_conj nat_neq_iff)
    with True show ?thesis by (simp add: sb_startsWith_def)
  next
    case False
    with assms lt show ?thesis
      by (simp add: sb_startsWith_def sb_compare_def sb_substr_0 sb_compare_all_eq_0)
  qed
qed

lemma sb_startsWith_prefix:
  "sb_ok s \<Longrightarrow> sb_ok t \<Longrightarrow> sb_startsWith s t True \<longleftrightarrow> (\<exists>r. s = t @ r)"
  by (metis append_eq_conv_conj append_take_drop_id sb_startsWith_eq)

section \<open>Correctness of searching and slicing\<close>

lemma occurs_at_single: "occurs_at s [c] i \<longleftrightarrow> i < length s \<and> s ! i = c"
proof (cases "i < length s")
  case True
  then have "take (Suc 0) (drop i s) = [s ! i]" by (simp add: take_Suc hd_drop_conv_nth)
  with True show ?thesis by (simp add: occurs_at_def)
qed (simp add: occurs_at_def)

definition first_occurrence :: "bytes \<Rightarrow> bytes \<Rightarrow> nat \<Rightarrow> nat \<Rightarrow> bool" where
  "first_occurrence s needle from r \<longleftrightarrow>
     (if r = npos then \<forall>i. from \<le> i \<and> i \<le> length s \<longrightarrow> \<not> occurs_at s needle i
      else from \<le> r \<and> r + length needle \<le> length s \<and> occurs_at s needle r \<and>
        (\<forall>i. from \<le> i \<and> i < r \<longrightarrow> \<not> occurs_at s needle i))"

lemma sb_find_char_first:
  assumes "sb_ok s" shows "first_occurrence s [c] from (sb_find_char s c from)"
proof (cases "from = npos \<or> from > length s \<or> c \<notin> set (drop from s)")
  case True
  then have "sb_find_char s c from = npos" by (auto simp: sb_find_char_def or_npos_def first_idx_eq)
  moreover have "c \<in> set (drop from s)" if "from \<le> i" "i < length s" "s ! i = c" for i
    using that nth_mem [of "i - from" "drop from s"] by simp
  ultimately show ?thesis using True sb_ok_length [OF assms]
    by (auto simp: first_occurrence_def occurs_at_single)
next
  case False
  let ?w = "takeWhile (\<lambda>d. d \<noteq> c) (drop from s)"
  have r: "sb_find_char s c from = from + length ?w"
    using False by (auto simp: sb_find_char_def or_npos_def first_idx_eq)
  have lt: "length ?w < length (drop from s)" using False by (intro length_takeWhile_less [of c]) auto
  then have "s ! (from + length ?w) = c" using nth_length_takeWhile [OF lt] by simp
  moreover have "s ! i \<noteq> c" if "from \<le> i" "i < from + length ?w" for i
  proof -
    have "?w ! (i - from) = drop from s ! (i - from)" using that by (intro takeWhile_nth) simp
    moreover have "?w ! (i - from) \<in> set ?w" using that by (intro nth_mem) linarith
    then have "?w ! (i - from) \<noteq> c" by (rule set_takeWhileD [THEN conjunct2])
    ultimately show ?thesis using that False by simp
  qed
  ultimately show ?thesis using lt sb_ok_length [OF assms] False unfolding r first_occurrence_def
    by (auto simp: occurs_at_single)
qed

text \<open>C33. \<^verbatim>\<open>SBuf::find()\<close> returns the first position at or after the start position where the needle
  occurs completely inside the buffer, and npos when there is none. The byte-scan with
  memchr and memcmp neither misses an occurrence nor reads past the end.\<close>

theorem sb_find_first:
  assumes "sb_ok s"
  shows "first_occurrence s needle startPos (sb_find s needle startPos)"
proof -
  consider "startPos = npos \<or> startPos > length s" | "startPos \<le> length s" "needle = []"
    | c where "needle = [c]" "startPos \<le> length s" | "1 < length needle" "startPos \<le> length s"
    by (cases needle rule: remdups_adj.cases) force+
  then show ?thesis
  proof cases
    case 1
    then show ?thesis using sb_ok_length [OF assms] by (auto simp: sb_find_def first_occurrence_def)
  next
    case 2
    then show ?thesis using sb_ok_length [OF assms]
      by (auto simp: sb_find_def first_occurrence_def occurs_at_def)
  next
    case 3
    then show ?thesis using sb_find_char_first [OF assms, of c startPos] sb_ok_length [OF assms]
      by (simp add: sb_find_def)
  next
    case 4
    let ?n = "length s + 1 - length needle - startPos"
    have f: "sb_find s needle startPos = find_loop s needle startPos ?n"
      using 4 sb_ok_length [OF assms] by (auto simp: sb_find_def)
    have "startPos + ?n \<le> length s" using 4 by linarith
    from find_loop_spec [OF _ this, of needle] 4 have
      "find_loop s needle startPos ?n = npos \<and> (\<forall>i\<in>{startPos..<startPos + ?n}. \<not> occurs_at s needle i) \<or>
       find_loop s needle startPos ?n \<in> {startPos..<startPos + ?n} \<and> occurs_at s needle (find_loop s needle startPos ?n) \<and>
       (\<forall>i\<in>{startPos..<find_loop s needle startPos ?n}. \<not> occurs_at s needle i)" by fastforce
    moreover have "occurs_at s needle i \<Longrightarrow> i + length needle \<le> length s" for i
      using occurs_at_fits 4 by fastforce
    ultimately show ?thesis unfolding f first_occurrence_def using sb_ok_length [OF assms] 4
      by (auto; fastforce)
  qed
qed

theorem sb_find_first_witness: "first_occurrence ''abcabd'' ''abd'' 0 (sb_find ''abcabd'' ''abd'' 0)"
  by (rule sb_find_first) (simp add: sb_ok_def maxSize_def)

text \<open>Slicing with arguments whose sum does not exceed 32 bits is \<open>take\<close> and \<open>drop\<close>: \<^verbatim>\<open>substr(pos, n)\<close> is the
  at most \<open>n\<close> bytes from \<open>pos\<close> on, and \<^verbatim>\<open>consume(n)\<close> splits the buffer after \<open>n\<close> bytes.\<close>

lemma sb_slices:
  assumes "sb_ok s" "n = npos \<or> pos + n < 4294967296" "k < 4294967296"
  shows "sb_substr s pos n = (if n = npos then drop pos s else take n (drop pos s)) \<and>
    sb_consume s k = (take k s, drop k s)"
  using assms by (simp add: sb_substr_def sb_chop_exact sb_consume_eq)

text \<open>The 32-bit sum in \<^verbatim>\<open>SBuf::chop()\<close> can wrap around, and then the requested length is not capped to the end
  of the buffer: the slice the function records reaches past the buffer.\<close>

lemma chop_length_not_capped:
  assumes "0 < pos" "pos \<le> len" "len \<le> maxSize" "n < npos" "4294967296 \<le> pos + n"
  shows "chop_len len (chop_pos len pos) n = n \<and> len < chop_pos len pos + chop_len len (chop_pos len pos) n"
proof -
  have "uadd32 pos n = pos + n - 4294967296"
    using assms unfolding uadd32_def by (subst mod_if) (auto simp: npos_def maxSize_def)
  then have "uadd32 pos n \<le> len" using assms by (simp add: npos_def)
  then show ?thesis using assms by (auto simp: chop_len_def chop_pos_def npos_def maxSize_def)
qed

end
