(* ===== verification/Tokenizer.thy ===== *)
theory Tokenizer
  imports SBuf_Value
begin

text \<open>
  \<^verbatim>\<open>src/parser/Tokenizer\<close>: the lexical processor all text parsers of the proxy are
  built on. A tokenizer is the yet unparsed bytes and the number of bytes parsed. A
  method of the C++ class is a function from a tokenizer to its result and the new
  tokenizer; \<^typ>\<open>bytes option\<close> stands for a boolean result with an output parameter
  that is assigned on success only; a method that throws returns \<^const>\<open>Inl\<close>, with
  the tokenizer as the exception leaves it.
\<close>

section \<open>The methods\<close>

record tokenizer =
  tok_buf :: bytes
  tok_parsed :: nat

definition tok_new :: "bytes \<Rightarrow> tokenizer" where
  "tok_new inBuf = \<lparr>tok_buf = inBuf, tok_parsed = 0\<rparr>"

definition tok_atEnd :: "tokenizer \<Rightarrow> bool" where
  "tok_atEnd t \<longleftrightarrow> tok_buf t = []"

definition tok_undoParse :: "tokenizer \<Rightarrow> bytes \<Rightarrow> nat \<Rightarrow> tokenizer" where
  "tok_undoParse t newBuf cParsed = t\<lparr>tok_buf := newBuf, tok_parsed := cParsed\<rparr>"

definition tok_reset :: "tokenizer \<Rightarrow> bytes \<Rightarrow> tokenizer" where
  "tok_reset t newBuf = tok_undoParse t newBuf 0"

definition tok_consume :: "tokenizer \<Rightarrow> nat \<Rightarrow> bytes \<times> tokenizer" where
  "tok_consume t n =
     (case sb_consume (tok_buf t) n of (result, rest) \<Rightarrow>
        (result, t\<lparr>tok_buf := rest, tok_parsed := uadd32 (tok_parsed t) (length result)\<rparr>))"

definition tok_success :: "tokenizer \<Rightarrow> nat \<Rightarrow> nat \<times> tokenizer" where
  "tok_success t n = (case tok_consume t n of (r, t') \<Rightarrow> (length r, t'))"

definition tok_consumeTrailing :: "tokenizer \<Rightarrow> nat \<Rightarrow> bytes \<times> tokenizer" where
  "tok_consumeTrailing t n =
     (let parsed = (if n = npos then length (tok_buf t) else n)
      in case sb_consume (tok_buf t) (usub32 (length (tok_buf t)) parsed) of (newBuf, result) \<Rightarrow>
        (result, t\<lparr>tok_buf := newBuf, tok_parsed := uadd32 (tok_parsed t) parsed\<rparr>))"

definition tok_successTrailing :: "tokenizer \<Rightarrow> nat \<Rightarrow> nat \<times> tokenizer" where
  "tok_successTrailing t n = (case tok_consumeTrailing t n of (r, t') \<Rightarrow> (length r, t'))"

definition tok_skipAll :: "tokenizer \<Rightarrow> charset \<Rightarrow> nat \<times> tokenizer" where
  "tok_skipAll t tokenChars =
     (let prefixLen = sb_findFirstNotOf (tok_buf t) tokenChars 0
      in if prefixLen = 0 then (0, t) else tok_success t prefixLen)"

definition tok_token :: "tokenizer \<Rightarrow> charset \<Rightarrow> bytes option \<times> tokenizer" where
  "tok_token saved delimiters =
     (let t1 = snd (tok_skipAll saved delimiters);
          tokenLen = sb_findFirstOf (tok_buf t1) delimiters 0
      in if tokenLen = npos then (None, saved)
         else case tok_consume t1 tokenLen of (returnedToken, t2) \<Rightarrow>
           (Some returnedToken, snd (tok_skipAll t2 delimiters)))"

definition tok_prefix :: "tokenizer \<Rightarrow> charset \<Rightarrow> nat \<Rightarrow> bytes option \<times> tokenizer" where
  "tok_prefix t tokenChars limit =
     (let prefixLen = sb_findFirstNotOf (sb_substr (tok_buf t) 0 limit) tokenChars 0
      in if prefixLen = 0 then (None, t)
         else if prefixLen = npos \<and> (tok_atEnd t \<or> limit = 0) then (None, t)
         else let prefixLen' = (if prefixLen = npos \<and> limit > 0 then limit else prefixLen)
              in case tok_consume t prefixLen' of (r, t') \<Rightarrow> (Some r, t'))"

definition tok_prefix_req ::
  "tokenizer \<Rightarrow> string \<Rightarrow> charset \<Rightarrow> nat \<Rightarrow> (exn + bytes) \<times> tokenizer" where
  "tok_prefix_req t description tokenChars limit =
     (if tok_atEnd t then (Inl InsufficientInput, t)
      else case tok_prefix t tokenChars limit of
        (None, t') \<Rightarrow> (Inl (TextException (''cannot parse '' @ description)), t')
      | (Some result, t') \<Rightarrow>
          if tok_atEnd t' then (Inl InsufficientInput, t') else (Inr result, t'))"

definition tok_suffix :: "tokenizer \<Rightarrow> charset \<Rightarrow> nat \<Rightarrow> bytes option \<times> tokenizer" where
  "tok_suffix t tokenChars limit =
     (let span = (if limit < length (tok_buf t)
                  then snd (sb_consume (tok_buf t) (length (tok_buf t) - limit))
                  else tok_buf t);
          found = length (takeWhile (cs_index tokenChars) (rev span))
      in if found = 0 then (None, t)
         else case tok_consumeTrailing t found of (r, t') \<Rightarrow> (Some r, t'))"

definition tok_skipOne :: "tokenizer \<Rightarrow> charset \<Rightarrow> bool \<times> tokenizer" where
  "tok_skipOne t chars =
     (if tok_buf t \<noteq> [] \<and> cs_index chars (hd (tok_buf t))
      then case tok_success t 1 of (n, t') \<Rightarrow> (n \<noteq> 0, t')
      else (False, t))"

definition tok_skip_char :: "tokenizer \<Rightarrow> char \<Rightarrow> bool \<times> tokenizer" where
  "tok_skip_char t tokenChar =
     (if tok_buf t \<noteq> [] \<and> hd (tok_buf t) = tokenChar
      then case tok_success t 1 of (n, t') \<Rightarrow> (n \<noteq> 0, t')
      else (False, t))"

definition tok_skip :: "tokenizer \<Rightarrow> bytes \<Rightarrow> bool \<times> tokenizer" where
  "tok_skip t tokenToSkip =
     (if sb_startsWith (tok_buf t) tokenToSkip True
      then case tok_success t (length tokenToSkip) of (n, t') \<Rightarrow> (n \<noteq> 0, t')
      else (False, t))"

definition tok_skipRequired :: "tokenizer \<Rightarrow> string \<Rightarrow> bytes \<Rightarrow> (exn + unit) \<times> tokenizer" where
  "tok_skipRequired t description tokenToSkip =
     (case tok_skip t tokenToSkip of (skipped, t') \<Rightarrow>
        if skipped \<or> tokenToSkip = [] then (Inr (), t')
        else if sb_startsWith tokenToSkip (tok_buf t') True then (Inl InsufficientInput, t')
        else (Inl (TextException (''cannot skip '' @ description)), t'))"

definition tok_skipSuffix :: "tokenizer \<Rightarrow> bytes \<Rightarrow> bool \<times> tokenizer" where
  "tok_skipSuffix t tokenToSkip =
     (if length (tok_buf t) < length tokenToSkip then (False, t)
      else let offset = (if length tokenToSkip < length (tok_buf t)
                         then length (tok_buf t) - length tokenToSkip else 0)
           in if sb_cmp (sb_substr (tok_buf t) offset npos) tokenToSkip = 0
              then case tok_successTrailing t (length tokenToSkip) of (n, t') \<Rightarrow> (n \<noteq> 0, t')
              else (False, t))"

definition tok_skipOneTrailing :: "tokenizer \<Rightarrow> charset \<Rightarrow> bool \<times> tokenizer" where
  "tok_skipOneTrailing t skippable =
     (if tok_buf t \<noteq> [] \<and> cs_index skippable (last (tok_buf t))
      then case tok_successTrailing t 1 of (n, t') \<Rightarrow> (n \<noteq> 0, t')
      else (False, t))"

definition tok_skipAllTrailing :: "tokenizer \<Rightarrow> charset \<Rightarrow> nat \<times> tokenizer" where
  "tok_skipAllTrailing t skippable =
     (let prefixEnd = sb_findLastNotOf (tok_buf t) skippable npos;
          prefixLen = (if prefixEnd = npos then 0 else prefixEnd + 1);
          suffixLen = length (tok_buf t) - prefixLen
      in if suffixLen = 0 then (0, t) else tok_successTrailing t suffixLen)"

section \<open>Integers\<close>

text \<open>
  \<^verbatim>\<open>int64()\<close> keeps its accumulator in an \<^verbatim>\<open>int64_t\<close>, here a \<^typ>\<open>64 word\<close>
  read with \<^const>\<open>sint\<close>; the overflow test compares the accumulator, cast to
  \<^verbatim>\<open>uint64_t\<close>, with the cut-off. The do-while loop over the remaining bytes returns
  the flag \<open>any\<close>, the accumulator and the bytes it went past.
\<close>

definition digit_value :: "char \<Rightarrow> nat option" where
  "digit_value c =
     (if xisdigit c then Some (of_char c - 48)
      else if xisalpha c then Some (of_char c - (if xisupper c then 55 else 87))
      else None)"

fun int64_loop ::
  "nat \<Rightarrow> nat \<Rightarrow> nat \<Rightarrow> bytes \<Rightarrow> int \<Rightarrow> 64 word \<Rightarrow> nat \<Rightarrow> int \<times> 64 word \<times> nat" where
  "int64_loop base cutoff cutlim [] any acc n = (any, acc, n)"
| "int64_loop base cutoff cutlim (ch # cs) any acc n =
     (case digit_value ch of
        None \<Rightarrow> (any, acc, n)
      | Some c \<Rightarrow>
          if c \<ge> base then (any, acc, n)
          else if any < 0 \<or> unat acc > cutoff \<or> (unat acc = cutoff \<and> c > cutlim)
          then int64_loop base cutoff cutlim cs (-1) acc (Suc n)
          else int64_loop base cutoff cutlim cs 1 (acc * of_nat base + of_nat c) (Suc n))"

text \<open>
  What precedes the loop: an optional sign, an optional \<^verbatim>\<open>0x\<close>, the guess of the
  base. The result is whether the number is negative, its base, and the offset of its
  first digit; \<^const>\<open>None\<close> where the source returns false.
\<close>

definition int64_setup :: "bytes \<Rightarrow> nat \<Rightarrow> bool \<Rightarrow> (bool \<times> nat \<times> nat) option" where
  "int64_setup rng base0 allowSign =
     (let neg = (allowSign \<and> rng ! 0 = CHR ''-'');
          s1 = (if allowSign \<and> (rng ! 0 = CHR ''-'' \<or> rng ! 0 = CHR ''+'') then 1 else 0)
      in if allowSign \<and> s1 \<ge> length rng then None
         else
           let hex = ((base0 = 0 \<or> base0 = 16) \<and> rng ! s1 = CHR ''0'' \<and> s1 + 1 < length rng \<and>
                      xtolower (rng ! (s1 + 1)) = CHR ''x'');
               s2 = (if hex then s1 + 2 else s1);
               base1 = (if hex then 16 else base0);
               base = (if base1 = 0 then (if rng ! s2 = CHR ''0'' then 8 else 10) else base1)
           in if s2 \<ge> length rng then None else Some (neg, base, s2))"

definition tok_int64 :: "tokenizer \<Rightarrow> nat \<Rightarrow> bool \<Rightarrow> nat \<Rightarrow> int option \<times> tokenizer" where
  "tok_int64 t base0 allowSign limit =
     (if tok_atEnd t \<or> limit = 0 then (None, t)
      else
        let rng = sb_substr (tok_buf t) 0 limit
        in case int64_setup rng base0 allowSign of
             None \<Rightarrow> (None, t)
           | Some (neg, base, s0) \<Rightarrow>
               let limit_value = (if neg then 9223372036854775808 else 9223372036854775807);
                   cutlim = limit_value mod base;
                   cutoff = limit_value div base
               in case int64_loop base cutoff cutlim (drop s0 rng) 0 0 s0 of (any, acc, s) \<Rightarrow>
                    if any = 0 then (None, t)
                    else if any < 0 then (None, t)
                    else case tok_success t s of (n, t') \<Rightarrow>
                      (if n \<noteq> 0 then Some (sint (if neg then - acc else acc)) else None, t'))"

definition tok_udec64 :: "tokenizer \<Rightarrow> string \<Rightarrow> nat \<Rightarrow> (exn + int) \<times> tokenizer" where
  "tok_udec64 t description limit =
     (if tok_atEnd t then (Inl InsufficientInput, t)
      else case tok_int64 t 10 False limit of
        (None, t') \<Rightarrow> (Inl (TextException (''cannot parse '' @ description)), t')
      | (Some result, t') \<Rightarrow>
          if tok_atEnd t' then (Inl InsufficientInput, t') else (Inr result, t'))"

section \<open>Closed forms\<close>

text \<open>
  The class invariant: the unparsed bytes and the count of parsed bytes fit a buffer.
  Under it every method is \<open>advance\<close> (drop bytes from the front) or \<open>retreat\<close>
  (drop bytes from the end) by a length that the input determines.
\<close>

definition tok_ok :: "tokenizer \<Rightarrow> bool" where
  "tok_ok t \<longleftrightarrow> tok_parsed t + length (tok_buf t) \<le> maxSize"

definition advance :: "tokenizer \<Rightarrow> nat \<Rightarrow> tokenizer" where
  "advance t n = t\<lparr>tok_buf := drop n (tok_buf t), tok_parsed := tok_parsed t + n\<rparr>"

definition retreat :: "tokenizer \<Rightarrow> nat \<Rightarrow> tokenizer" where
  "retreat t n = t\<lparr>tok_buf := take (length (tok_buf t) - n) (tok_buf t), tok_parsed := tok_parsed t + n\<rparr>"

named_theorems tok_simps \<open>closed forms of the tokenizer methods\<close>

text \<open>
  Progress of the skipping methods, for the termination of the loops that call them.
  These hold of every tokenizer, also one beyond the size limit.
\<close>

named_theorems tok_progress \<open>what the skipping methods do to the length of the buffer\<close>

lemma length_sb_chop_tail: "length (sb_chop s n npos) \<le> length s - n"
  by (auto simp: sb_chop_def chop_pos_def chop_len_def Let_def)

lemma tok_success_shorter:
  "length (tok_buf (snd (tok_success t n))) \<le> length (tok_buf t)"
  "0 < n \<Longrightarrow> tok_buf t \<noteq> [] \<Longrightarrow> length (tok_buf (snd (tok_success t n))) < length (tok_buf t)"
  using length_sb_chop_tail [of "tok_buf t" "if n = npos then length (tok_buf t) else min n (length (tok_buf t))"]
  by (cases "tok_buf t"; auto simp: tok_success_def tok_consume_def sb_consume_def Let_def npos_def
      split: if_splits)+

lemma tok_skipAll_shorter [tok_progress]:
  "length (tok_buf (snd (tok_skipAll t cs))) \<le> length (tok_buf t)"
  by (simp add: tok_skipAll_def Let_def tok_success_shorter)

lemma tok_skipAll_progress:
  assumes "tok_buf t \<noteq> []" "cs_index cs (hd (tok_buf t))"
  shows "length (tok_buf (snd (tok_skipAll t cs))) < length (tok_buf t)"
proof -
  have "sb_findFirstNotOf (tok_buf t) cs 0 \<noteq> 0"
    using assms by (cases "tok_buf t") (auto simp: sb_findFirstNotOf_0 npos_def)
  with assms show ?thesis by (simp add: tok_skipAll_def Let_def tok_success_shorter)
qed

lemma tok_skipOne_shorter [tok_progress]:
  "length (tok_buf (snd (tok_skipOne t cs))) \<le> length (tok_buf t)"
  by (simp add: tok_skipOne_def tok_success_shorter case_prod_beta)

lemma tok_skipOne_progress [tok_progress]:
  "fst (tok_skipOne t cs) \<Longrightarrow> length (tok_buf (snd (tok_skipOne t cs))) < length (tok_buf t)"
  by (simp add: tok_skipOne_def tok_success_shorter case_prod_beta split: if_splits)

lemma tok_prefix_shorter [tok_progress]:
  "length (tok_buf (snd (tok_prefix t cs limit))) \<le> length (tok_buf t)"
  using tok_success_shorter(1) [of t] by (simp add: tok_prefix_def tok_success_def Let_def case_prod_beta)

lemma tok_ok_sb_ok: "tok_ok t \<Longrightarrow> sb_ok (tok_buf t)"
  by (simp add: tok_ok_def sb_ok_def)

lemma tok_ok_new [simp]: "sb_ok s \<Longrightarrow> tok_ok (tok_new s)"
  by (simp add: tok_ok_def tok_new_def sb_ok_def)

lemma tok_buf_new [simp]: "tok_buf (tok_new s) = s"
  by (simp add: tok_new_def)

lemma tok_buf_reset [simp]: "tok_buf (tok_reset t s) = s"
  by (simp add: tok_reset_def tok_undoParse_def)

lemma tok_ok_reset [simp]: "sb_ok s \<Longrightarrow> tok_ok (tok_reset t s)"
  by (simp add: tok_ok_def sb_ok_def tok_reset_def tok_undoParse_def)

lemma tok_buf_advance [simp]: "tok_buf (advance t n) = drop n (tok_buf t)"
  by (simp add: advance_def)

lemma tok_buf_retreat [simp]: "tok_buf (retreat t n) = take (length (tok_buf t) - n) (tok_buf t)"
  by (simp add: retreat_def)

lemma tok_ok_advance [simp]: "tok_ok t \<Longrightarrow> n \<le> length (tok_buf t) \<Longrightarrow> tok_ok (advance t n)"
  by (simp add: tok_ok_def advance_def)

lemma tok_ok_retreat [simp]: "tok_ok t \<Longrightarrow> n \<le> length (tok_buf t) \<Longrightarrow> tok_ok (retreat t n)"
  by (simp add: tok_ok_def retreat_def)

lemma advance_0 [simp]: "advance t 0 = t"
  by (simp add: advance_def)

lemma retreat_0 [simp]: "retreat t 0 = t"
  by (simp add: retreat_def)

lemma advance_advance [simp]: "advance (advance t m) n = advance t (m + n)"
  by (simp add: advance_def add.commute add.left_commute)

lemma tok_consume_advance:
  assumes "tok_ok t" "n < 4294967296"
  shows "tok_consume t n = (take n (tok_buf t), advance t (min n (length (tok_buf t))))"
proof -
  let ?k = "min n (length (tok_buf t))"
  from assms have "tok_parsed t + ?k < 4294967296"
    by (auto simp: tok_ok_def maxSize_def min_def)
  moreover have "drop n (tok_buf t) = drop ?k (tok_buf t)" by (simp add: min_def)
  ultimately show ?thesis
    using assms by (simp add: tok_consume_def sb_consume_eq tok_ok_sb_ok uadd32_exact
        advance_def min.commute)
qed

lemma tok_consume_le:
  assumes "tok_ok t" "n \<le> length (tok_buf t)"
  shows "tok_consume t n = (take n (tok_buf t), advance t n)"
proof -
  from assms have "n < 4294967296" by (auto simp: tok_ok_def maxSize_def)
  with assms show ?thesis by (simp add: tok_consume_advance min_absorb1)
qed

lemma tok_success_le:
  "tok_ok t \<Longrightarrow> n \<le> length (tok_buf t) \<Longrightarrow> tok_success t n = (n, advance t n)"
  by (simp add: tok_success_def tok_consume_le)

lemma tok_consumeTrailing_le:
  assumes "tok_ok t" "n \<le> length (tok_buf t)"
  shows "tok_consumeTrailing t n =
           (drop (length (tok_buf t) - n) (tok_buf t), retreat t n)"
proof -
  have len: "length (tok_buf t) < 4294967296" and sum: "tok_parsed t + n < 4294967296"
    using assms by (auto simp: tok_ok_def maxSize_def)
  have "n \<noteq> npos" using assms by (auto simp: tok_ok_def maxSize_def npos_def)
  moreover have "usub32 (length (tok_buf t)) n = length (tok_buf t) - n"
    using assms(2) len by (simp add: usub32_exact)
  ultimately show ?thesis
    using assms len sum
    by (simp add: tok_consumeTrailing_def Let_def sb_consume_eq tok_ok_sb_ok uadd32_exact retreat_def)
qed

lemma tok_successTrailing_le:
  "tok_ok t \<Longrightarrow> n \<le> length (tok_buf t) \<Longrightarrow> tok_successTrailing t n = (n, retreat t n)"
  by (simp add: tok_successTrailing_def tok_consumeTrailing_le)

lemma tok_skipAll_eq [tok_simps]:
  assumes "tok_ok t"
  shows "tok_skipAll t cs =
           (length (takeWhile (cs_index cs) (tok_buf t)),
            advance t (length (takeWhile (cs_index cs) (tok_buf t))))"
proof (cases "\<forall>c\<in>set (tok_buf t). cs_index cs c")
  case True
  have "npos \<noteq> 0" "npos < 4294967296" by (simp_all add: npos_def)
  moreover have "min npos (length (tok_buf t)) = length (tok_buf t)"
    using sb_ok_length [OF tok_ok_sb_ok [OF assms]] by simp
  moreover have all: "takeWhile (cs_index cs) (tok_buf t) = tok_buf t"
    using True by (simp add: takeWhile_eq_all_conv)
  ultimately show ?thesis
    unfolding all using True assms sb_ok_length [OF tok_ok_sb_ok [OF assms]]
    by (simp add: tok_skipAll_def sb_findFirstNotOf_0 tok_success_def tok_consume_advance)
next
  case False
  let ?n = "length (takeWhile (cs_index cs) (tok_buf t))"
  have "tok_success t ?n = (?n, advance t ?n)"
    using assms by (simp add: tok_success_le length_takeWhile_le)
  with False show ?thesis
    by (simp only: tok_skipAll_def sb_findFirstNotOf_0 Let_def if_False) auto
qed

lemma takeWhile_take_neq_Nil: "takeWhile P (take n xs) \<noteq> [] \<Longrightarrow> xs \<noteq> []"
  by auto

lemma tok_prefix_eq [tok_simps]:
  assumes "tok_ok t" "limit < 4294967296"
  shows "tok_prefix t cs limit =
           (let p = takeWhile (cs_index cs) (take limit (tok_buf t))
            in if p = [] then (None, t) else (Some p, advance t (length p)))"
proof -
  let ?b = "take limit (tok_buf t)" and ?p = "takeWhile (cs_index cs) (take limit (tok_buf t))"
  have sub: "sb_substr (tok_buf t) 0 limit = ?b"
    using assms by (simp add: sb_substr_0 tok_ok_sb_ok)
  show ?thesis
  proof (cases "\<forall>c\<in>set ?b. cs_index cs c")
    case True
    then have p: "?p = ?b" by (simp add: takeWhile_eq_all_conv)
    have "npos \<noteq> 0" by (simp add: npos_def)
    with True assms show ?thesis unfolding p
      by (auto simp: tok_prefix_def Let_def sub sb_findFirstNotOf_0 tok_atEnd_def
          tok_consume_advance min.commute)
  next
    case False
    have le: "length ?p \<le> length (tok_buf t)"
      using length_takeWhile_le [of "cs_index cs" ?b] by simp
    moreover have "take (length ?p) (tok_buf t) = ?p"
      using takeWhile_eq_length_take [of "cs_index cs" ?b] length_takeWhile_le [of "cs_index cs" ?b]
      by (simp add: min_absorb1)
    moreover have "length ?p \<noteq> npos"
      using le sb_ok_length [OF tok_ok_sb_ok [OF assms(1)]] by simp
    moreover have "sb_findFirstNotOf ?b cs 0 = length ?p"
      using False by (simp only: sb_findFirstNotOf_0 if_False)
    ultimately show ?thesis
      using assms(1) by (simp add: tok_prefix_def Let_def sub tok_consume_le)
  qed
qed

lemma tok_prefix_npos [tok_simps]:
  assumes "tok_ok t"
  shows "tok_prefix t cs npos =
           (let p = takeWhile (cs_index cs) (tok_buf t)
            in if p = [] then (None, t) else (Some p, advance t (length p)))"
proof -
  have "take npos (tok_buf t) = tok_buf t"
    using sb_ok_length [OF tok_ok_sb_ok [OF assms]] by simp
  then show ?thesis using tok_prefix_eq [OF assms, of npos cs] by (simp add: npos_def)
qed

lemma tok_skipOne_eq [tok_simps]:
  assumes "tok_ok t"
  shows "tok_skipOne t cs =
           (if tok_buf t \<noteq> [] \<and> cs_index cs (hd (tok_buf t)) then (True, advance t 1) else (False, t))"
  using assms by (cases "tok_buf t") (simp_all add: tok_skipOne_def tok_success_le)

lemma tok_skip_char_eq [tok_simps]:
  assumes "tok_ok t"
  shows "tok_skip_char t c =
           (if tok_buf t \<noteq> [] \<and> hd (tok_buf t) = c then (True, advance t 1) else (False, t))"
  using assms by (cases "tok_buf t") (simp_all add: tok_skip_char_def tok_success_le)

lemma tok_skip_eq [tok_simps]:
  assumes "tok_ok t" "sb_ok s"
  shows "tok_skip t s =
           (if s \<noteq> [] \<and> take (length s) (tok_buf t) = s then (True, advance t (length s)) else (False, t))"
proof (cases "take (length s) (tok_buf t) = s")
  case True
  then have "length s \<le> length (tok_buf t)" by (metis length_take min.cobounded1 min.commute)
  with True assms show ?thesis
    by (simp add: tok_skip_def sb_startsWith_eq tok_ok_sb_ok tok_success_le)
next
  case False
  with assms show ?thesis by (simp add: tok_skip_def sb_startsWith_eq tok_ok_sb_ok)
qed

lemma tok_skipRequired_eq [tok_simps]:
  assumes "tok_ok t" "sb_ok s" "s \<noteq> []"
  shows "tok_skipRequired t d s =
           (if take (length s) (tok_buf t) = s then (Inr (), advance t (length s))
            else if take (length (tok_buf t)) s = tok_buf t then (Inl InsufficientInput, t)
            else (Inl (TextException (''cannot skip '' @ d)), t))"
  using assms by (simp add: tok_skipRequired_def tok_skip_eq sb_startsWith_eq tok_ok_sb_ok)

lemma tok_suffix_eq [tok_simps]:
  assumes "tok_ok t" "limit < 4294967296"
  shows "tok_suffix t cs limit =
           (let n = length (takeWhile (cs_index cs) (take limit (rev (tok_buf t))))
            in if n = 0 then (None, t)
               else (Some (drop (length (tok_buf t) - n) (tok_buf t)), retreat t n))"
proof -
  let ?b = "tok_buf t"
  have "length ?b < 4294967296" using assms by (auto simp: tok_ok_def maxSize_def)
  then have "snd (sb_consume ?b (length ?b - limit)) = drop (length ?b - limit) ?b"
    using assms by (simp add: sb_consume_eq tok_ok_sb_ok)
  then have span: "rev (if limit < length ?b then snd (sb_consume ?b (length ?b - limit)) else ?b) =
      take limit (rev ?b)"
    by (simp add: rev_drop)
  have "length (takeWhile (cs_index cs) (take limit (rev ?b))) \<le> length ?b"
    using length_takeWhile_le [of "cs_index cs" "take limit (rev ?b)"] by simp
  then show ?thesis
    using assms(1) unfolding tok_suffix_def Let_def span by (simp add: tok_consumeTrailing_le)
qed

lemma tok_skipOneTrailing_eq [tok_simps]:
  assumes "tok_ok t"
  shows "tok_skipOneTrailing t cs =
           (if tok_buf t \<noteq> [] \<and> cs_index cs (last (tok_buf t)) then (True, retreat t 1) else (False, t))"
  using assms by (cases "tok_buf t") (simp_all add: tok_skipOneTrailing_def tok_successTrailing_le)

lemma tok_skipSuffix_eq [tok_simps]:
  assumes "tok_ok t" "sb_ok s"
  shows "tok_skipSuffix t s =
           (if s \<noteq> [] \<and> length s \<le> length (tok_buf t) \<and> drop (length (tok_buf t) - length s) (tok_buf t) = s
            then (True, retreat t (length s)) else (False, t))"
proof (cases "length (tok_buf t) < length s")
  case True
  then show ?thesis by (auto simp: tok_skipSuffix_def)
next
  case False
  then have off: "(if length s < length (tok_buf t) then length (tok_buf t) - length s else 0) =
      length (tok_buf t) - length s" by simp
  show ?thesis
    using False assms unfolding tok_skipSuffix_def Let_def off
    by (simp add: sb_substr_tail tok_ok_sb_ok sb_cmp_eq_0 tok_successTrailing_le)
qed

lemma scan_back_dropWhile:
  "n \<le> length s \<Longrightarrow>
     (if scan_back (\<lambda>c. \<not> P c) s n = npos then 0 else scan_back (\<lambda>c. \<not> P c) s n + 1) =
       length (dropWhile P (rev (take n s))) \<or> npos < n"
proof (induction n)
  case 0
  then show ?case by simp
next
  case (Suc n)
  then have "rev (take (Suc n) s) = s ! n # rev (take n s)"
    by (simp add: take_Suc_conv_app_nth)
  with Suc show ?case by (auto simp: min_absorb2)
qed

lemma tok_skipAllTrailing_eq [tok_simps]:
  assumes "tok_ok t"
  shows "tok_skipAllTrailing t cs =
           (let n = length (takeWhile (cs_index cs) (rev (tok_buf t))) in (n, retreat t n))"
proof -
  let ?b = "tok_buf t"
  let ?n = "length (takeWhile (cs_index cs) (rev ?b))"
  have lt: "length ?b < npos" using sb_ok_length [OF tok_ok_sb_ok [OF assms]] .
  have "(if sb_findLastNotOf ?b cs npos = npos then 0 else sb_findLastNotOf ?b cs npos + 1) =
      length (dropWhile (cs_index cs) (rev ?b))"
  proof (cases "?b = []")
    case True
    then show ?thesis by (simp add: sb_findLastNotOf_def)
  next
    case False
    then have "Suc (length ?b - 1) = length ?b" by simp
    with False have "sb_findLastNotOf ?b cs npos = scan_back (\<lambda>c. \<not> cs_index cs c) ?b (length ?b)"
      by (simp add: sb_findLastNotOf_def Let_def del: scan_back.simps)
    then show ?thesis
      using scan_back_dropWhile [of "length ?b" ?b "cs_index cs"] lt
      by (metis le_refl less_asym take_all)
  qed
  moreover have "length ?b = ?n + length (dropWhile (cs_index cs) (rev ?b))"
    by (metis length_append length_rev takeWhile_dropWhile_id)
  ultimately have s: "length ?b - (if sb_findLastNotOf ?b cs npos = npos then 0
      else sb_findLastNotOf ?b cs npos + 1) = ?n" by simp
  have "?n \<le> length ?b" using length_takeWhile_le [of "cs_index cs" "rev ?b"] by simp
  then show ?thesis
    using assms unfolding tok_skipAllTrailing_def Let_def s
    by (auto simp: tok_successTrailing_le retreat_def)
qed

section \<open>The value of an integer\<close>

text \<open>
  The reference meaning of \<^const>\<open>tok_int64\<close>: the longest run of digits of the base,
  read most significant digit first, in unbounded arithmetic.
\<close>

definition is_digit_in :: "nat \<Rightarrow> char \<Rightarrow> bool" where
  "is_digit_in base c \<longleftrightarrow> (case digit_value c of None \<Rightarrow> False | Some d \<Rightarrow> d < base)"

definition digits_in :: "nat \<Rightarrow> bytes \<Rightarrow> bytes" where
  "digits_in base s = takeWhile (is_digit_in base) s"

definition number_of :: "nat \<Rightarrow> bytes \<Rightarrow> nat \<Rightarrow> nat" where
  "number_of base s v = foldl (\<lambda>a c. a * base + the (digit_value c)) v s"

lemma number_of_simps [simp]:
  "number_of base [] v = v"
  "number_of base (c # s) v = number_of base s (v * base + the (digit_value c))"
  by (simp_all add: number_of_def)

lemma number_of_mono: "0 < base \<Longrightarrow> v \<le> number_of base s v"
proof (induction s arbitrary: v)
  case Nil
  then show ?case by simp
next
  case (Cons c s)
  then have "v \<le> v * base + the (digit_value c)" by (simp add: trans_le_add1)
  also have "\<dots> \<le> number_of base s (v * base + the (digit_value c))" using Cons by blast
  finally show ?case by simp
qed

lemma is_digit_inE:
  assumes "is_digit_in base c"
  obtains d where "digit_value c = Some d" "d < base"
  using assms by (auto simp: is_digit_in_def split: option.splits)

lemma digits_in_simps [simp]:
  "digits_in base [] = []"
  "digits_in base (c # s) = (if is_digit_in base c then c # digits_in base s else [])"
  by (simp_all add: digits_in_def)

lemma int64_loop_stop:
  "\<not> is_digit_in base c \<Longrightarrow> int64_loop base cutoff cutlim (c # s) any acc n = (any, acc, n)"
  by (auto simp: is_digit_in_def split: option.splits)

lemma int64_loop_saturated:
  "int64_loop base cutoff cutlim s (-1) acc n = (-1, acc, n + length (digits_in base s))"
proof (induction s arbitrary: n)
  case Nil
  then show ?case by simp
next
  case (Cons c s)
  show ?case
  proof (cases "is_digit_in base c")
    case True
    then obtain d where "digit_value c = Some d" "d < base" by (rule is_digit_inE)
    with True Cons show ?thesis by simp
  next
    case False
    then show ?thesis by (simp add: int64_loop_stop del: int64_loop.simps)
  qed
qed

text \<open>The overflow test of the loop is exact: it detects that the next value exceeds the limit.\<close>

lemma cutoff_exact:
  fixes a b d L :: nat
  assumes "d < b"
  shows "(a > L div b \<or> (a = L div b \<and> d > L mod b)) \<longleftrightarrow> a * b + d > L"
proof -
  define q m where "q = L div b" and "m = L mod b"
  have L: "L = q * b + m" by (simp add: q_def m_def)
  have m: "m < b" using assms by (simp add: m_def)
  consider "a < q" | "a = q" | "a > q" by linarith
  then have "(a > q \<or> (a = q \<and> d > m)) \<longleftrightarrow> a * b + d > q * b + m"
  proof cases
    case 1
    then have "(a + 1) * b \<le> q * b" by (intro mult_le_mono1) simp
    then have "a * b + d < q * b" using assms by simp
    with 1 show ?thesis by simp
  next
    case 2
    then show ?thesis by simp
  next
    case 3
    then have "(q + 1) * b \<le> a * b" by (intro mult_le_mono1) simp
    then have "q * b + m < a * b + d" using m by simp
    with 3 show ?thesis by simp
  qed
  then show ?thesis by (simp only: q_def m_def L [symmetric, unfolded q_def m_def])
qed

lemma int64_loop_value:
  assumes "2 \<le> base" "L < 18446744073709551616" "unat acc \<le> L" "0 \<le> any"
  shows "fst (int64_loop base (L div base) (L mod base) s any acc n) =
           (if digits_in base s = [] then any
            else if number_of base (digits_in base s) (unat acc) \<le> L then 1 else -1) \<and>
         snd (snd (int64_loop base (L div base) (L mod base) s any acc n)) =
           n + length (digits_in base s) \<and>
         (number_of base (digits_in base s) (unat acc) \<le> L \<longrightarrow>
           unat (fst (snd (int64_loop base (L div base) (L mod base) s any acc n))) =
             number_of base (digits_in base s) (unat acc))"
  using assms(3,4)
proof (induction s arbitrary: any acc n)
  case Nil
  then show ?case by simp
next
  case (Cons c s)
  show ?case
  proof (cases "is_digit_in base c")
    case False
    then show ?thesis by (simp add: int64_loop_stop del: int64_loop.simps)
  next
    case True
    then obtain d where d: "digit_value c = Some d" "d < base" by (rule is_digit_inE)
    let ?v = "unat acc * base + d"
    show ?thesis
    proof (cases "?v > L")
      case over: True
      then have "unat acc > L div base \<or> (unat acc = L div base \<and> d > L mod base)"
        using cutoff_exact [OF d(2)] by blast
      then have step: "int64_loop base (L div base) (L mod base) (c # s) any acc n =
          (-1, acc, Suc n + length (digits_in base s))"
        using d by (auto simp: int64_loop_saturated)
      have "?v \<le> number_of base (digits_in base s) ?v" using assms(1) by (simp add: number_of_mono)
      then have "\<not> number_of base (digits_in base s) ?v \<le> L" using over by linarith
      with True d show ?thesis unfolding step by simp
    next
      case False
      then have "\<not> (unat acc > L div base \<or> (unat acc = L div base \<and> d > L mod base))"
        using cutoff_exact [OF d(2)] by blast
      then have step: "int64_loop base (L div base) (L mod base) (c # s) any acc n =
          int64_loop base (L div base) (L mod base) s 1 (acc * of_nat base + of_nat d) (Suc n)"
        using d Cons.prems by auto
      have "acc * of_nat base + of_nat d = of_nat ?v" by simp
      moreover have "?v < 2 ^ LENGTH(64)" using False assms(2) by simp
      ultimately have v: "unat (acc * of_nat base + of_nat d) = ?v"
        by (simp only: unat_of_nat mod_less)
      have "unat (acc * of_nat base + of_nat d) \<le> L" using False by (simp add: v)
      then show ?thesis
        using Cons.IH [of "acc * of_nat base + of_nat d" 1 "Suc n"] True d
        unfolding step v by simp
    qed
  qed
qed

text \<open>
  \<^const>\<open>tok_int64\<close> on an unsigned number of an explicit base: it reads exactly the
  longest run of digits, refuses a number above \<open>2 ^ 63 - 1\<close> and consumes nothing when
  it fails.
\<close>

definition int64_max :: nat where
  "int64_max = 9223372036854775807"

lemma int64_setup_unsigned:
  "2 \<le> base \<Longrightarrow> base \<noteq> 16 \<or> c \<noteq> CHR ''0'' \<or> cs = [] \<or> xtolower (hd cs) \<noteq> CHR ''x'' \<Longrightarrow>
     int64_setup (c # cs) base False = Some (False, base, 0)"
  by (cases cs) (auto simp: int64_setup_def)

lemma tok_int64_unsigned_step:
  assumes "sb_substr (tok_buf t) 0 limit = c # cs" "tok_buf t \<noteq> []" "limit \<noteq> 0" "2 \<le> base"
    and "base \<noteq> 16 \<or> c \<noteq> CHR ''0'' \<or> cs = [] \<or> xtolower (hd cs) \<noteq> CHR ''x''"
  shows "tok_int64 t base False limit =
      (case int64_loop base (int64_max div base) (int64_max mod base) (c # cs) 0 0 0 of
         (any, acc, s) \<Rightarrow>
           if any = 0 then (None, t) else if any < 0 then (None, t)
           else case tok_success t s of (n, t') \<Rightarrow> (if n \<noteq> 0 then Some (sint acc) else None, t'))"
  using assms(2,3)
  by (simp add: tok_int64_def assms(1) int64_setup_unsigned [OF assms(4,5)] tok_atEnd_def int64_max_def
      Let_def case_prod_beta del: int64_loop.simps)

lemma sint_small:
  assumes "unat (acc :: 64 word) \<le> int64_max"
  shows "sint acc = int (unat acc)"
proof -
  have u: "int (unat acc) = uint acc" by simp
  from assms have "int (unat acc) \<le> int int64_max" by (simp only: of_nat_le_iff)
  then have "uint acc < 9223372036854775808" unfolding u int64_max_def by simp
  then have "uint acc < 2 ^ 63" by simp
  moreover have "- (2 ^ 63) \<le> uint acc" by (rule order_trans [of _ 0]) simp_all
  ultimately have "signed_take_bit 63 (uint acc) = uint acc"
    by (simp only: signed_take_bit_int_eq_self)
  then have "sint acc = uint acc" by (simp add: sint_uint)
  then show ?thesis by (simp only: u)
qed

lemma tok_int64_unsigned:
  assumes "tok_ok t" "limit < 4294967296" "2 \<le> base"
    and no_prefix: "base \<noteq> 16 \<or> \<not> (\<exists>x r. tok_buf t = CHR ''0'' # x # r \<and> xtolower x = CHR ''x'')"
  shows "tok_int64 t base False limit =
           (let ds = digits_in base (take limit (tok_buf t)); v = number_of base ds 0
            in if ds = [] \<or> v > int64_max then (None, t) else (Some (int v), advance t (length ds)))"
proof (cases "tok_atEnd t \<or> limit = 0")
  case True
  then show ?thesis by (auto simp: tok_int64_def tok_atEnd_def)
next
  case False
  let ?ds = "digits_in base (take limit (tok_buf t))"
  from False obtain c b where b: "tok_buf t = c # b" by (cases "tok_buf t") (auto simp: tok_atEnd_def)
  from False obtain l where "limit = Suc l" by (cases limit) auto
  with b have r: "take limit (tok_buf t) = c # take l b" by simp
  have sub: "sb_substr (tok_buf t) 0 limit = c # take l b"
    using assms r by (simp add: sb_substr_0 tok_ok_sb_ok)
  have "base \<noteq> 16 \<or> c \<noteq> CHR ''0'' \<or> take l b = [] \<or> xtolower (hd (take l b)) \<noteq> CHR ''x''"
    using no_prefix b by (cases b; cases l) auto
  note step = tok_int64_unsigned_step [OF sub _ _ assms(3) this]
  obtain any acc k where l: "int64_loop base (int64_max div base) (int64_max mod base) (c # take l b) 0 0 0
      = (any, acc, k)" by (metis prod_cases3)
  have any: "any = (if ?ds = [] then 0 else if number_of base ?ds 0 \<le> int64_max then 1 else -1)"
    and k: "k = length ?ds"
    and acc: "number_of base ?ds 0 \<le> int64_max \<Longrightarrow> unat acc = number_of base ?ds 0"
    using int64_loop_value [of base int64_max 0 0 "c # take l b" 0] assms(3)
    unfolding l r by (simp_all add: int64_max_def)
  have "length ?ds \<le> length (tok_buf t)"
    using length_takeWhile_le [of "is_digit_in base" "take limit (tok_buf t)"]
    by (simp add: digits_in_def)
  then have "tok_success t k = (k, advance t k)" using assms(1) by (simp add: k tok_success_le)
  with step b False l any k acc show ?thesis
    by (auto simp: Let_def sint_small)
qed

section \<open>The contract of the methods\<close>

text \<open>
  \<^verbatim>\<open>Tokenizer.h\<close>: methods returning true consume bytes from the buffer, methods
  returning false have no side-effects. \<open>tok_took\<close> is "consumed a non-empty piece, at
  the front or at the end". The locale states the contract; the parsers rest on what
  follows from it, and every method is an instance.
\<close>

definition tok_took :: "tokenizer \<Rightarrow> tokenizer \<Rightarrow> bool" where
  "tok_took t t' \<longleftrightarrow>
     (\<exists>u. u \<noteq> [] \<and> (tok_buf t = u @ tok_buf t' \<or> tok_buf t = tok_buf t' @ u) \<and>
          tok_parsed t' = tok_parsed t + length u)"

definition kept_contract :: "tokenizer \<Rightarrow> bool \<Rightarrow> tokenizer \<Rightarrow> bool" where
  "kept_contract t success t' \<longleftrightarrow> (if success then tok_took t t' \<and> tok_ok t' else t' = t)"

locale token_method =
  fixes meth :: "tokenizer \<Rightarrow> 'r option \<times> tokenizer"
  assumes no_effect: "tok_ok t \<Longrightarrow> meth t = (None, t') \<Longrightarrow> t' = t"
    and takes: "tok_ok t \<Longrightarrow> meth t = (Some r, t') \<Longrightarrow> tok_took t t'"
begin

lemma shrinks: "tok_ok t \<Longrightarrow> meth t = (Some r, t') \<Longrightarrow> length (tok_buf t') < length (tok_buf t)"
  by (drule (1) takes) (auto simp: tok_took_def)

lemma conserves:
  assumes "tok_ok t"
  shows "tok_parsed (snd (meth t)) + length (tok_buf (snd (meth t))) = tok_parsed t + length (tok_buf t)"
proof (cases "meth t")
  case (Pair r t')
  then show ?thesis
    using assms no_effect [of t t'] takes [of t _ t'] by (cases r) (auto simp: tok_took_def)
qed

lemma keeps_ok: "tok_ok t \<Longrightarrow> tok_ok (snd (meth t))"
  using conserves [of t] by (simp add: tok_ok_def)

lemma contract: "tok_ok t \<Longrightarrow> kept_contract t (fst (meth t) \<noteq> None) (snd (meth t))"
  using no_effect [of t "snd (meth t)"] takes [of t "the (fst (meth t))" "snd (meth t)"] keeps_ok [of t]
  by (cases "meth t") (auto simp: kept_contract_def)

end

text \<open>Boolean and counting methods as methods with an optional result.\<close>

definition when_true :: "bool \<times> tokenizer \<Rightarrow> unit option \<times> tokenizer" where
  "when_true r = (if fst r then Some () else None, snd r)"

definition when_positive :: "nat \<times> tokenizer \<Rightarrow> nat option \<times> tokenizer" where
  "when_positive r = (if fst r \<noteq> 0 then Some (fst r) else None, snd r)"

lemma tok_took_advance: "0 < n \<Longrightarrow> n \<le> length (tok_buf t) \<Longrightarrow> tok_took t (advance t n)"
  unfolding tok_took_def
  by (intro exI [of _ "take n (tok_buf t)"]) (auto simp: advance_def min_absorb1)

lemma tok_took_retreat: "0 < n \<Longrightarrow> n \<le> length (tok_buf t) \<Longrightarrow> tok_took t (retreat t n)"
  unfolding tok_took_def
  by (intro exI [of _ "drop (length (tok_buf t) - n) (tok_buf t)"]) (auto simp: retreat_def)

lemma unat32_less: "unat (w :: 32 word) < 4294967296"
  using unsigned_less [of w] by simp

lemma length_takeWhile_take_le: "length (takeWhile P (take n xs)) \<le> length xs"
  using length_takeWhile_le [of P "take n xs"] by simp

interpretation prefix_method: token_method "\<lambda>t. tok_prefix t cs (unat (limit :: 32 word))" for cs limit
  by unfold_locales
    (auto simp: tok_prefix_eq unat32_less Let_def split: if_splits
      intro!: tok_took_advance length_takeWhile_take_le)

interpretation suffix_method: token_method "\<lambda>t. tok_suffix t cs (unat (limit :: 32 word))" for cs limit
proof unfold_locales
  fix t t' :: tokenizer and r
  assume "tok_ok t" "tok_suffix t cs (unat limit) = (Some r, t')"
  moreover have "length (takeWhile (cs_index cs) (take (unat limit) (rev (tok_buf t)))) \<le> length (tok_buf t)"
    using length_takeWhile_take_le [of "cs_index cs" "unat limit" "rev (tok_buf t)"] by simp
  ultimately show "tok_took t t'"
    by (auto simp: tok_suffix_eq unat32_less Let_def split: if_splits intro!: tok_took_retreat)
qed (auto simp: tok_suffix_eq unat32_less Let_def split: if_splits)

interpretation skipOne_method: token_method "\<lambda>t. when_true (tok_skipOne t cs)" for cs
  by unfold_locales
    (auto simp: tok_skipOne_eq when_true_def Suc_le_eq split: if_splits intro!: tok_took_advance)

interpretation skip_char_method: token_method "\<lambda>t. when_true (tok_skip_char t c)" for c
  by unfold_locales
    (auto simp: tok_skip_char_eq when_true_def Suc_le_eq split: if_splits intro!: tok_took_advance)

interpretation skipOneTrailing_method: token_method "\<lambda>t. when_true (tok_skipOneTrailing t cs)" for cs
  by unfold_locales
    (auto simp: tok_skipOneTrailing_eq when_true_def Suc_le_eq split: if_splits intro!: tok_took_retreat)

interpretation skipAll_method: token_method "\<lambda>t. when_positive (tok_skipAll t cs)" for cs
  by unfold_locales
    (auto simp: tok_skipAll_eq when_positive_def length_takeWhile_le split: if_splits
      intro!: tok_took_advance)

interpretation skipAllTrailing_method:
  token_method "\<lambda>t. when_positive (tok_skipAllTrailing t cs)" for cs
proof unfold_locales
  fix t t' :: tokenizer and r
  assume "tok_ok t" "when_positive (tok_skipAllTrailing t cs) = (Some r, t')"
  moreover have "length (takeWhile (cs_index cs) (rev (tok_buf t))) \<le> length (tok_buf t)"
    using length_takeWhile_le [of "cs_index cs" "rev (tok_buf t)"] by simp
  ultimately show "tok_took t t'"
    by (auto simp: tok_skipAllTrailing_eq when_positive_def Let_def split: if_splits
        intro!: tok_took_retreat)
qed (auto simp: tok_skipAllTrailing_eq when_positive_def Let_def split: if_splits)

text \<open>
  \<^verbatim>\<open>skip()\<close> and \<^verbatim>\<open>skipSuffix()\<close> take a buffer, which
  \<open>take maxSize s\<close> ranges over.
\<close>

lemma sb_ok_take_maxSize: "sb_ok (take maxSize s)"
  by (simp add: sb_ok_def)

lemma take_length_eq_imp_le: "take (length s) b = s \<Longrightarrow> length s \<le> length b"
  by (metis length_take min.cobounded1 min.commute)

interpretation skip_method: token_method "\<lambda>t. when_true (tok_skip t (take maxSize s))" for s
  by unfold_locales
    (auto simp: tok_skip_eq sb_ok_take_maxSize when_true_def split: if_splits
      simp del: length_take intro!: tok_took_advance take_length_eq_imp_le)

interpretation skipSuffix_method: token_method "\<lambda>t. when_true (tok_skipSuffix t (take maxSize s))" for s
  by unfold_locales
    (auto simp: tok_skipSuffix_eq sb_ok_take_maxSize when_true_def split: if_splits
      simp del: length_take intro!: tok_took_retreat)

lemma tok_token_eq:
  assumes "tok_ok t"
  shows "tok_token t cs =
     (let b = dropWhile (cs_index cs) (tok_buf t);
          w = takeWhile (\<lambda>c. \<not> cs_index cs c) b;
          d = takeWhile (cs_index cs) (dropWhile (\<lambda>c. \<not> cs_index cs c) b)
      in if \<forall>c\<in>set b. \<not> cs_index cs c then (None, t)
         else (Some w, advance t (length (takeWhile (cs_index cs) (tok_buf t)) + length w + length d)))"
proof -
  define k where "k = length (takeWhile (cs_index cs) (tok_buf t))"
  define b where "b = dropWhile (cs_index cs) (tok_buf t)"
  define w where "w = takeWhile (\<lambda>c. \<not> cs_index cs c) b"
  define t1 where "t1 = advance t k"
  define t2 where "t2 = advance t1 (length w)"
  have ok1: "tok_ok t1" using assms by (simp add: t1_def k_def length_takeWhile_le)
  have b1: "tok_buf t1 = b" by (simp add: t1_def k_def b_def drop_length_takeWhile)
  have le: "length w \<le> length (tok_buf t1)" by (simp add: b1 w_def length_takeWhile_le)
  have cons: "tok_consume t1 (length w) = (w, t2)"
    using tok_consume_le [OF ok1 le] by (simp add: t2_def b1 w_def takeWhile_eq_length_take)
  have ok2: "tok_ok t2" unfolding t2_def using ok1 le by (rule tok_ok_advance)
  have b2: "tok_buf t2 = dropWhile (\<lambda>c. \<not> cs_index cs c) b"
    by (simp add: t2_def b1 w_def drop_length_takeWhile)
  have "length w \<noteq> npos" using sb_ok_length [OF tok_ok_sb_ok [OF ok1]] le by linarith
  moreover have "sb_findFirstOf (tok_buf t1) cs 0 =
      (if \<forall>c\<in>set b. \<not> cs_index cs c then npos else length w)"
    unfolding b1 w_def by (rule sb_findFirstOf_0)
  moreover have "snd (tok_skipAll t cs) = t1" using assms by (simp add: tok_skipAll_eq t1_def k_def)
  moreover have "snd (tok_skipAll t2 cs) =
      advance t (k + length w + length (takeWhile (cs_index cs) (dropWhile (\<lambda>c. \<not> cs_index cs c) b)))"
    using tok_skipAll_eq [OF ok2] unfolding b2 by (simp add: t1_def t2_def add.assoc)
  ultimately show ?thesis
    unfolding tok_token_def Let_def b_def [symmetric] k_def [symmetric] w_def [symmetric]
    by (simp add: cons)
qed

lemma takeWhile_dropWhile_lengths:
  "length (takeWhile P xs) + length (takeWhile Q (dropWhile P xs)) +
     length (takeWhile R (dropWhile Q (dropWhile P xs))) \<le> length xs"
  by (metis (no_types) add.assoc add_le_mono1 length_append length_takeWhile_le nat_add_left_cancel_le
      takeWhile_dropWhile_id)

interpretation token_token_method: token_method "\<lambda>t. tok_token t cs" for cs
proof unfold_locales
  fix t t' :: tokenizer and r
  let ?b = "dropWhile (cs_index cs) (tok_buf t)"
  assume ok: "tok_ok t" and res: "tok_token t cs = (Some r, t')"
  then have ex: "\<exists>c\<in>set ?b. cs_index cs c"
    by (auto simp: tok_token_eq Let_def split: if_splits)
  then have "?b \<noteq> []" by (metis empty_iff empty_set)
  then have "\<not> cs_index cs (hd ?b)" by (rule hd_dropWhile)
  with \<open>?b \<noteq> []\<close> have "takeWhile (\<lambda>c. \<not> cs_index cs c) ?b \<noteq> []"
    by (simp add: takeWhile_eq_Nil_iff')
  then show "tok_took t t'"
    using ok res ex takeWhile_dropWhile_lengths
      [of "cs_index cs" "tok_buf t" "\<lambda>c. \<not> cs_index cs c" "cs_index cs"]
    by (auto simp: tok_token_eq Let_def split: if_splits intro!: tok_took_advance)
qed (auto simp: tok_token_eq Let_def split: if_splits)

lemma int64_loop_count:
  "int64_loop base cutoff cutlim s any acc n = (any', acc', k) \<Longrightarrow>
     n \<le> k \<and> k \<le> n + length s \<and> (any' = any \<or> n < k)"
proof (induction s arbitrary: any acc n)
  case Nil
  then show ?case by simp
next
  case (Cons c s)
  then show ?case by (fastforce split: option.splits if_splits)
qed

lemma int64_setup_offset: "int64_setup rng base sign = Some (neg, b, s) \<Longrightarrow> s < length rng"
  by (auto simp: int64_setup_def Let_def split: if_splits)

lemma tok_int64_cases:
  assumes "tok_int64 t base sign limit = (r, t')"
  obtains "r = None" "t' = t"
  | k where "0 < k" "k \<le> length (sb_substr (tok_buf t) 0 limit)"
      "t' = snd (tok_success t k)" "r \<noteq> None \<longleftrightarrow> fst (tok_success t k) \<noteq> 0"
proof (cases "tok_atEnd t \<or> limit = 0 \<or> int64_setup (sb_substr (tok_buf t) 0 limit) base sign = None")
  case True
  then show ?thesis using assms that(1) by (auto simp: tok_int64_def split: if_splits)
next
  case False
  define rng where "rng = sb_substr (tok_buf t) 0 limit"
  from False obtain neg b s where prep: "int64_setup rng base sign = Some (neg, b, s)"
    by (auto simp: rng_def)
  define L :: nat where "L = (if neg then 9223372036854775808 else 9223372036854775807)"
  obtain any acc k where loop: "int64_loop b (L div b) (L mod b) (drop s rng) 0 0 s = (any, acc, k)"
    by (metis prod_cases3)
  have res: "(r, t') = (if any = 0 then (None, t) else if any < 0 then (None, t)
      else (if fst (tok_success t k) \<noteq> 0 then Some (sint (if neg then - acc else acc)) else None,
            snd (tok_success t k)))"
    using False assms prep loop
    by (cases "tok_success t k"; cases neg)
      (auto simp: tok_int64_def Let_def L_def rng_def [symmetric] simp del: int64_loop.simps
        split: if_splits)
  show ?thesis
  proof (cases "any \<le> 0")
    case True
    then have "r = None \<and> t' = t" using res by (auto split: if_splits)
    then show ?thesis using that(1) by blast
  next
    case pos: False
    have "s < length rng" using prep by (rule int64_setup_offset)
    then have k: "0 < k" "k \<le> length rng" using int64_loop_count [OF loop] pos by auto
    have "t' = snd (tok_success t k)" "r \<noteq> None \<longleftrightarrow> fst (tok_success t k) \<noteq> 0"
      using res pos by (auto split: if_splits)
    then show ?thesis using that(2) k unfolding rng_def by blast
  qed
qed

interpretation int64_method: token_method "\<lambda>t. tok_int64 t base sign (unat (limit :: 32 word))"
  for base sign limit
proof unfold_locales
  fix t t' :: tokenizer
  assume ok: "tok_ok t" and res: "tok_int64 t base sign (unat limit) = (None, t')"
  have len: "length (sb_substr (tok_buf t) 0 (unat limit)) \<le> length (tok_buf t)"
    using ok by (simp add: sb_substr_0 tok_ok_sb_ok unat32_less)
  show "t' = t"
    using res by (rule tok_int64_cases) (use ok len in \<open>auto simp: tok_success_le\<close>)
next
  fix t t' :: tokenizer and r
  assume ok: "tok_ok t" and res: "tok_int64 t base sign (unat limit) = (Some r, t')"
  have len: "length (sb_substr (tok_buf t) 0 (unat limit)) \<le> length (tok_buf t)"
    using ok by (simp add: sb_substr_0 tok_ok_sb_ok unat32_less)
  show "tok_took t t'"
    using res by (rule tok_int64_cases) (use ok len in \<open>auto simp: tok_success_le intro!: tok_took_advance\<close>)
qed

section \<open>Correctness of the tokenizer\<close>

text \<open>C31. The contract of \<^verbatim>\<open>Tokenizer.h\<close>, for each extracting method, limit and character set: a call
  that reports failure has no effect at all, and a call that succeeds removes a non-empty piece from one end
  of the buffer and adds its length to the parsed count.\<close>

theorem tokenizer_contract:
  assumes "tok_ok t" "sb_ok s"
  shows "kept_contract t (fst (tok_prefix t cs (unat (limit :: 32 word))) \<noteq> None) (snd (tok_prefix t cs (unat limit))) \<and>
    kept_contract t (fst (tok_suffix t cs (unat limit)) \<noteq> None) (snd (tok_suffix t cs (unat limit))) \<and>
    kept_contract t (fst (tok_token t cs) \<noteq> None) (snd (tok_token t cs)) \<and>
    kept_contract t (fst (tok_int64 t base sign (unat limit)) \<noteq> None) (snd (tok_int64 t base sign (unat limit))) \<and>
    kept_contract t (fst (tok_skipAll t cs) \<noteq> 0) (snd (tok_skipAll t cs)) \<and>
    kept_contract t (fst (tok_skipAllTrailing t cs) \<noteq> 0) (snd (tok_skipAllTrailing t cs)) \<and>
    kept_contract t (fst (tok_skipOne t cs)) (snd (tok_skipOne t cs)) \<and>
    kept_contract t (fst (tok_skipOneTrailing t cs)) (snd (tok_skipOneTrailing t cs)) \<and>
    kept_contract t (fst (tok_skip_char t c)) (snd (tok_skip_char t c)) \<and>
    kept_contract t (fst (tok_skip t s)) (snd (tok_skip t s)) \<and>
    kept_contract t (fst (tok_skipSuffix t s)) (snd (tok_skipSuffix t s))"
proof -
  have s: "take maxSize s = s" using assms(2) by (simp add: sb_ok_def)
  show ?thesis
    using prefix_method.contract [OF assms(1), of cs limit] suffix_method.contract [OF assms(1), of cs limit]
      token_token_method.contract [OF assms(1), of cs] int64_method.contract [OF assms(1), of base sign limit]
      skipAll_method.contract [OF assms(1), of cs] skipAllTrailing_method.contract [OF assms(1), of cs]
      skipOne_method.contract [OF assms(1), of cs] skipOneTrailing_method.contract [OF assms(1), of cs]
      skip_char_method.contract [OF assms(1), of c]
      skip_method.contract [OF assms(1), of s] skipSuffix_method.contract [OF assms(1), of s]
    by (simp add: s when_true_def when_positive_def split: if_splits)
qed

theorem tokenizer_contract_witness:
  "kept_contract (tok_new ''ab '') True (snd (tok_token (tok_new ''ab '') cs_SP))"
proof -
  have "fst (tok_token (tok_new ''ab '') cs_SP) = Some ''ab''"
    by (simp add: tok_token_eq charset_simps sb_ok_def maxSize_def)
  then show ?thesis
    using tokenizer_contract [of "tok_new ''ab ''" "[]" cs_SP] by (simp add: sb_ok_def maxSize_def)
qed

text \<open>C32. \<^verbatim>\<open>int64()\<close> without a sign reads numbers exactly: in every base from 2 on it converts
  the longest run of digits within the limit, consumes just that run, and fails without effect when there
  is no digit or when the value exceeds the largest 64-bit signed integer; the cut-off test detects every
  overflow before it happens. Base 16 is without a 0x prefix here.\<close>

theorem int64_exact:
  assumes "tok_ok t" "limit < 4294967296" "2 \<le> base"
    and "base \<noteq> 16 \<or> \<not> (\<exists>x r. tok_buf t = CHR ''0'' # x # r \<and> xtolower x = CHR ''x'')"
  shows "tok_int64 t base False limit =
           (let ds = digits_in base (take limit (tok_buf t)); v = number_of base ds 0
            in if ds = [] \<or> v > int64_max then (None, t) else (Some (int v), advance t (length ds)))"
  by (rule tok_int64_unsigned [OF assms])

theorem int64_exact_witness:
  "tok_int64 (tok_new ''1f;x'') 16 False npos = (Some 31, advance (tok_new ''1f;x'') 2) \<and>
   tok_int64 (tok_new ''9223372036854775808'') 10 False npos = (None, tok_new ''9223372036854775808'')"
  using int64_exact [of "tok_new ''1f;x''" npos 16] int64_exact [of "tok_new ''9223372036854775808''" npos 10]
  by (simp add: sb_ok_def maxSize_def npos_def digits_in_def is_digit_in_def digit_value_def ctype_defs int64_max_def
      numeral_2_eq_2)

end
