(* ===== verification/Mime_Header.thy ===== *)
theory Mime_Header
  imports SBuf_Value
begin

text \<open>
  The header-block scanner \<^verbatim>\<open>headersEnd()\<close> of \<^verbatim>\<open>src/mime_header.cc\<close>:
  a four-state machine that finds the end of the first empty line of a
  buffer and reports obsolete line folding on the way.  The lemmas relate the
  machine to a direct description of where a blank line ends and show that
  the scan is incremental: bytes received after the end of the block never
  change the answer.
\<close>

section \<open>The scanner\<close>

definition headersEnd_step :: "nat \<Rightarrow> bool \<Rightarrow> char \<Rightarrow> nat \<times> bool" where
  "headersEnd_step state obsFold c =
     (if state = 0 then (if c = LF then 1 else state, obsFold)
      else if state = 1 then
        (if c = CR then (2, obsFold)
         else if c = LF then (3, obsFold)
         else if c = SP \<or> c = HTAB then (0, True)
         else (0, obsFold))
      else if state = 2 then (if c = LF then 3 else 0, obsFold)
      else (state, obsFold))"

fun headersEnd_loop :: "bytes \<Rightarrow> nat \<Rightarrow> nat \<Rightarrow> bool \<Rightarrow> nat \<times> nat \<times> bool" where
  "headersEnd_loop [] e state obsFold = (e, state, obsFold)"
| "headersEnd_loop (c # cs) e state obsFold =
     (if state < 3
      then (case headersEnd_step state obsFold c of
              (state', obsFold') \<Rightarrow> headersEnd_loop cs (e + 1) state' obsFold')
      else (e, state, obsFold))"

definition headersEnd :: "bytes \<Rightarrow> nat \<times> bool" where
  "headersEnd mime =
     (case headersEnd_loop mime 0 1 False of
        (e, state, obsFold) \<Rightarrow> (if state = 3 then e else 0, obsFold))"

section \<open>What the scanner finds\<close>

definition line_start :: "bytes \<Rightarrow> nat \<Rightarrow> bool" where
  "line_start s i = (i \<le> length s \<and> (i = 0 \<or> s ! (i - 1) = LF))"

text \<open>A blank line starts at some line start and ends just before offset \<open>e\<close>.\<close>

definition blank_line_end :: "bytes \<Rightarrow> nat \<Rightarrow> bool" where
  "blank_line_end s e =
     (e \<le> length s \<and>
      (1 \<le> e \<and> line_start s (e - 1) \<and> s ! (e - 1) = LF \<or>
       2 \<le> e \<and> line_start s (e - 2) \<and> s ! (e - 2) = CR \<and> s ! (e - 1) = LF))"

text \<open>The state the machine is in after reading the first \<open>k\<close> bytes without having stopped.\<close>

definition scan_state :: "bytes \<Rightarrow> nat \<Rightarrow> nat" where
  "scan_state s k =
     (if line_start s k then 1
      else if 1 \<le> k \<and> line_start s (k - 1) \<and> s ! (k - 1) = CR then 2
      else 0)"

definition folded_before :: "bytes \<Rightarrow> nat \<Rightarrow> bool" where
  "folded_before s k \<longleftrightarrow> (\<exists>i<k. line_start s i \<and> (s ! i = SP \<or> s ! i = HTAB))"

lemma folded_before_Suc:
  "folded_before s (Suc k) \<longleftrightarrow> folded_before s k \<or> line_start s k \<and> (s ! k = SP \<or> s ! k = HTAB)"
  by (auto simp: folded_before_def less_Suc_eq)

lemma scan_step:
  assumes "k < length s"
  shows "headersEnd_step (scan_state s k) (folded_before s k) (s ! k) =
      (if blank_line_end s (Suc k) then 3 else scan_state s (Suc k), folded_before s (Suc k))"
  using assms
  by (auto simp: headersEnd_step_def scan_state_def blank_line_end_def line_start_def
      folded_before_Suc numeral_2_eq_2)

lemma headersEnd_loop_spec:
  assumes "k \<le> length s" and "headersEnd_loop (drop k s) k (scan_state s k) (folded_before s k) = (e, st, obs)"
  shows "(st = 3 \<and> k < e \<and> blank_line_end s e \<and> (\<forall>j. k < j \<and> j < e \<longrightarrow> \<not> blank_line_end s j)
        \<or> st < 3 \<and> (\<forall>j. k < j \<longrightarrow> \<not> blank_line_end s j) \<and> e = length s) \<and> obs = folded_before s e"
  using assms
proof (induction "length s - k" arbitrary: k)
  case 0
  then show ?case by (auto simp: blank_line_end_def scan_state_def)
next
  case (Suc n)
  then have k: "k < length s" by simp
  have low: "scan_state s k < 3" by (simp add: scan_state_def)
  have d: "drop k s = s ! k # drop (Suc k) s" using k by (simp add: Cons_nth_drop_Suc)
  show ?case
  proof (cases "blank_line_end s (Suc k)")
    case True
    then have "headersEnd_loop (drop k s) k (scan_state s k) (folded_before s k) =
        (Suc k, 3, folded_before s (Suc k))"
      using k low by (cases "drop (Suc k) s") (simp_all add: d scan_step)
    with Suc.prems True show ?thesis by auto
  next
    case False
    then have "headersEnd_loop (drop (Suc k) s) (Suc k) (scan_state s (Suc k)) (folded_before s (Suc k)) = (e, st, obs)"
      using Suc.prems low k by (simp add: d scan_step)
    from Suc.hyps(1)[OF _ _ this] Suc.hyps(2) k False show ?thesis
      by (metis Suc_lessI Suc_lessD Suc_leI Suc_diff_Suc diff_Suc_1)
  qed
qed

lemma headersEnd_spec:
  assumes "headersEnd s = (r, obs)"
  shows "(if r = 0 then (\<forall>e. \<not> blank_line_end s e)
          else blank_line_end s r \<and> (\<forall>e<r. \<not> blank_line_end s e) \<and> obs = folded_before s r)"
proof -
  obtain e st obs' where run: "headersEnd_loop s 0 1 False = (e, st, obs')"
    by (cases "headersEnd_loop s 0 1 False") auto
  have not0: "\<not> blank_line_end s 0" by (simp add: blank_line_end_def)
  have "scan_state s 0 = 1" "folded_before s 0 = False"
    by (simp_all add: scan_state_def line_start_def folded_before_def)
  with run headersEnd_loop_spec[of 0 s e st obs'] have spec:
    "(st = 3 \<and> 0 < e \<and> blank_line_end s e \<and> (\<forall>j. 0 < j \<and> j < e \<longrightarrow> \<not> blank_line_end s j)
      \<or> st < 3 \<and> (\<forall>j. 0 < j \<longrightarrow> \<not> blank_line_end s j) \<and> e = length s) \<and> obs' = folded_before s e"
    by simp
  show ?thesis
  proof (cases "st = 3")
    case True
    with assms run have "r = e" "obs = obs'" by (simp_all add: headersEnd_def)
    with spec True not0 show ?thesis by (metis bot_nat_0.not_eq_extremum less_irrefl)
  next
    case False
    with assms run have "r = 0" by (simp add: headersEnd_def)
    with spec False not0 show ?thesis by (metis bot_nat_0.not_eq_extremum)
  qed
qed

lemma headersEnd_le: "fst (headersEnd s) \<le> length s"
  using headersEnd_spec[of s "fst (headersEnd s)" "snd (headersEnd s)"]
  by (auto simp: blank_line_end_def split: if_splits)

section \<open>Incremental scanning\<close>

lemma headersEnd_loop_append:
  "headersEnd_loop s e st obs = (e', 3, obs') \<Longrightarrow> headersEnd_loop (s @ t) e st obs = (e', 3, obs')"
proof (induction s arbitrary: e st obs)
  case Nil
  then show ?case by (cases t) auto
qed (auto split: prod.splits if_splits)

lemma headersEnd_append:
  assumes "headersEnd s = (r, obs)" "0 < r"
  shows "headersEnd (s @ t) = (r, obs)"
proof -
  obtain e st obs' where run: "headersEnd_loop s 0 1 False = (e, st, obs')"
    by (cases "headersEnd_loop s 0 1 False") auto
  with assms have "st = 3" by (auto simp: headersEnd_def split: if_splits)
  with run headersEnd_loop_append[of s 0 1 False e obs' t] assms show ?thesis
    by (simp add: headersEnd_def)
qed

section \<open>Correctness of the block terminator search\<close>

text \<open>C27. \<^verbatim>\<open>headersEnd()\<close> finds the end of the first empty line and nothing else: it
  returns 0 exactly when no line ended by LF or CR LF is empty; otherwise the offset after the
  first such line, and its flag tells whether a line before that offset starts with whitespace.\<close>

theorem headersEnd_first_blank_line:
  "case headersEnd s of (r, obs) \<Rightarrow>
     if r = 0 then (\<forall>e. \<not> blank_line_end s e)
     else blank_line_end s r \<and> (\<forall>e. blank_line_end s e \<longrightarrow> r \<le> e) \<and> obs = folded_before s r"
  using headersEnd_spec [OF surjective_pairing, of s] by (auto split: prod.splits if_splits simp: not_less [symmetric])

theorem headersEnd_first_blank_line_witness:
  "blank_line_end (''A: b'' @ [CR, LF, CR, LF] @ ''x'') 8"
proof -
  have "headersEnd (''A: b'' @ [CR, LF, CR, LF] @ ''x'') = (8, False)" by code_simp
  then show ?thesis using headersEnd_first_blank_line [of "''A: b'' @ [CR, LF, CR, LF] @ ''x''"] by simp
qed

end
