(* ===== verification/Request_Method.thy ===== *)
theory Request_Method
  imports SBuf_Value
begin

text \<open>
  HTTP request methods: \<^verbatim>\<open>src/http/MethodType.h\<close> and
  \<^verbatim>\<open>src/http/RequestMethod.cc\<close>, together with the parser configuration of
  \<^verbatim>\<open>src/SquidConfig.h\<close> that method recognition consults.

  The table \<^verbatim>\<open>Http::MethodType_sb\<close> of method images is generated during the build,
  so it is a field of the configuration record and not a definition.
\<close>

section \<open>Configuration\<close>

datatype method_type =
    METHOD_NONE
  | METHOD_GET | METHOD_POST | METHOD_PUT | METHOD_HEAD | METHOD_CONNECT | METHOD_TRACE
  | METHOD_OPTIONS | METHOD_DELETE
  | METHOD_LINK | METHOD_UNLINK
  | METHOD_CHECKOUT | METHOD_CHECKIN | METHOD_UNCHECKOUT | METHOD_MKWORKSPACE
  | METHOD_VERSION_CONTROL | METHOD_REPORT | METHOD_UPDATE | METHOD_LABEL | METHOD_MERGE
  | METHOD_BASELINE_CONTROL | METHOD_MKACTIVITY
  | METHOD_PROPFIND | METHOD_PROPPATCH | METHOD_MKCOL | METHOD_COPY | METHOD_MOVE
  | METHOD_LOCK | METHOD_UNLOCK
  | METHOD_SEARCH
  | METHOD_PRI
  | METHOD_PURGE | METHOD_OTHER

record http_config =
  relaxed_header_parser :: int
  maxRequestHeaderSize :: nat
  maxReplyHeaderSize :: nat
  use_http_violations :: bool
  MethodType_sb :: "method_type \<Rightarrow> bytes"

abbreviation relaxed :: "http_config \<Rightarrow> bool" where
  "relaxed cfg \<equiv> relaxed_header_parser cfg \<noteq> 0"

section \<open>Request methods\<close>

record request_method =
  theMethod :: method_type
  theImage :: bytes

definition no_method :: request_method where
  "no_method = \<lparr>theMethod = METHOD_NONE, theImage = []\<rparr>"

definition method_image :: "http_config \<Rightarrow> request_method \<Rightarrow> bytes" where
  "method_image cfg m =
     (if METHOD_OTHER \<noteq> theMethod m then MethodType_sb cfg (theMethod m)
      else if theImage m \<noteq> [] then theImage m
      else ''METHOD_OTHER'')"

text \<open>The values \<^verbatim>\<open>++theMethod\<close> visits, from \<^verbatim>\<open>METHOD_NONE + 1\<close> up to \<^verbatim>\<open>METHOD_ENUM_END\<close>.\<close>

definition methods_after_none :: "method_type list" where
  "methods_after_none =
     [METHOD_GET, METHOD_POST, METHOD_PUT, METHOD_HEAD, METHOD_CONNECT, METHOD_TRACE,
      METHOD_OPTIONS, METHOD_DELETE,
      METHOD_LINK, METHOD_UNLINK,
      METHOD_CHECKOUT, METHOD_CHECKIN, METHOD_UNCHECKOUT, METHOD_MKWORKSPACE,
      METHOD_VERSION_CONTROL, METHOD_REPORT, METHOD_UPDATE, METHOD_LABEL, METHOD_MERGE,
      METHOD_BASELINE_CONTROL, METHOD_MKACTIVITY,
      METHOD_PROPFIND, METHOD_PROPPATCH, METHOD_MKCOL, METHOD_COPY, METHOD_MOVE,
      METHOD_LOCK, METHOD_UNLOCK,
      METHOD_SEARCH,
      METHOD_PRI,
      METHOD_PURGE, METHOD_OTHER]"

fun method_search :: "http_config \<Rightarrow> bytes \<Rightarrow> method_type list \<Rightarrow> request_method" where
  "method_search cfg s [] = \<lparr>theMethod = METHOD_OTHER, theImage = s\<rparr>"
| "method_search cfg s (m # ms) =
     (let this = \<lparr>theMethod = m, theImage = []\<rparr>
      in if 0 = sb_caseCmp (method_image cfg this) s \<and>
            (relaxed cfg \<or> 0 = sb_cmp (method_image cfg this) s)
         then this
         else method_search cfg s ms)"

definition method_of_sbuf :: "http_config \<Rightarrow> bytes \<Rightarrow> request_method" where
  "method_of_sbuf cfg s =
     (if s = [] then no_method else method_search cfg s methods_after_none)"

text \<open>
  \<^verbatim>\<open>HttpRequestMethodXXX()\<close>: the argument is a null pointer or a C string, of which
  the bytes before the first \<^verbatim>\<open>w_space\<close> character are the method.
\<close>

definition w_space :: "char \<Rightarrow> bool" where
  "w_space c = (c = CHR '' '' \<or> c = CHR 0x09 \<or> c = CHR 0x0A \<or> c = CHR 0x0D)"

fun method_search_cstr :: "http_config \<Rightarrow> bytes \<Rightarrow> nat \<Rightarrow> method_type list \<Rightarrow> request_method" where
  "method_search_cstr cfg start n [] = \<lparr>theMethod = METHOD_OTHER, theImage = take n start\<rparr>"
| "method_search_cstr cfg start n (m # ms) =
     (let this = \<lparr>theMethod = m, theImage = []\<rparr>
      in if 0 = sb_compare_cstr (method_image cfg this) start False n \<and>
            (relaxed cfg \<or> 0 = sb_compare_cstr (method_image cfg this) start True n)
         then this
         else method_search_cstr cfg start n ms)"

definition method_of_cstr :: "http_config \<Rightarrow> bytes option \<Rightarrow> request_method" where
  "method_of_cstr cfg start_opt =
     (case start_opt of
        None \<Rightarrow> no_method
      | Some start \<Rightarrow>
          let n = length (takeWhile (\<lambda>c. \<not> w_space c) start)
          in if n = 0 then no_method
             else method_search_cstr cfg start n methods_after_none)"

definition method_eq :: "request_method \<Rightarrow> request_method \<Rightarrow> bool" where
  "method_eq m aMethod =
     (theMethod m = theMethod aMethod \<and>
      (theMethod m \<noteq> METHOD_OTHER \<or> theImage m = theImage aMethod))"

definition isHttpSafe :: "request_method \<Rightarrow> bool" where
  "isHttpSafe m =
     (case theMethod m of
        METHOD_GET \<Rightarrow> True | METHOD_HEAD \<Rightarrow> True | METHOD_OPTIONS \<Rightarrow> True
      | METHOD_REPORT \<Rightarrow> True | METHOD_PROPFIND \<Rightarrow> True | METHOD_SEARCH \<Rightarrow> True
      | METHOD_PRI \<Rightarrow> True
      | _ \<Rightarrow> False)"

definition isIdempotent :: "request_method \<Rightarrow> bool" where
  "isIdempotent m =
     (case theMethod m of
        METHOD_GET \<Rightarrow> True | METHOD_HEAD \<Rightarrow> True | METHOD_PUT \<Rightarrow> True
      | METHOD_DELETE \<Rightarrow> True | METHOD_OPTIONS \<Rightarrow> True | METHOD_TRACE \<Rightarrow> True
      | METHOD_PROPFIND \<Rightarrow> True | METHOD_PROPPATCH \<Rightarrow> True | METHOD_MKCOL \<Rightarrow> True
      | METHOD_COPY \<Rightarrow> True | METHOD_MOVE \<Rightarrow> True | METHOD_UNLOCK \<Rightarrow> True
      | METHOD_PRI \<Rightarrow> True
      | _ \<Rightarrow> False)"

definition respMaybeCacheable :: "request_method \<Rightarrow> bool" where
  "respMaybeCacheable m =
     (case theMethod m of METHOD_GET \<Rightarrow> True | METHOD_HEAD \<Rightarrow> True | _ \<Rightarrow> False)"

definition shouldInvalidate :: "request_method \<Rightarrow> bool" where
  "shouldInvalidate m =
     (case theMethod m of
        METHOD_POST \<Rightarrow> True | METHOD_PUT \<Rightarrow> True | METHOD_DELETE \<Rightarrow> True
      | METHOD_PURGE \<Rightarrow> True | METHOD_OTHER \<Rightarrow> True
      | _ \<Rightarrow> False)"

definition purgesOthers :: "request_method \<Rightarrow> bool" where
  "purgesOthers m =
     (if shouldInvalidate m then True
      else case theMethod m of
        METHOD_GET \<Rightarrow> False | METHOD_HEAD \<Rightarrow> False | METHOD_NONE \<Rightarrow> False
      | METHOD_CONNECT \<Rightarrow> False | METHOD_TRACE \<Rightarrow> False | METHOD_OPTIONS \<Rightarrow> False
      | METHOD_PROPFIND \<Rightarrow> False | METHOD_COPY \<Rightarrow> False | METHOD_LOCK \<Rightarrow> False
      | METHOD_UNLOCK \<Rightarrow> False | METHOD_SEARCH \<Rightarrow> False
      | _ \<Rightarrow> True)"

section \<open>Recognition keeps the spelling of the method\<close>

text \<open>Documented behaviour of the generated table: every image is a value an \<^verbatim>\<open>SBuf\<close> can hold.\<close>

definition images_ok :: "http_config \<Rightarrow> bool" where
  "images_ok cfg \<longleftrightarrow> (\<forall>m. sb_ok (MethodType_sb cfg m))"

lemma method_image_ok:
  "images_ok cfg \<Longrightarrow> sb_ok (theImage m) \<Longrightarrow> sb_ok (method_image cfg m)"
  by (simp add: method_image_def images_ok_def) (simp add: sb_ok_def maxSize_def)

lemma method_search_image:
  assumes "images_ok cfg" "sb_ok s" "s \<noteq> []"
  shows "map xtolower (method_image cfg (method_search cfg s ms)) = map xtolower s
       \<and> (\<not> relaxed cfg \<longrightarrow> method_image cfg (method_search cfg s ms) = s)"
proof (induction ms)
  case Nil
  then show ?case using assms by (simp add: method_image_def)
next
  case (Cons m ms)
  have "sb_ok (method_image cfg \<lparr>theMethod = m, theImage = []\<rparr>)"
    by (simp add: assms method_image_ok)
  with Cons show ?case
    by (auto simp: Let_def assms sb_cmp_eq_0 sb_caseCmp_eq_0 eq_commute [of 0])
qed

lemma method_of_sbuf_image:
  assumes "images_ok cfg" "sb_ok s" "s \<noteq> []"
  shows "map xtolower (method_image cfg (method_of_sbuf cfg s)) = map xtolower s"
    and "\<not> relaxed cfg \<Longrightarrow> method_image cfg (method_of_sbuf cfg s) = s"
  using method_search_image [OF assms] assms by (auto simp: method_of_sbuf_def)

text \<open>The first method of the enumeration is recognised by any spelling the parser tolerates.\<close>

lemma method_of_sbuf_GET:
  assumes "images_ok cfg" "MethodType_sb cfg METHOD_GET = ''GET''"
  shows "theMethod (method_of_sbuf cfg ''GET'') = METHOD_GET"
proof -
  have "sb_ok ''GET''" by (simp add: sb_ok_def maxSize_def)
  then show ?thesis using assms
    by (simp add: method_of_sbuf_def methods_after_none_def method_image_def sb_cmp_eq_0
        sb_caseCmp_eq_0 Let_def)
qed

section \<open>Cache policy of the methods\<close>

lemmas method_policy_defs =
  isHttpSafe_def isIdempotent_def respMaybeCacheable_def shouldInvalidate_def purgesOthers_def

text \<open>The images the build generates for the enumeration, as a concrete table.\<close>

fun generated_image :: "method_type \<Rightarrow> bytes" where
  "generated_image METHOD_NONE = ''NONE''"
| "generated_image METHOD_GET = ''GET''"
| "generated_image METHOD_POST = ''POST''"
| "generated_image METHOD_PUT = ''PUT''"
| "generated_image METHOD_HEAD = ''HEAD''"
| "generated_image METHOD_CONNECT = ''CONNECT''"
| "generated_image METHOD_TRACE = ''TRACE''"
| "generated_image METHOD_OPTIONS = ''OPTIONS''"
| "generated_image METHOD_DELETE = ''DELETE''"
| "generated_image METHOD_LINK = ''LINK''"
| "generated_image METHOD_UNLINK = ''UNLINK''"
| "generated_image METHOD_CHECKOUT = ''CHECKOUT''"
| "generated_image METHOD_CHECKIN = ''CHECKIN''"
| "generated_image METHOD_UNCHECKOUT = ''UNCHECKOUT''"
| "generated_image METHOD_MKWORKSPACE = ''MKWORKSPACE''"
| "generated_image METHOD_VERSION_CONTROL = ''VERSION-CONTROL''"
| "generated_image METHOD_REPORT = ''REPORT''"
| "generated_image METHOD_UPDATE = ''UPDATE''"
| "generated_image METHOD_LABEL = ''LABEL''"
| "generated_image METHOD_MERGE = ''MERGE''"
| "generated_image METHOD_BASELINE_CONTROL = ''BASELINE-CONTROL''"
| "generated_image METHOD_MKACTIVITY = ''MKACTIVITY''"
| "generated_image METHOD_PROPFIND = ''PROPFIND''"
| "generated_image METHOD_PROPPATCH = ''PROPPATCH''"
| "generated_image METHOD_MKCOL = ''MKCOL''"
| "generated_image METHOD_COPY = ''COPY''"
| "generated_image METHOD_MOVE = ''MOVE''"
| "generated_image METHOD_LOCK = ''LOCK''"
| "generated_image METHOD_UNLOCK = ''UNLOCK''"
| "generated_image METHOD_SEARCH = ''SEARCH''"
| "generated_image METHOD_PRI = ''PRI''"
| "generated_image METHOD_PURGE = ''PURGE''"
| "generated_image METHOD_OTHER = ''OTHER''"

definition sample_config :: "int \<Rightarrow> http_config" where
  "sample_config r =
     \<lparr>relaxed_header_parser = r, maxRequestHeaderSize = 65536, maxReplyHeaderSize = 65536,
      use_http_violations = True, MethodType_sb = generated_image\<rparr>"

lemma generated_image_ok: "sb_ok (generated_image m)"
  by (cases m) (simp_all add: sb_ok_def maxSize_def)

lemma images_ok_sample [simp]: "images_ok (sample_config r)"
  by (simp add: images_ok_def sample_config_def generated_image_ok)

lemma sample_config_simps [simp]:
  "relaxed_header_parser (sample_config r) = r"
  "maxRequestHeaderSize (sample_config r) = 65536"
  "maxReplyHeaderSize (sample_config r) = 65536"
  "use_http_violations (sample_config r)"
  "MethodType_sb (sample_config r) = generated_image"
  by (simp_all add: sample_config_def)

section \<open>Correctness of method recognition\<close>

text \<open>C34. Recognising a method and printing it back gives the received method: exactly in the
  strict mode, and up to the case of its letters in the relaxed mode. The table of method names is
  generated by the build; the hypothesis is that its entries are strings of a legal size.\<close>

theorem method_roundtrip:
  assumes "images_ok cfg" "sb_ok s" "s \<noteq> []"
  shows "map xtolower (method_image cfg (method_of_sbuf cfg s)) = map xtolower s \<and>
    (\<not> relaxed cfg \<longrightarrow> method_image cfg (method_of_sbuf cfg s) = s)"
  using method_of_sbuf_image [OF assms] by blast

theorem method_roundtrip_witness:
  "method_image (sample_config 0) (method_of_sbuf (sample_config 0) ''get'') = ''get''"
  using method_roundtrip [of "sample_config 0" "''get''"] by (simp add: sb_ok_def maxSize_def)

lemma method_search_OTHER:
  assumes "sb_ok s" "\<forall>m\<in>set ms. sb_ok (method_image cfg \<lparr>theMethod = m, theImage = []\<rparr>) \<and>
      map xtolower (method_image cfg \<lparr>theMethod = m, theImage = []\<rparr>) \<noteq> map xtolower s"
  shows "method_search cfg s ms = \<lparr>theMethod = METHOD_OTHER, theImage = s\<rparr>"
  using assms by (induction ms) (auto simp: Let_def sb_caseCmp_eq_0 eq_commute [of 0])

text \<open>The deprecated C-string conversion differs: it compares as many bytes as the argument has, so that
  any non-empty prefix of a known method name is taken for that method. A lone P is
  recognised as POST, which the buffer-based conversion reports as an unknown method.\<close>

lemma method_of_cstr_prefix:
  "theMethod (method_of_cstr (sample_config 0) (Some ''P'')) = METHOD_POST \<and>
   theMethod (method_of_sbuf (sample_config 0) ''P'') = METHOD_OTHER"
proof
  have "sb_compare_cstr ''GET'' ''P'' False 1 \<noteq> 0"
    "sb_compare_cstr ''POST'' ''P'' False 1 = 0" "sb_compare_cstr ''POST'' ''P'' True 1 = 0"
    by (simp_all add: sb_compare_cstr_def c_char_def schar_def xtolower_def xisupper_def)
  then show "theMethod (method_of_cstr (sample_config 0) (Some ''P'')) = METHOD_POST"
    by (simp add: method_of_cstr_def methods_after_none_def w_space_def method_image_def Let_def)
  have "method_search (sample_config 0) ''P'' methods_after_none = \<lparr>theMethod = METHOD_OTHER, theImage = ''P''\<rparr>"
    by (rule method_search_OTHER)
      (simp_all add: methods_after_none_def method_image_def sb_ok_def maxSize_def xtolower_def xisupper_def)
  then show "theMethod (method_of_sbuf (sample_config 0) ''P'') = METHOD_OTHER" by (simp add: method_of_sbuf_def)
qed

end
