(* ===== verification/Http1_Parser.thy ===== *)
theory Http1_Parser
  imports Tokenizer Mime_Header Request_Method
begin

text \<open>
  The part of the HTTP/1 message parser that requests and responses share:
  \<^verbatim>\<open>src/http/one/Parser.cc\<close> and \<^verbatim>\<open>Parser.h\<close>, with the protocol labels of
  \<^verbatim>\<open>src/anyp/ProtocolVersion.h\<close>.  The class \<^verbatim>\<open>Http::One::Parser\<close> is the
  extensible record \<open>http1\<close>; the request, response and chunked-body parsers
  extend it as the subclasses do.  The lemmas of the last sections show that obsolete
  line folding never makes a header block longer and when it is removed completely, and
  which part of the buffer \<^verbatim>\<open>grabMimeBlock()\<close> consumes.
\<close>

section \<open>Protocol labels and parser state\<close>

datatype protocol_type =
    PROTO_NONE | PROTO_HTTP | PROTO_FTP | PROTO_HTTPS | PROTO_COAP | PROTO_COAPS | PROTO_WAIS
  | PROTO_ICP | PROTO_HTCP | PROTO_URN | PROTO_WHOIS | PROTO_ICY | PROTO_TLS | PROTO_SSL
  | PROTO_AUTHORITY_FORM | PROTO_UNKNOWN

record protocol_version =
  pv_protocol :: protocol_type
  pv_major :: nat
  pv_minor :: nat

definition noVersion :: protocol_version where
  "noVersion = \<lparr>pv_protocol = PROTO_NONE, pv_major = 0, pv_minor = 0\<rparr>"

definition HttpVersion :: "nat \<Rightarrow> nat \<Rightarrow> protocol_version" where
  "HttpVersion aMajor aMinor = \<lparr>pv_protocol = PROTO_HTTP, pv_major = aMajor, pv_minor = aMinor\<rparr>"

definition version_less :: "protocol_version \<Rightarrow> protocol_version \<Rightarrow> bool" where
  "version_less a that =
     (if pv_protocol a \<noteq> pv_protocol that then False
      else pv_major a < pv_major that \<or>
           (pv_major a = pv_major that \<and> pv_minor a < pv_minor that))"

definition version_greater :: "protocol_version \<Rightarrow> protocol_version \<Rightarrow> bool" where
  "version_greater a that =
     (if pv_protocol a \<noteq> pv_protocol that then False
      else pv_major a > pv_major that \<or>
           (pv_major a = pv_major that \<and> pv_minor a > pv_minor that))"

definition version_le :: "protocol_version \<Rightarrow> protocol_version \<Rightarrow> bool" where
  "version_le a that =
     (if pv_protocol a \<noteq> pv_protocol that then False else \<not> version_greater a that)"

definition version_ge :: "protocol_version \<Rightarrow> protocol_version \<Rightarrow> bool" where
  "version_ge a that =
     (if pv_protocol a \<noteq> pv_protocol that then False else \<not> version_less a that)"

text \<open>The parse result codes of \<^verbatim>\<open>src/http/StatusCode.h\<close> that the parsers set.\<close>

definition scNone :: nat where "scNone = 0"
definition scOkay :: nat where "scOkay = 200"
definition scBadRequest :: nat where "scBadRequest = 400"
definition scUriTooLong :: nat where "scUriTooLong = 414"
definition scRequestHeaderFieldsTooLarge :: nat where "scRequestHeaderFieldsTooLarge = 431"
definition scInvalidHeader :: nat where "scInvalidHeader = 600"
definition scHeaderTooLarge :: nat where "scHeaderTooLarge = 601"

lemmas status_defs = scNone_def scOkay_def scBadRequest_def scUriTooLong_def
  scRequestHeaderFieldsTooLarge_def scInvalidHeader_def scHeaderTooLarge_def

datatype parse_state =
    HTTP_PARSE_NONE | HTTP_PARSE_FIRST | HTTP_PARSE_CHUNK_SZ | HTTP_PARSE_CHUNK_EXT
  | HTTP_PARSE_CHUNK | HTTP_PARSE_MIME | HTTP_PARSE_DONE

record http1 =
  hp_buf :: bytes
  hp_stage :: parse_state
  hp_proto :: protocol_version
  hp_mime :: bytes
  hp_hackExpectsMime :: bool
  hp_status :: nat

lemma stage_buf_commute: "p\<lparr>hp_stage := st, hp_buf := b\<rparr> = p\<lparr>hp_buf := b, hp_stage := st\<rparr>"
  by simp

definition needsMoreData :: "'a http1_scheme \<Rightarrow> bool" where
  "needsMoreData p = (hp_stage p \<noteq> HTTP_PARSE_DONE)"

definition http1_clear :: "'a http1_scheme \<Rightarrow> 'a http1_scheme" where
  "http1_clear p =
     p\<lparr>hp_stage := HTTP_PARSE_NONE, hp_buf := [], hp_proto := noVersion, hp_mime := []\<rparr>"

section \<open>Character classes of the grammar\<close>

definition CrLf :: bytes where
  "CrLf = [CR, LF]"

definition Http1magic :: bytes where
  "Http1magic = ''HTTP/1.''"

definition RelaxedDelimiterCharacters :: charset where
  "RelaxedDelimiterCharacters =
     cs_rename
       (cs_union (cs_union (cs_union cs_SP cs_HTAB)
          (cs_of_string ''VT,FF'' [CHR 0x0B, CHR 0x0C])) cs_CR)
       ''relaxed-WSP''"

definition WhitespaceCharacters :: "http_config \<Rightarrow> charset" where
  "WhitespaceCharacters cfg = (if relaxed cfg then RelaxedDelimiterCharacters else cs_WSP)"

definition DelimiterCharacters :: "http_config \<Rightarrow> charset" where
  "DelimiterCharacters cfg = (if relaxed cfg then RelaxedDelimiterCharacters else cs_SP)"

definition LineCharacters :: charset where
  "LineCharacters = cs_complement cs_LF ''non-LF''"

definition nonCRLF :: charset where
  "nonCRLF = cs_rename (cs_complement (cs_union cs_CR cs_LF) '''') ''non-CRLF''"

definition skipLineTerminator :: "http_config \<Rightarrow> tokenizer \<Rightarrow> (exn + unit) \<times> tokenizer" where
  "skipLineTerminator cfg tok =
     (case (if relaxed cfg then tok_skipOne tok cs_LF else (False, tok)) of
        (True, tok1) \<Rightarrow> (Inr (), tok1)
      | (False, tok1) \<Rightarrow> tok_skipRequired tok1 ''line-terminating CRLF'' CrLf)"

definition ParseBws_common :: "tokenizer \<Rightarrow> charset \<Rightarrow> (exn + unit) \<times> tokenizer" where
  "ParseBws_common tok bwsChars =
     (case tok_skipAll tok bwsChars of (count, tok1) \<Rightarrow>
        if tok_atEnd tok1 then (Inl InsufficientInput, tok1) else (Inr (), tok1))"

definition ParseBws :: "http_config \<Rightarrow> tokenizer \<Rightarrow> (exn + unit) \<times> tokenizer" where
  "ParseBws cfg tok = ParseBws_common tok (WhitespaceCharacters cfg)"

definition ParseStrictBws :: "tokenizer \<Rightarrow> (exn + unit) \<times> tokenizer" where
  "ParseStrictBws tok = ParseBws_common tok cs_WSP"

lemma cs_ok_http1 [simp]:
  "cs_ok RelaxedDelimiterCharacters" "cs_ok LineCharacters" "cs_ok nonCRLF"
  "cs_ok (WhitespaceCharacters cfg)" "cs_ok (DelimiterCharacters cfg)"
  by (simp_all add: RelaxedDelimiterCharacters_def LineCharacters_def nonCRLF_def
      WhitespaceCharacters_def DelimiterCharacters_def)

lemma cs_index_RelaxedDelimiterCharacters [charset_simps]:
  "cs_index RelaxedDelimiterCharacters c \<longleftrightarrow>
     c = SP \<or> c = HTAB \<or> c = CHR 0x0B \<or> c = CHR 0x0C \<or> c = CR"
  by (auto simp: RelaxedDelimiterCharacters_def charset_simps)

lemma cs_index_LineCharacters [charset_simps]: "cs_index LineCharacters c \<longleftrightarrow> c \<noteq> LF"
  by (simp add: LineCharacters_def charset_simps)

lemma cs_index_nonCRLF [charset_simps]: "cs_index nonCRLF c \<longleftrightarrow> c \<noteq> CR \<and> c \<noteq> LF"
  by (simp add: nonCRLF_def charset_simps)

lemma cs_index_DelimiterCharacters [charset_simps]:
  "cs_index (DelimiterCharacters cfg) c \<longleftrightarrow>
     (if relaxed cfg then c = SP \<or> c = HTAB \<or> c = CHR 0x0B \<or> c = CHR 0x0C \<or> c = CR else c = SP)"
  by (simp add: DelimiterCharacters_def charset_simps)

section \<open>The header block\<close>

function cleanMime_loop :: "tokenizer \<Rightarrow> tokenizer" where
  "cleanMime_loop tok =
     (case tok_skipOne tok RelaxedDelimiterCharacters of
        (False, tok1) \<Rightarrow> tok1
      | (True, tok1) \<Rightarrow>
          let tok2 = snd (tok_skipAll tok1 LineCharacters);
              tok3 = snd (tok_skipOne tok2 cs_LF)
          in cleanMime_loop tok3)"
  by pat_completeness auto

lemma clean_progress:
  assumes "(True, tok1) = tok_skipOne tok RelaxedDelimiterCharacters"
  shows "length (tok_buf (snd (tok_skipOne (snd (tok_skipAll tok1 LineCharacters)) cs_LF)))
           < length (tok_buf tok)"
proof -
  have "length (tok_buf tok1) < length (tok_buf tok)"
    using tok_skipOne_progress [of tok RelaxedDelimiterCharacters] assms by (metis fst_conv snd_conv)
  then show ?thesis
    using tok_skipAll_shorter [of tok1 LineCharacters]
      tok_skipOne_shorter [of "snd (tok_skipAll tok1 LineCharacters)" cs_LF] by linarith
qed

termination cleanMime_loop
  by (relation "measure (\<lambda>tok. length (tok_buf tok))") (auto dest: clean_progress)

declare cleanMime_loop.simps [simp del]

definition cleanMimePrefix :: "bytes \<Rightarrow> bytes" where
  "cleanMimePrefix mime =
     (let tok = cleanMime_loop (tok_new mime)
      in if tok_atEnd tok then CrLf else tok_buf tok)"

function unfoldMime_loop :: "tokenizer \<Rightarrow> bytes \<Rightarrow> bytes" where
  "unfoldMime_loop tok mime =
     (if tok_atEnd tok then mime
      else let all = tok_buf tok in
        case tok_skipAll tok nonCRLF of (blobLen, tok1) \<Rightarrow>
        case tok_skipAll tok1 cs_CR of (crLen, tok2) \<Rightarrow>
        case tok_skipOne tok2 cs_LF of (lfLen, tok3) \<Rightarrow>
        case (if lfLen then tok_skipAll tok3 cs_WSP else (0, tok3)) of (wspLen, tok4) \<Rightarrow>
        if lfLen \<and> wspLen \<noteq> 0
        then unfoldMime_loop tok4 (mime @ sb_substr all 0 blobLen @ [SP])
        else unfoldMime_loop tok4
               (mime @ sb_substr all 0 (blobLen + crLen + (if lfLen then 1 else 0))))"
  by pat_completeness auto

definition unfoldMime :: "bytes \<Rightarrow> bytes" where
  "unfoldMime mime = unfoldMime_loop (tok_new mime) []"

lemma tok_skipAll_stay:
  "tok_buf t \<noteq> [] \<Longrightarrow> \<not> cs_index cs (hd (tok_buf t)) \<Longrightarrow> tok_skipAll t cs = (0, t)"
  by (cases "tok_buf t") (auto simp: tok_skipAll_def sb_findFirstNotOf_0)

lemma unfold_progress:
  assumes "\<not> tok_atEnd tok"
    and "tok_skipAll tok nonCRLF = (blobLen, tok1)" "tok_skipAll tok1 cs_CR = (crLen, tok2)"
    and "tok_skipOne tok2 cs_LF = (lfLen, tok3)"
    and "(if lfLen then tok_skipAll tok3 cs_WSP else (0, tok3)) = (wspLen, tok4)"
  shows "length (tok_buf tok4) < length (tok_buf tok)"
proof -
  have le1: "length (tok_buf tok1) \<le> length (tok_buf tok)"
    using tok_skipAll_shorter [of tok nonCRLF] assms(2) by simp
  have le2: "length (tok_buf tok2) \<le> length (tok_buf tok1)"
    using tok_skipAll_shorter [of tok1 cs_CR] assms(3) by simp
  have le3: "length (tok_buf tok3) \<le> length (tok_buf tok2)"
    using tok_skipOne_shorter [of tok2 cs_LF] assms(4) by simp
  have le4: "length (tok_buf tok4) \<le> length (tok_buf tok3)"
    using tok_skipAll_shorter [of tok3 cs_WSP] assms(5) by (auto split: if_splits)
  have ne: "tok_buf tok \<noteq> []" using assms(1) by (simp add: tok_atEnd_def)
  show ?thesis
  proof (cases "cs_index nonCRLF (hd (tok_buf tok))")
    case True
    with ne have "length (tok_buf tok1) < length (tok_buf tok)"
      using tok_skipAll_progress [of tok nonCRLF] assms(2) by simp
    with le2 le3 le4 show ?thesis by simp
  next
    case False
    then have same1: "tok1 = tok"
      using assms(2) ne by (simp add: tok_skipAll_stay)
    show ?thesis
    proof (cases "hd (tok_buf tok) = CR")
      case True
      with ne have "length (tok_buf tok2) < length (tok_buf tok)"
        using tok_skipAll_progress [of tok1 cs_CR] assms(3) by (simp add: same1 charset_simps)
      with le3 le4 show ?thesis by simp
    next
      case nocr: False
      then have same2: "tok2 = tok"
        using assms(3) ne same1 by (simp add: tok_skipAll_stay charset_simps)
      have "fst (tok_skipOne tok2 cs_LF)"
        using False nocr ne same2
        by (cases "tok_buf tok") (auto simp: tok_skipOne_def charset_simps tok_success_def
            tok_consume_def sb_consume_def sb_substr_def sb_chop_def chop_pos_def chop_len_def
            Let_def npos_def uadd32_def)
      then have "length (tok_buf tok3) < length (tok_buf tok)"
        using tok_skipOne_progress [of tok2 cs_LF] assms(4) same2 by simp
      with le4 show ?thesis by simp
    qed
  qed
qed

termination unfoldMime_loop
  by (relation "measure (\<lambda>(tok, mime). length (tok_buf tok))")
    (auto dest: unfold_progress [OF _ sym sym sym sym])

declare unfoldMime_loop.simps [simp del]

definition grabMimeBlock :: "nat \<Rightarrow> nat \<Rightarrow> 'a http1_scheme \<Rightarrow> bool \<times> 'a http1_scheme" where
  "grabMimeBlock firstLineSize limit p =
     (let expectMime = (pv_protocol (hp_proto p) = PROTO_HTTP \<and> pv_major (hp_proto p) = 1 \<or>
                        pv_protocol (hp_proto p) = PROTO_ICY \<or> hp_hackExpectsMime p)
      in if expectMime then
           (case headersEnd (hp_buf p) of (mimeHeaderBytes, containsObsFold) \<Rightarrow>
              if mimeHeaderBytes \<noteq> 0 then
                (if uadd32 firstLineSize mimeHeaderBytes \<ge> limit
                 then (False, p\<lparr>hp_status := scHeaderTooLarge,
                                hp_buf := snd (sb_consume (hp_buf p) mimeHeaderBytes),
                                hp_stage := HTTP_PARSE_DONE\<rparr>)
                 else (case sb_consume (hp_buf p) mimeHeaderBytes of (block, rest) \<Rightarrow>
                   let block1 = cleanMimePrefix block;
                       block2 = (if containsObsFold then unfoldMime block1 else block1)
                   in (True, p\<lparr>hp_buf := rest, hp_mime := block2, hp_stage := HTTP_PARSE_DONE\<rparr>)))
              else if uadd32 (length (hp_buf p)) firstLineSize \<ge> limit
                   then (False, p\<lparr>hp_status := scHeaderTooLarge, hp_stage := HTTP_PARSE_DONE\<rparr>)
                   else (False, p))
         else (True, p\<lparr>hp_stage := HTTP_PARSE_DONE\<rparr>))"

text \<open>
  \<^verbatim>\<open>getHostHeaderField()\<close>: \<^verbatim>\<open>p[namelen]\<close> is an unchecked read of the shared store.
  Where the line is exactly four bytes long, the byte after it is the line feed
  that the loop has just skipped.
\<close>

definition hostChars :: charset where
  "hostChars = cs_union (cs_union (cs_of_string ''host'' '':[].-_'') cs_ALPHA) cs_DIGIT"

definition GET_HDR_SZ :: nat where
  "GET_HDR_SZ = 1024"

definition host_value :: "bytes \<Rightarrow> bytes" where
  "host_value p0 =
     (let p1 = sb_trim p0 CrLf False True;
          p2 = snd (sb_consume p1 (4 + 1));
          t = snd (tok_skipAll (tok_new p2) cs_WSP)
      in sb_chop (tok_buf t) 0 (GET_HDR_SZ - 1))"

function host_loop :: "tokenizer \<Rightarrow> bytes option" where
  "host_loop tok =
     (case tok_prefix tok LineCharacters npos of
        (None, _) \<Rightarrow> None
      | (Some p, tok1) \<Rightarrow>
          case tok_skipOne tok1 cs_LF of
            (False, _) \<Rightarrow> None
          | (True, tok2) \<Rightarrow>
              if sb_compare_cstr (sb_substr p 0 4) ''Host'' False 4 \<noteq> 0 then host_loop tok2
              else if (if 4 < length p then p ! 4 else LF) \<noteq> CHR '':'' then host_loop tok2
              else let v = host_value p
                   in if sb_findFirstNotOf v hostChars 0 \<noteq> npos then None else Some v)"
  by pat_completeness auto

lemma host_progress:
  assumes "(Some p, tok1) = tok_prefix tok LineCharacters npos" "(True, tok2) = tok_skipOne tok1 cs_LF"
  shows "length (tok_buf tok2) < length (tok_buf tok)"
proof -
  have "length (tok_buf tok2) < length (tok_buf tok1)"
    using tok_skipOne_progress [of tok1 cs_LF] assms(2) by (metis fst_conv snd_conv)
  moreover have "length (tok_buf tok1) \<le> length (tok_buf tok)"
    using tok_prefix_shorter [of tok LineCharacters npos] assms(1) by (metis snd_conv)
  ultimately show ?thesis by linarith
qed

termination host_loop
  by (relation "measure (\<lambda>tok. length (tok_buf tok))") (auto dest: host_progress)

declare host_loop.simps [simp del]

definition getHostHeaderField :: "'a http1_scheme \<Rightarrow> bytes option" where
  "getHostHeaderField p =
     (if length (hp_mime p) = 0 then None
      else host_loop (tok_new (hp_mime p)))"

section \<open>Unfolding obsolete line folding\<close>

text \<open>
  The line structure \<^verbatim>\<open>unfoldMime()\<close> works on, one piece of the input at a time: a folded
  line, a complete line, and a piece not ended by a line feed.
\<close>

definition wsp :: "char \<Rightarrow> bool" where
  "wsp c \<longleftrightarrow> c = SP \<or> c = HTAB"

definition text_char :: "char \<Rightarrow> bool" where
  "text_char c \<longleftrightarrow> c \<noteq> CR \<and> c \<noteq> LF"

inductive unfolds :: "bytes \<Rightarrow> bytes \<Rightarrow> bool" where
  unfolds_end: "unfolds [] []"
| unfolds_fold: "list_all text_char blob \<Longrightarrow> list_all ((=) CR) crs \<Longrightarrow> w \<noteq> [] \<Longrightarrow> list_all wsp w \<Longrightarrow>
    unfolds rest out \<Longrightarrow> unfolds (blob @ crs @ [LF] @ w @ rest) (blob @ [SP] @ out)"
| unfolds_line: "list_all text_char blob \<Longrightarrow> list_all ((=) CR) crs \<Longrightarrow> \<not> (rest \<noteq> [] \<and> wsp (hd rest)) \<Longrightarrow>
    unfolds rest out \<Longrightarrow> unfolds (blob @ crs @ [LF] @ rest) (blob @ crs @ [LF] @ out)"
| unfolds_part: "list_all text_char blob \<Longrightarrow> list_all ((=) CR) crs \<Longrightarrow> blob @ crs \<noteq> [] \<Longrightarrow>
    rest = [] \<or> text_char (hd rest) \<and> crs \<noteq> [] \<Longrightarrow>
    unfolds rest out \<Longrightarrow> unfolds (blob @ crs @ rest) (blob @ crs @ out)"

lemma unfoldMime_loop_end: "tok_buf t = [] \<Longrightarrow> unfoldMime_loop t m = m"
  by (simp add: unfoldMime_loop.simps tok_atEnd_def)

lemma nonCRLF_text_char: "cs_index nonCRLF = text_char"
  by (rule ext) (simp add: charset_simps text_char_def)

lemma cs_CR_eq: "cs_index cs_CR = (=) CR"
  by (rule ext) (auto simp: charset_simps)

lemma cs_WSP_wsp: "cs_index cs_WSP = wsp"
  by (rule ext) (simp add: charset_simps wsp_def)

lemma unfoldMime_loop_step:
  assumes "tok_ok t" "tok_buf t \<noteq> []"
    and blob: "blob = takeWhile text_char (tok_buf t)"
    and crs: "crs = takeWhile ((=) CR) (dropWhile text_char (tok_buf t))"
    and r: "r = dropWhile ((=) CR) (dropWhile text_char (tok_buf t))"
    and w: "w = takeWhile wsp (tl r)"
  shows "unfoldMime_loop t m =
    (if r \<noteq> [] \<and> hd r = LF then
       if w \<noteq> [] then unfoldMime_loop (advance t (length blob + length crs + 1 + length w)) (m @ blob @ [SP])
       else unfoldMime_loop (advance t (length blob + length crs + 1)) (m @ blob @ crs @ [LF])
     else unfoldMime_loop (advance t (length blob + length crs)) (m @ blob @ crs))"
proof -
  let ?s = "tok_buf t"
  have s: "?s = blob @ crs @ r" by (simp add: blob crs r)
  have d1: "drop (length blob) ?s = crs @ r" by (simp add: s)
  have dw: "dropWhile text_char ?s = crs @ r" by (simp add: crs r)
  have t1: "tok_skipAll t nonCRLF = (length blob, advance t (length blob))"
    using assms(1) by (simp add: tok_simps nonCRLF_text_char blob)
  have ok1: "tok_ok (advance t (length blob))" using assms(1) by (simp add: s)
  have "takeWhile ((=) CR) (crs @ r) = crs" using crs unfolding dw by simp
  then have t2: "tok_skipAll (advance t (length blob)) cs_CR =
      (length crs, advance t (length blob + length crs))"
    using ok1 by (simp add: tok_simps cs_CR_eq d1)
  have ok2: "tok_ok (advance t (length blob + length crs))" using assms(1) by (simp add: s)
  have d2: "drop (length blob + length crs) ?s = r" by (simp add: s)
  have t3: "tok_skipOne (advance t (length blob + length crs)) cs_LF =
      (if r \<noteq> [] \<and> hd r = LF then (True, advance t (length blob + length crs + 1))
       else (False, advance t (length blob + length crs)))"
    using ok2 by (simp add: tok_simps d2 charset_simps)
  have ok3: "tok_ok (advance t (length blob + length crs + 1))" if "r \<noteq> []"
    using assms(1) that by (cases r) (simp_all add: s)
  have d3: "drop (length blob + length crs + 1) ?s = tl r"
    using d2 by (metis drop_drop drop_Suc One_nat_def add.commute drop0)
  have t4: "tok_skipAll (advance t (length blob + length crs + 1)) cs_WSP =
      (length w, advance t (length blob + length crs + 1 + length w))" if "r \<noteq> []"
    using ok3 [OF that] d3 by (simp add: tok_simps cs_WSP_wsp w del: One_nat_def)
  have small: "length ?s < 4294967295" using sb_ok_length [OF tok_ok_sb_ok [OF assms(1)]] by (simp add: npos_def)
  have sub: "sb_substr ?s 0 n = take n ?s" if "n \<le> length ?s" for n
    using that small assms(1) by (simp add: sb_substr_0 tok_ok_sb_ok)
  have sub1: "sb_substr ?s 0 (length blob) = blob" using sub [of "length blob"] by (simp add: s)
  have sub2: "sb_substr ?s 0 (length blob + length crs) = blob @ crs"
    using sub [of "length blob + length crs"] by (simp add: s)
  have sub3: "sb_substr ?s 0 (Suc (length blob + length crs)) = blob @ crs @ [LF]" if "r \<noteq> []" "hd r = LF"
    using that sub [of "Suc (length blob + length crs)"] by (cases r) (simp_all add: s)
  show ?thesis
    by (subst unfoldMime_loop.simps)
      (use assms(2) in \<open>auto simp: tok_atEnd_def t1 t2 t3 t4 [simplified] sub1 sub2 sub3 Let_def\<close>)
qed

lemma unfoldMime_loop_refines:
  "tok_ok t \<Longrightarrow> \<exists>out. unfolds (tok_buf t) out \<and> unfoldMime_loop t m = m @ out"
proof (induction "length (tok_buf t)" arbitrary: t m rule: less_induct)
  case less
  let ?s = "tok_buf t"
  define blob where "blob = takeWhile text_char ?s"
  define crs where "crs = takeWhile ((=) CR) (dropWhile text_char ?s)"
  define r where "r = dropWhile ((=) CR) (dropWhile text_char ?s)"
  define w where "w = takeWhile wsp (tl r)"
  have s: "?s = blob @ crs @ r" by (simp add: blob_def crs_def r_def)
  have blob: "list_all text_char blob" and crs: "list_all ((=) CR) crs" and w: "list_all wsp w"
    by (auto simp: blob_def crs_def w_def list_all_iff dest: set_takeWhileD)
  have r: "r \<noteq> [] \<Longrightarrow> hd r \<noteq> CR"
    using hd_dropWhile [of "(=) CR" "dropWhile text_char ?s"] by (auto simp: r_def)
  have r0: "r \<noteq> [] \<Longrightarrow> crs = [] \<Longrightarrow> \<not> text_char (hd r)"
    using hd_dropWhile [of text_char ?s] s
    by (metis append_Nil blob_def append_eq_conv_conj drop_length_takeWhile)
  have IH: "\<exists>out. unfolds (drop n ?s) out \<and> unfoldMime_loop (advance t n) m' = m' @ out"
    if "0 < n" "n \<le> length ?s" for n m'
    using less.hyps [of "advance t n" m'] less.prems that by simp
  consider "?s = []" | (fold) "?s \<noteq> []" "r \<noteq> []" "hd r = LF" "w \<noteq> []"
    | (line) "?s \<noteq> []" "r \<noteq> []" "hd r = LF" "w = []"
    | (part) "?s \<noteq> []" "\<not> (r \<noteq> [] \<and> hd r = LF)" by blast
  then show ?case
  proof cases
    case 1
    then show ?thesis by (auto simp: unfoldMime_loop_end intro: unfolds_end)
  next
    case fold
    define rest where "rest = dropWhile wsp (tl r)"
    have r': "r = [LF] @ w @ rest" using fold by (cases r) (simp_all add: w_def rest_def)
    obtain out where "unfolds rest out" and "unfoldMime_loop t m = m @ blob @ [SP] @ out"
      using unfoldMime_loop_step [OF less.prems fold(1) blob_def crs_def r_def w_def, of m] fold
        IH [of "length blob + length crs + 1 + length w" "m @ blob @ [SP]"] by (auto simp: s r')
    then show ?thesis using unfolds_fold [OF blob crs fold(4) w] by (auto simp: s r')
  next
    case line
    have r': "r = [LF] @ tl r" using line by (cases r) simp_all
    have nf: "\<not> (tl r \<noteq> [] \<and> wsp (hd (tl r)))" using line(4) by (auto simp: w_def takeWhile_eq_Nil_iff')
    have "drop (length blob + length crs + 1) ?s = tl r" using r' by (simp add: s) (metis drop_Suc drop0)
    then obtain out where "unfolds (tl r) out" and "unfoldMime_loop t m = m @ blob @ crs @ [LF] @ out"
      using unfoldMime_loop_step [OF less.prems line(1) blob_def crs_def r_def w_def, of m] line
        IH [of "length blob + length crs + 1" "m @ blob @ crs @ [LF]"] by (cases r) (auto simp: s)
    then show ?thesis using unfolds_line [OF blob crs nf] r' by (metis append.assoc s)
  next
    case part
    have ne: "blob @ crs \<noteq> []" using part r r0 s by (metis append_Nil append_is_Nil_conv text_char_def)
    have tail: "r = [] \<or> text_char (hd r) \<and> crs \<noteq> []" using part r r0 by (auto simp: text_char_def)
    have "drop (length blob + length crs) ?s = r" by (simp add: s)
    then obtain out where "unfolds r out" and "unfoldMime_loop t m = m @ blob @ crs @ out"
      using unfoldMime_loop_step [OF less.prems part(1) blob_def crs_def r_def w_def, of m] part
        IH [of "length blob + length crs" "m @ blob @ crs"] ne by (auto simp: s)
    then show ?thesis using unfolds_part [OF blob crs ne tail] by (auto simp: s)
  qed
qed

lemma unfoldMime_refines: "sb_ok s \<Longrightarrow> unfolds s (unfoldMime s)"
  using unfoldMime_loop_refines [of "tok_new s" "[]"] by (auto simp: unfoldMime_def)

lemma unfolds_length: "unfolds s out \<Longrightarrow> length out \<le> length s"
proof (induction rule: unfolds.induct)
  case (unfolds_fold blob crs w rest out)
  then show ?case by (cases w) auto
qed auto

definition visible :: "bytes \<Rightarrow> bytes" where
  "visible s = filter (\<lambda>c. text_char c \<and> \<not> wsp c) s"

lemma visible_simps [simp]:
  "visible [] = []" "visible (a @ b) = visible a @ visible b"
  "visible [LF] = []" "visible [SP] = []"
  by (simp_all add: visible_def text_char_def wsp_def)

lemma visible_wsp: "list_all wsp w \<Longrightarrow> visible w = []"
  by (induction w) (simp_all add: visible_def)

lemma visible_crs: "list_all ((=) CR) w \<Longrightarrow> visible w = []"
  by (induction w) (simp_all add: visible_def text_char_def)

lemma unfolds_visible: "unfolds s out \<Longrightarrow> visible out = visible s"
proof (induction rule: unfolds.induct)
  case (unfolds_fold blob crs w rest out)
  then show ?case
    using visible_simps(2) [of "[LF]" "w @ rest"] visible_simps(2) [of "[SP]" out]
    by (simp add: visible_wsp visible_crs)
next
  case (unfolds_line blob crs rest out)
  then show ?case
    using visible_simps(2) [of "[LF]" rest] visible_simps(2) [of "[LF]" out] by simp
qed simp_all

text \<open>A line feed followed by whitespace, anywhere.\<close>

fun has_fold :: "bytes \<Rightarrow> bool" where
  "has_fold (a # b # s) \<longleftrightarrow> a = LF \<and> wsp b \<or> has_fold (b # s)"
| "has_fold _ \<longleftrightarrow> False"

text \<open>A line made of carriage returns only, followed by a folded line.\<close>

definition cr_line_fold :: "bytes \<Rightarrow> bool" where
  "cr_line_fold s \<longleftrightarrow> (\<exists>crs w rest. s = crs @ [LF, w] @ rest \<and> list_all ((=) CR) crs \<and> wsp w)"

definition blank_before_fold :: "bytes \<Rightarrow> bool" where
  "blank_before_fold s \<longleftrightarrow> (\<exists>a b. s = a @ [LF] @ b \<and> cr_line_fold b)"

lemma has_fold_append:
  "has_fold (a @ b) \<longleftrightarrow> has_fold a \<or> has_fold b \<or> (a \<noteq> [] \<and> b \<noteq> [] \<and> last a = LF \<and> wsp (hd b))"
proof (induction a)
  case (Cons x a)
  then show ?case by (cases a; cases b) auto
qed simp

lemma has_fold_no_LF: "LF \<notin> set s \<Longrightarrow> \<not> has_fold s"
  by (induction s rule: has_fold.induct) auto

lemma no_LF_parts: "list_all text_char blob \<Longrightarrow> LF \<notin> set blob" "list_all ((=) CR) crs \<Longrightarrow> LF \<notin> set crs"
  by (auto simp: list_all_iff text_char_def)

lemma blank_before_fold_mono: "blank_before_fold b \<Longrightarrow> blank_before_fold (a @ b)"
  unfolding blank_before_fold_def by (metis append.assoc)

lemma wsp_simps [simp]: "\<not> wsp LF" "\<not> wsp CR" "wsp SP" "wsp HTAB"
  by (simp_all add: wsp_def)

lemma unfolds_hd:
  assumes "unfolds s out" "out \<noteq> []" "wsp (hd out)"
  shows "s \<noteq> [] \<and> wsp (hd s) \<or> cr_line_fold s"
  using assms
proof (cases rule: unfolds.cases)
  case (unfolds_fold blob crs w rest out')
  show ?thesis
  proof (cases "blob = []")
    case True
    with unfolds_fold have "s = crs @ [LF, hd w] @ tl w @ rest" "wsp (hd w)" by (cases w; simp)+
    with unfolds_fold show ?thesis unfolding cr_line_fold_def by blast
  qed (use unfolds_fold assms in auto)
next
  case (unfolds_line blob crs rest out')
  with assms show ?thesis by (cases blob; cases crs) auto
next
  case (unfolds_part blob crs rest out')
  with assms show ?thesis by (cases blob; cases crs) auto
qed simp

lemma unfolds_no_fold: "unfolds s out \<Longrightarrow> \<not> blank_before_fold s \<Longrightarrow> \<not> has_fold out"
proof (induction rule: unfolds.induct)
  case (unfolds_fold blob crs w rest out)
  then have "\<not> has_fold out"
    using blank_before_fold_mono [of rest "blob @ crs @ [LF] @ w"] by auto
  then show ?case using unfolds_fold no_LF_parts(1) [of blob]
    by (cases out) (auto simp: has_fold_append has_fold_no_LF dest: last_in_set)
next
  case (unfolds_line blob crs rest out)
  then have "\<not> has_fold out"
    using blank_before_fold_mono [of rest "blob @ crs @ [LF]"] by auto
  moreover have "\<not> cr_line_fold rest"
    using unfolds_line.prems unfolding blank_before_fold_def by (metis append.assoc)
  then have "\<not> (out \<noteq> [] \<and> wsp (hd out))"
    using unfolds_hd [OF unfolds_line.hyps(4)] unfolds_line.hyps(3) by blast
  ultimately show ?case using no_LF_parts(1) [of blob] no_LF_parts(2) [of crs] unfolds_line.hyps
    by (cases out) (auto simp: has_fold_append has_fold_no_LF dest: last_in_set)
next
  case (unfolds_part blob crs rest out)
  then have "\<not> has_fold out"
    using blank_before_fold_mono [of rest "blob @ crs"] by auto
  then show ?case using unfolds_part no_LF_parts(1) [of blob] no_LF_parts(2) [of crs]
    by (auto simp: has_fold_append has_fold_no_LF dest: last_in_set)
qed simp

section \<open>Consumption of the header block\<close>

definition relaxed_delim :: "char \<Rightarrow> bool" where
  "relaxed_delim c \<longleftrightarrow> c = SP \<or> c = HTAB \<or> c = CHR 0x0B \<or> c = CHR 0x0C \<or> c = CR"

lemma cleanMime_loop_spec:
  "tok_ok t \<Longrightarrow> \<exists>n. n \<le> length (tok_buf t) \<and> cleanMime_loop t = advance t n \<and>
     (drop n (tok_buf t) = [] \<or> \<not> relaxed_delim (hd (drop n (tok_buf t))))"
proof (induction "length (tok_buf t)" arbitrary: t rule: less_induct)
  case less
  show ?case
  proof (cases "tok_buf t \<noteq> [] \<and> relaxed_delim (hd (tok_buf t))")
    case False
    then have "cleanMime_loop t = t"
      by (subst cleanMime_loop.simps)
        (use less.prems in \<open>auto simp: tok_simps charset_simps relaxed_delim_def\<close>)
    with False show ?thesis by (intro exI [of _ 0]) auto
  next
    case True
    define k where "k = Suc (length (takeWhile (\<lambda>c. c \<noteq> LF) (drop 1 (tok_buf t))))"
    define n where "n = (if drop k (tok_buf t) \<noteq> [] \<and> hd (drop k (tok_buf t)) = LF then Suc k else k)"
    have line: "cs_index LineCharacters = (\<lambda>c. c \<noteq> LF)" by (rule ext) (simp add: charset_simps)
    have k: "k \<le> length (tok_buf t)"
      using True length_takeWhile_le [of "\<lambda>c. c \<noteq> LF" "drop 1 (tok_buf t)"]
      by (cases "tok_buf t") (simp_all add: k_def)
    then have n: "0 < n" "n \<le> length (tok_buf t)" by (auto simp: n_def k_def)
    have one: "tok_skipOne t RelaxedDelimiterCharacters = (True, advance t 1)"
      using less.prems True by (auto simp: tok_simps charset_simps relaxed_delim_def)
    have ok1: "tok_ok (advance t 1)" using less.prems True by (cases "tok_buf t") simp_all
    have two: "snd (tok_skipAll (advance t 1) LineCharacters) = advance t k"
      using ok1 by (simp add: tok_simps line k_def)
    have three: "snd (tok_skipOne (advance t k) cs_LF) = advance t n"
      using less.prems k by (simp add: tok_simps charset_simps n_def)
    have "cleanMime_loop t = cleanMime_loop (advance t n)"
      by (subst cleanMime_loop.simps) (simp add: one two three Let_def del: One_nat_def)
    moreover have "length (tok_buf (advance t n)) < length (tok_buf t)" using n by simp
    ultimately obtain m where
      "m \<le> length (tok_buf t) - n" "cleanMime_loop t = advance t (n + m)"
      "drop m (drop n (tok_buf t)) = [] \<or> \<not> relaxed_delim (hd (drop m (drop n (tok_buf t))))"
      using less.hyps [of "advance t n"] less.prems n by auto
    with n show ?thesis by (intro exI [of _ "n + m"]) (auto simp: add.commute)
  qed
qed

lemma cleanMimePrefix_spec:
  assumes "sb_ok mime"
  shows "cleanMimePrefix mime = CrLf \<or>
    (\<exists>n. cleanMimePrefix mime = drop n mime \<and> drop n mime \<noteq> [] \<and> \<not> relaxed_delim (hd (drop n mime)))"
  using cleanMime_loop_spec [of "tok_new mime"] assms
  by (auto simp: cleanMimePrefix_def tok_atEnd_def Let_def)

lemma headersEnd_small: "sb_ok s \<Longrightarrow> fst (headersEnd s) < 4294967296"
  using headersEnd_le [of s] by (simp add: sb_ok_def maxSize_def)

text \<open>The successful outcome and the three unsuccessful ones.\<close>

lemma grabMimeBlock_cases:
  assumes "sb_ok (hp_buf p)" "grabMimeBlock fl limit p = (r, p')"
  obtains (no_block) "r" "p' = p\<lparr>hp_stage := HTTP_PARSE_DONE\<rparr>"
      "\<not> (pv_protocol (hp_proto p) = PROTO_HTTP \<and> pv_major (hp_proto p) = 1)"
  | (block) n obs b where "r" "headersEnd (hp_buf p) = (n, obs)" "0 < n" "uadd32 fl n < limit"
      "b = cleanMimePrefix (take n (hp_buf p))"
      "p' = p\<lparr>hp_buf := drop n (hp_buf p), hp_mime := (if obs then unfoldMime b else b),
              hp_stage := HTTP_PARSE_DONE\<rparr>"
  | (too_large) n where "\<not> r" "p' = p\<lparr>hp_status := scHeaderTooLarge, hp_buf := drop n (hp_buf p),
              hp_stage := HTTP_PARSE_DONE\<rparr>"
  | (incomplete) "\<not> r" "p' = p" "fst (headersEnd (hp_buf p)) = 0"
      "uadd32 (length (hp_buf p)) fl < limit"
      "pv_protocol (hp_proto p) = PROTO_HTTP \<and> pv_major (hp_proto p) = 1 \<or>
       pv_protocol (hp_proto p) = PROTO_ICY \<or> hp_hackExpectsMime p"
proof (cases "pv_protocol (hp_proto p) = PROTO_HTTP \<and> pv_major (hp_proto p) = 1 \<or>
       pv_protocol (hp_proto p) = PROTO_ICY \<or> hp_hackExpectsMime p")
  case False
  with assms(2) show ?thesis by (intro no_block) (auto simp: grabMimeBlock_def)
next
  case True
  obtain n obs where he: "headersEnd (hp_buf p) = (n, obs)" by (cases "headersEnd (hp_buf p)")
  have con: "sb_consume (hp_buf p) n = (take n (hp_buf p), drop n (hp_buf p))"
    using headersEnd_small [OF assms(1)] assms(1) he by (simp add: sb_consume_eq)
  have g: "grabMimeBlock fl limit p =
     (if n \<noteq> 0 then
        if uadd32 fl n \<ge> limit
        then (False, p\<lparr>hp_status := scHeaderTooLarge, hp_buf := drop n (hp_buf p), hp_stage := HTTP_PARSE_DONE\<rparr>)
        else (True, p\<lparr>hp_buf := drop n (hp_buf p),
                      hp_mime := (if obs then unfoldMime (cleanMimePrefix (take n (hp_buf p)))
                                  else cleanMimePrefix (take n (hp_buf p))),
                      hp_stage := HTTP_PARSE_DONE\<rparr>)
      else if uadd32 (length (hp_buf p)) fl \<ge> limit
           then (False, p\<lparr>hp_status := scHeaderTooLarge, hp_stage := HTTP_PARSE_DONE\<rparr>)
           else (False, p))"
    using True by (simp add: grabMimeBlock_def he con Let_def)
  consider "n \<noteq> 0" "uadd32 fl n \<ge> limit" | "n \<noteq> 0" "uadd32 fl n < limit"
    | "n = 0" "uadd32 (length (hp_buf p)) fl \<ge> limit" | "n = 0" "uadd32 (length (hp_buf p)) fl < limit"
    by linarith
  then show ?thesis
  proof cases
    case 1 with g assms(2) show ?thesis by (intro too_large [of n]) auto
  next
    case 2 with g assms(2) he show ?thesis by (intro block [of n obs]) auto
  next
    case 3 with g assms(2) show ?thesis by (intro too_large [of 0]) auto
  next
    case 4 with g assms(2) he True show ?thesis by (intro incomplete) auto
  qed
qed

section \<open>The Host field\<close>

lemma length_host_value: "length (host_value p) < GET_HDR_SZ"
proof -
  have short: "length (sb_chop s 0 1023) < 1024" for s
    by (auto simp: sb_chop_def chop_pos_def chop_len_def npos_def uadd32_def Let_def)
  show ?thesis by (simp add: host_value_def Let_def GET_HDR_SZ_def short)
qed

lemma hostChars_only:
  "sb_findFirstNotOf s cs 0 = npos \<Longrightarrow> length s < GET_HDR_SZ \<Longrightarrow> list_all (cs_index cs) s"
  using length_takeWhile_le [of "cs_index cs" s]
  by (auto simp: sb_findFirstNotOf_0 list_all_iff npos_def GET_HDR_SZ_def split: if_splits)

lemma host_loop_safe:
  "host_loop t = Some v \<Longrightarrow> length v < GET_HDR_SZ \<and> list_all (cs_index hostChars) v"
proof (induction "length (tok_buf t)" arbitrary: t rule: less_induct)
  case less
  obtain o1 tok1 where one: "tok_prefix t LineCharacters npos = (o1, tok1)" by fastforce
  obtain b tok2 where two: "tok_skipOne tok1 cs_LF = (b, tok2)" by fastforce
  from less.prems one two obtain p where p: "o1 = Some p" "b"
    by (subst (asm) host_loop.simps) (auto split: option.splits bool.splits)
  then have step: "host_loop t =
      (if sb_compare_cstr (sb_substr p 0 4) ''Host'' False 4 \<noteq> 0 then host_loop tok2
       else if (if 4 < length p then p ! 4 else LF) \<noteq> CHR '':'' then host_loop tok2
       else if sb_findFirstNotOf (host_value p) hostChars 0 \<noteq> npos then None else Some (host_value p))"
    using one two by (subst host_loop.simps) (simp add: Let_def)
  have "length (tok_buf tok2) < length (tok_buf t)"
    using host_progress [of p tok1 t tok2] one two p by simp
  with less.hyps [of tok2] have IH: "host_loop tok2 = Some v \<Longrightarrow> ?case" by simp
  show ?case
  proof (cases "host_loop t = host_loop tok2")
    case False
    with step less.prems have "v = host_value p" "sb_findFirstNotOf (host_value p) hostChars 0 = npos"
      by (metis option.distinct(1) option.inject)+
    with length_host_value hostChars_only show ?thesis by metis
  qed (use IH less.prems in simp)
qed

section \<open>Correctness of the header block functions\<close>



text \<open>C20. Unfolding removes every obs-fold from a block that has no empty line right before a folded one: no line of
  the result starts with whitespace. The result is never longer than the block, and the bytes other than
  line ends and whitespace are those of the block, in order.\<close>

theorem unfoldMime_safe:
  assumes "sb_ok s"
  shows "length (unfoldMime s) \<le> length s \<and> visible (unfoldMime s) = visible s \<and>
    (\<not> blank_before_fold s \<longrightarrow> \<not> has_fold (unfoldMime s))"
  using unfoldMime_refines [OF assms] unfolds_length unfolds_visible unfolds_no_fold by blast

theorem unfoldMime_safe_witness:
  "visible (unfoldMime (''A: b'' @ [CR, LF] @ ''  c'' @ [CR, LF])) = ''A:bc''"
proof -
  have "visible (''A: b'' @ [CR, LF] @ ''  c'' @ [CR, LF]) = ''A:bc''" by code_simp
  then show ?thesis using unfoldMime_safe [of "''A: b'' @ [CR, LF] @ ''  c'' @ [CR, LF]"]
    by (simp add: sb_ok_def maxSize_def)
qed


text \<open>What \<^verbatim>\<open>getHostHeaderField()\<close> returns fits its fixed 1024-byte array with the terminator, and
  consists of characters a host name and port may have, for every header block.\<close>

lemma host_field_fits:
  assumes "getHostHeaderField p = Some v"
  shows "length v < GET_HDR_SZ \<and> list_all (cs_index hostChars) v"
  using assms host_loop_safe by (auto simp: getHostHeaderField_def split: if_splits)

end
