(* ===== verification/Http1_Response.thy ===== *)
theory Http1_Response
  imports Http1_Parser
begin

text \<open>
  The HTTP/1 response parser, \<^verbatim>\<open>src/http/one/ResponseParser.cc\<close>.  Status lines are
  parsed field by field, and \<^verbatim>\<open>buf_\<close> is moved forward after each of them, so that a
  later call resumes behind the last complete field.  Exceptions thrown by the tokenizer
  are values; the two \<^verbatim>\<open>catch\<close> clauses are the branches of
  \<open>parseResponseStatusAndReason\<close>.
\<close>

section \<open>The parser\<close>

record response_parser = http1 +
  rs_completedStatus :: bool
  rs_statusCode :: int
  rs_reasonPhrase :: bytes

definition response_parser_new :: response_parser where
  "response_parser_new =
     \<lparr>hp_buf = [], hp_stage = HTTP_PARSE_NONE, hp_proto = noVersion, hp_mime = [],
      hp_hackExpectsMime = False, hp_status = scNone,
      rs_completedStatus = False, rs_statusCode = 0, rs_reasonPhrase = []\<rparr>"

definition response_clear :: "response_parser \<Rightarrow> response_parser" where
  "response_clear p = response_parser_new"

definition IcyMagic :: bytes where
  "IcyMagic = ''ICY ''"

definition response_firstLineSize :: "response_parser \<Rightarrow> nat" where
  "response_firstLineSize p =
     (let result = 0 in
      case pv_protocol (hp_proto p) of
        PROTO_HTTP \<Rightarrow>
          uadd32 (result + length Http1magic + (if pv_minor (hp_proto p) > 9 then 2 else 1) + 5)
                 (length (rs_reasonPhrase p) + 2)
      | PROTO_ICY \<Rightarrow>
          uadd32 (result + length IcyMagic + (if pv_minor (hp_proto p) > 9 then 2 else 1) + 5)
                 (length (rs_reasonPhrase p) + 2)
      | _ \<Rightarrow> result)"

definition phraseChars :: charset where
  "phraseChars = cs_union (cs_union cs_WSP cs_VCHAR) cs_OBSTEXT"

text \<open>The test \<^verbatim>\<open>tok.int64(n, 10, false, limit) && tok.skipOne(DelimiterCharacters())\<close>.\<close>

definition number_delim :: "http_config \<Rightarrow> nat \<Rightarrow> tokenizer \<Rightarrow> int option \<times> tokenizer" where
  "number_delim cfg limit tok =
     (case tok_int64 tok 10 False limit of
        (None, tok1) \<Rightarrow> (None, tok1)
      | (Some v, tok1) \<Rightarrow>
          (case tok_skipOne tok1 (DelimiterCharacters cfg) of
             (False, tok2) \<Rightarrow> (None, tok2)
           | (True, tok2) \<Rightarrow> (Some v, tok2)))"

text \<open>The status code is an output parameter, assigned before it is validated.\<close>

definition ParseResponseStatus ::
  "http_config \<Rightarrow> tokenizer \<Rightarrow> int \<Rightarrow> (exn + unit) \<times> tokenizer \<times> int" where
  "ParseResponseStatus cfg tok code =
     (case number_delim cfg 3 tok of
        (Some code', tok2) \<Rightarrow>
          if code' \<le> 99 then (Inl (TextException ''status-code too short: ''), tok2, code')
          else if code' \<ge> 600
               then (Inl (TextException ''status-code from an invalid response class: ''), tok2, code')
               else (Inr (), tok2, code')
      | (None, tok2) \<Rightarrow>
          if tok_atEnd tok2 then (Inl InsufficientInput, tok2, code)
          else (Inl (TextException ''syntactically invalid status-code area''), tok2, code))"

definition status_field :: "http_config \<Rightarrow> tokenizer \<Rightarrow> response_parser \<Rightarrow>
    (exn + unit) \<times> tokenizer \<times> response_parser" where
  "status_field cfg tok p =
     (if rs_completedStatus p then (Inr (), tok, p)
      else case ParseResponseStatus cfg tok (rs_statusCode p) of
        (Inl e, tok1, code) \<Rightarrow> (Inl e, tok1, p\<lparr>rs_statusCode := code\<rparr>)
      | (Inr _, tok1, code) \<Rightarrow>
          (Inr (), tok1, p\<lparr>rs_statusCode := code, hp_buf := tok_buf tok1, rs_completedStatus := True\<rparr>))"

definition reason_field :: "http_config \<Rightarrow> tokenizer \<Rightarrow> response_parser \<Rightarrow> (exn + unit) \<times> response_parser" where
  "reason_field cfg tok p =
     (case tok_prefix tok phraseChars npos of (found, tok1) \<Rightarrow>
      let p1 = (case found of None \<Rightarrow> p | Some phrase \<Rightarrow> p\<lparr>rs_reasonPhrase := phrase\<rparr>) in
      case skipLineTerminator cfg tok1 of
        (Inl e, _) \<Rightarrow> (Inl e, p1)
      | (Inr _, tok2) \<Rightarrow> (Inr (), p1\<lparr>hp_buf := tok_buf tok2\<rparr>))"

definition parseResponseStatusAndReason ::
  "http_config \<Rightarrow> tokenizer \<Rightarrow> response_parser \<Rightarrow> int \<times> response_parser" where
  "parseResponseStatusAndReason cfg tok p =
     (case (case status_field cfg tok p of
              (Inl e, _, p1) \<Rightarrow> (Inl e, p1)
            | (Inr _, tok1, p1) \<Rightarrow> reason_field cfg tok1 p1) of
        (Inr _, p2) \<Rightarrow> (1, p2)
      | (Inl InsufficientInput, p2) \<Rightarrow> (0, p2\<lparr>rs_reasonPhrase := []\<rparr>)
      | (Inl _, p2) \<Rightarrow> (-1, p2))"

definition fakeHttpMimeBlock :: bytes where
  "fakeHttpMimeBlock =
     ''X-Transformed-From: HTTP/0.9'' @ [CR, LF] @ ''Mime-Version: 1.0'' @ [CR, LF] @
     ''Expires: -1'' @ [CR, LF, CR, LF]"

definition parseResponseFirstLine :: "http_config \<Rightarrow> response_parser \<Rightarrow> int \<times> response_parser" where
  "parseResponseFirstLine cfg p =
     (let tok = tok_new (hp_buf p) in
      if pv_protocol (hp_proto p) \<noteq> PROTO_NONE then parseResponseStatusAndReason cfg tok p
      else case tok_skip tok Http1magic of
        (True, tok1) \<Rightarrow>
          (case number_delim cfg 1 tok1 of
             (Some verMinor, tok3) \<Rightarrow>
               parseResponseStatusAndReason cfg tok3
                 (p\<lparr>hp_proto := \<lparr>pv_protocol = PROTO_HTTP, pv_major = 1, pv_minor = nat verMinor\<rparr>,
                    hp_buf := tok_buf tok3\<rparr>)
           | (None, tok3) \<Rightarrow> if tok_atEnd tok3 then (0, p) else (-1, p))
      | (False, tok1) \<Rightarrow>
          case tok_skip tok1 IcyMagic of
            (True, tok2) \<Rightarrow>
              parseResponseStatusAndReason cfg tok2
                (p\<lparr>hp_proto := (hp_proto p)\<lparr>pv_protocol := PROTO_ICY\<rparr>, hp_buf := tok_buf tok2\<rparr>)
          | (False, tok2) \<Rightarrow>
              if length (hp_buf p) < length Http1magic \<and> sb_startsWith Http1magic (hp_buf p) True
              then (0, p)
              else if length (hp_buf p) < length IcyMagic \<and> sb_startsWith IcyMagic (hp_buf p) True
              then (0, p)
              else (1, p\<lparr>hp_proto := HttpVersion 1 1, rs_statusCode := int scOkay,
                         rs_reasonPhrase := ''Gatewaying'', hp_mime := fakeHttpMimeBlock,
                         hp_stage := HTTP_PARSE_DONE\<rparr>))"

definition response_mime_stage :: "http_config \<Rightarrow> response_parser \<Rightarrow> bool \<times> response_parser" where
  "response_mime_stage cfg p =
     (if hp_stage p = HTTP_PARSE_MIME then
        (case grabMimeBlock (response_firstLineSize p) (maxReplyHeaderSize cfg) p of
           (False, p1) \<Rightarrow> (False, p1)
         | (True, p1) \<Rightarrow> (\<not> needsMoreData p1, p1))
      else (\<not> needsMoreData p, p))"

definition response_line_stage :: "http_config \<Rightarrow> response_parser \<Rightarrow> bool \<times> response_parser" where
  "response_line_stage cfg p =
     (if hp_stage p = HTTP_PARSE_FIRST then
        (case parseResponseFirstLine cfg p of (retcode, p1) \<Rightarrow>
           let p2 = (if retcode > 0 \<and> hp_stage p1 = HTTP_PARSE_FIRST
                     then p1\<lparr>hp_stage := HTTP_PARSE_MIME\<rparr> else p1)
           in if retcode < 0
              then (False, p2\<lparr>hp_stage := HTTP_PARSE_DONE, hp_status := scInvalidHeader\<rparr>)
              else response_mime_stage cfg p2)
      else response_mime_stage cfg p)"

definition response_parse :: "http_config \<Rightarrow> bytes \<Rightarrow> response_parser \<Rightarrow> bool \<times> response_parser" where
  "response_parse cfg aBuf p0 =
     (let p = p0\<lparr>hp_buf := aBuf\<rparr>
      in if hp_stage p = HTTP_PARSE_NONE then
           (if hp_buf p \<noteq> [] then response_line_stage cfg (p\<lparr>hp_stage := HTTP_PARSE_FIRST\<rparr>)
            else (False, p))
         else response_line_stage cfg p)"

section \<open>The fields of the status line\<close>

lemma is_digit_in_10: "is_digit_in 10 = xisdigit"
  by (rule ext) (auto simp: is_digit_in_def digit_value_def xisdigit_def xisalpha_def xisupper_def xislower_def
      split: option.splits if_splits)

lemma number_of_bound:
  "list_all (is_digit_in base) ds \<Longrightarrow> number_of base ds v < (v + 1) * base ^ length ds"
proof (induction ds arbitrary: v)
  case (Cons c ds)
  then obtain d where d: "digit_value c = Some d" "d < base" by (auto simp: is_digit_in_def split: option.splits)
  then have "(v * base + d + 1) * base ^ length ds \<le> ((v + 1) * base) * base ^ length ds"
    by (intro mult_right_mono) auto
  moreover have "number_of base ds (v * base + d) < (v * base + d + 1) * base ^ length ds"
    using Cons by simp
  ultimately show ?case using d by (simp add: algebra_simps)
qed simp

definition leading_digits :: "nat \<Rightarrow> bytes \<Rightarrow> bytes" where
  "leading_digits k b = takeWhile xisdigit (take k b)"

definition decimal :: "bytes \<Rightarrow> nat" where
  "decimal ds = number_of 10 ds 0"

lemma leading_digits_le: "length (leading_digits k b) \<le> length b" "length (leading_digits k b) \<le> k"
  using length_takeWhile_le [of xisdigit "take k b"] by (simp_all add: leading_digits_def)

lemma leading_digits_append:
  "length (leading_digits k b) < length b \<Longrightarrow> leading_digits k (b @ c) = leading_digits k b"
proof (induction b arbitrary: k)
  case (Cons x b)
  then show ?case by (cases k) (auto simp: leading_digits_def)
qed (simp add: leading_digits_def)

lemma number_delim_eq:
  assumes "tok_ok t" "k \<le> 3"
  shows "number_delim cfg k t =
    (let ds = leading_digits k (tok_buf t); r = drop (length ds) (tok_buf t)
     in if ds \<noteq> [] \<and> r \<noteq> [] \<and> cs_index (DelimiterCharacters cfg) (hd r)
        then (Some (int (decimal ds)), advance t (length ds + 1))
        else (None, advance t (length ds)))"
proof -
  define ds where "ds = leading_digits k (tok_buf t)"
  have le: "length ds \<le> length (tok_buf t)" "length ds \<le> k"
    unfolding ds_def by (rule leading_digits_le)+
  have "list_all (is_digit_in 10) ds"
    by (auto simp: ds_def leading_digits_def is_digit_in_10 list_all_iff dest: set_takeWhileD)
  then have "number_of 10 ds 0 < 10 ^ length ds" using number_of_bound [of 10 ds 0] by simp
  also have "\<dots> \<le> 10 ^ 3" using le(2) assms(2) by (intro power_increasing) auto
  finally have v: "\<not> number_of 10 ds 0 > int64_max" by (simp add: int64_max_def)
  have i: "tok_int64 t 10 False k = (if ds = [] then (None, t) else (Some (int (decimal ds)), advance t (length ds)))"
    using tok_int64_unsigned [OF assms(1), of k 10] assms(2) v
    by (simp add: digits_in_def is_digit_in_10 ds_def leading_digits_def decimal_def Let_def)
  have ok: "tok_ok (advance t (length ds))" using assms(1) le by simp
  show ?thesis unfolding number_delim_def ds_def [symmetric] Let_def
    by (simp add: i tok_skipOne_eq [OF ok])
qed

lemma number_delim_append:
  assumes "tok_ok t" "k \<le> 3" "number_delim cfg k t = (Some v, t')"
    and u: "tok_ok u" "tok_buf u = tok_buf t @ c"
  shows "tok_ok t' \<and> (\<exists>u'. number_delim cfg k u = (Some v, u') \<and> tok_ok u' \<and> tok_buf u' = tok_buf t' @ c)"
proof -
  define ds where "ds = leading_digits k (tok_buf t)"
  have r: "ds \<noteq> []" "drop (length ds) (tok_buf t) \<noteq> []"
    "cs_index (DelimiterCharacters cfg) (hd (drop (length ds) (tok_buf t)))"
    "v = int (decimal ds)" "t' = advance t (length ds + 1)"
    using assms(3) unfolding number_delim_eq [OF assms(1,2)] Let_def ds_def [symmetric]
    by (auto split: if_splits)
  then have lt: "length ds < length (tok_buf t)" by simp
  then have "leading_digits k (tok_buf u) = ds" using u leading_digits_append by (simp add: ds_def)
  then have "number_delim cfg k u = (Some v, advance u (length ds + 1))"
    unfolding number_delim_eq [OF u(1) assms(2)] Let_def using r u by (simp add: hd_append)
  with lt u r(5) assms(1) show ?thesis by auto
qed

lemma ParseResponseStatus_range:
  "ParseResponseStatus cfg t code = (Inr u, t', k) \<Longrightarrow> 100 \<le> k \<and> k < 600"
  by (auto simp: ParseResponseStatus_def split: prod.splits option.splits if_splits)

lemma ParseResponseStatus_append:
  assumes "tok_ok t" "ParseResponseStatus cfg t code = (Inr x, t', k)"
    and u: "tok_ok u" "tok_buf u = tok_buf t @ c"
  shows "tok_ok t' \<and> (\<exists>u'. ParseResponseStatus cfg u code = (Inr (), u', k) \<and> tok_ok u' \<and> tok_buf u' = tok_buf t' @ c)"
proof -
  have n: "number_delim cfg 3 t = (Some k, t')" and k: "\<not> k \<le> 99" "\<not> 600 \<le> k"
    using assms(2) by (auto simp: ParseResponseStatus_def split: prod.splits option.splits if_splits)
  have three: "(3::nat) \<le> 3" by simp
  show ?thesis using number_delim_append [OF assms(1) three n u] k by (auto simp: ParseResponseStatus_def)
qed

lemma ParseResponseStatus_waits:
  "ParseResponseStatus cfg t code = (Inl InsufficientInput, t', k) \<Longrightarrow> k = code"
  by (auto simp: ParseResponseStatus_def split: prod.splits option.splits if_splits)

text \<open>The reason phrase and the line terminator, as a function of the buffer.\<close>

definition phrase_of :: "bytes \<Rightarrow> bytes" where
  "phrase_of b = takeWhile (cs_index phraseChars) b"

definition line_end :: "http_config \<Rightarrow> bytes \<Rightarrow> exn + bytes" where
  "line_end cfg r =
     (if relaxed cfg \<and> r \<noteq> [] \<and> hd r = LF then Inr (tl r)
      else if take 2 r = CrLf then Inr (drop 2 r)
      else if r = [] \<or> r = [CR] then Inl InsufficientInput
      else Inl (TextException ''cannot skip line-terminating CRLF''))"

lemma skipLineTerminator_eq:
  assumes "tok_ok t"
  shows "skipLineTerminator cfg t =
    (case line_end cfg (tok_buf t) of
       Inl e \<Rightarrow> (Inl e, t) | Inr r \<Rightarrow> (Inr (), advance t (length (tok_buf t) - length r)))"
proof -
  have crlf: "sb_ok CrLf" "CrLf \<noteq> []" "length CrLf = 2"
    by (simp_all add: CrLf_def sb_ok_def maxSize_def)
  have pre: "sb_startsWith CrLf (tok_buf t) True \<longleftrightarrow> take (length (tok_buf t)) CrLf = tok_buf t"
    using sb_startsWith_eq [OF crlf(1) tok_ok_sb_ok [OF assms]] .
  have sk: "tok_skip t CrLf = (if take 2 (tok_buf t) = CrLf then (True, advance t 2) else (False, t))"
    using tok_skip_eq [OF assms crlf(1)] crlf by simp
  have short: "take (length (tok_buf t)) CrLf = tok_buf t \<longleftrightarrow> tok_buf t = [] \<or> tok_buf t = [CR]"
    if "take 2 (tok_buf t) \<noteq> CrLf"
    using that by (cases "tok_buf t"; cases "tl (tok_buf t)") (auto simp: CrLf_def)
  have two: "length (tok_buf t) - (length (tok_buf t) - 2) = 2" if "take 2 (tok_buf t) = CrLf"
    using arg_cong [OF that, of length] crlf by simp
  show ?thesis
  proof (cases "relaxed cfg \<and> tok_buf t \<noteq> [] \<and> hd (tok_buf t) = LF")
    case True
    then have one: "length (tok_buf t) - length (tl (tok_buf t)) = 1" by (cases "tok_buf t") simp_all
    with True show ?thesis
      by (simp add: skipLineTerminator_def tok_skipOne_eq [OF assms] charset_simps line_end_def)
  next
    case False
    then have "skipLineTerminator cfg t = tok_skipRequired t ''line-terminating CRLF'' CrLf"
      by (auto simp: skipLineTerminator_def tok_skipOne_eq [OF assms] charset_simps)
    moreover have "line_end cfg (tok_buf t) =
        (if take 2 (tok_buf t) = CrLf then Inr (drop 2 (tok_buf t))
         else if tok_buf t = [] \<or> tok_buf t = [CR] then Inl InsufficientInput
         else Inl (TextException ''cannot skip line-terminating CRLF''))"
      using False by (auto simp: line_end_def)
    ultimately show ?thesis using two short by (simp add: tok_skipRequired_def sk pre crlf)
  qed
qed

lemma reason_field_eq:
  assumes "tok_ok t"
  shows "reason_field cfg t p =
    (let ph = phrase_of (tok_buf t);
         p1 = (if ph = [] then p else p\<lparr>rs_reasonPhrase := ph\<rparr>)
     in case line_end cfg (drop (length ph) (tok_buf t)) of
          Inl e \<Rightarrow> (Inl e, p1) | Inr r \<Rightarrow> (Inr (), p1\<lparr>hp_buf := r\<rparr>))"
proof -
  let ?b = "tok_buf t"
  define ph where "ph = phrase_of ?b"
  have le: "length ph \<le> length ?b" by (simp add: ph_def phrase_of_def length_takeWhile_le)
  have pre: "tok_prefix t phraseChars npos = (if ph = [] then (None, t) else (Some ph, advance t (length ph)))"
    using tok_prefix_npos [OF assms, of phraseChars] by (simp add: ph_def phrase_of_def Let_def)
  have ok: "tok_ok (advance t (length ph))" using assms le by simp
  have r: "drop (length x - length r) x = r" if "line_end cfg x = Inr r" for x r
    using that by (cases x; cases "tl x") (auto simp: line_end_def CrLf_def split: if_splits)
  show ?thesis
    unfolding reason_field_def pre ph_def [symmetric] Let_def
    using skipLineTerminator_eq [OF ok, of cfg] skipLineTerminator_eq [OF assms, of cfg]
    by (cases "ph = []") (auto split: sum.splits dest!: r simp: add.commute)
qed

lemma line_end_append: "line_end cfg r = Inr s \<Longrightarrow> line_end cfg (r @ c) = Inr (s @ c)"
  by (cases r; cases "tl r") (auto simp: line_end_def CrLf_def split: if_splits)

lemma phrase_of_append:
  "line_end cfg (drop (length (phrase_of b)) b) = Inr s \<Longrightarrow>
     phrase_of (b @ c) = phrase_of b \<and> drop (length (phrase_of b)) (b @ c) = drop (length (phrase_of b)) b @ c"
proof -
  assume "line_end cfg (drop (length (phrase_of b)) b) = Inr s"
  moreover have "line_end cfg [] = Inl InsufficientInput" by (simp add: line_end_def CrLf_def)
  ultimately have ne: "dropWhile (cs_index phraseChars) b \<noteq> []"
    by (metis Inl_Inr_False drop_length_takeWhile phrase_of_def)
  then have "\<exists>x\<in>set b. \<not> cs_index phraseChars x" by (simp add: dropWhile_eq_Nil_conv)
  then have "phrase_of (b @ c) = phrase_of b" by (auto simp: phrase_of_def takeWhile_append)
  moreover have "length (phrase_of b) \<le> length b" by (simp add: phrase_of_def length_takeWhile_le)
  ultimately show ?thesis by simp
qed

lemma reason_field_append:
  assumes "tok_ok t" "reason_field cfg t p = (Inr x, q)" "tok_ok u" "tok_buf u = tok_buf t @ c"
  shows "reason_field cfg u (p\<lparr>hp_buf := b\<rparr>) = (Inr (), q\<lparr>hp_buf := hp_buf q @ c\<rparr>)"
proof -
  let ?ph = "phrase_of (tok_buf t)"
  obtain s where s: "line_end cfg (drop (length ?ph) (tok_buf t)) = Inr s"
    and q: "q = (if ?ph = [] then p else p\<lparr>rs_reasonPhrase := ?ph\<rparr>)\<lparr>hp_buf := s\<rparr>"
    using assms(2) unfolding reason_field_eq [OF assms(1)] Let_def by (auto split: sum.splits)
  show ?thesis unfolding reason_field_eq [OF assms(3)] Let_def
    using phrase_of_append [OF s, of c] line_end_append [OF s, of c] by (simp add: assms(4) q)
qed

lemma reason_field_buf: "tok_ok t \<Longrightarrow> tok_ok u \<Longrightarrow> tok_buf t = tok_buf u \<Longrightarrow> reason_field cfg t p = reason_field cfg u p"
  by (simp add: reason_field_eq)

lemma reason_field_frame:
  assumes "tok_ok t" "reason_field cfg t p = (r, q)"
  shows "hp_stage q = hp_stage p \<and> hp_proto q = hp_proto p \<and> rs_completedStatus q = rs_completedStatus p \<and>
    rs_statusCode q = rs_statusCode p \<and> hp_status q = hp_status p \<and>
    (r = Inl InsufficientInput \<longrightarrow> hp_buf q = hp_buf p \<and> q\<lparr>rs_reasonPhrase := []\<rparr> = p\<lparr>rs_reasonPhrase := []\<rparr>)"
  using assms(2) unfolding reason_field_eq [OF assms(1)] Let_def
  by (cases "phrase_of (tok_buf t) = []") (auto split: sum.splits)

section \<open>A response split over several reads\<close>

text \<open>
  While the status line is incomplete, the reason phrase is empty, and a status code has
  been accepted only if it is one of the five defined classes.
\<close>

definition good_code :: "response_parser \<Rightarrow> bool" where
  "good_code p \<longleftrightarrow> 100 \<le> rs_statusCode p \<and> rs_statusCode p < 600"

definition response_inv :: "response_parser \<Rightarrow> bool" where
  "response_inv p \<longleftrightarrow>
     (rs_completedStatus p \<longrightarrow> good_code p \<and> pv_protocol (hp_proto p) \<noteq> PROTO_NONE) \<and>
     (hp_stage p \<in> {HTTP_PARSE_NONE, HTTP_PARSE_FIRST} \<longrightarrow> rs_reasonPhrase p = []) \<and>
     (hp_stage p = HTTP_PARSE_MIME \<longrightarrow> good_code p) \<and>
     (hp_stage p = HTTP_PARSE_DONE \<longrightarrow> good_code p \<or> hp_status p \<noteq> scNone) \<and>
     (hp_stage p \<noteq> HTTP_PARSE_DONE \<longrightarrow> hp_status p = scNone) \<and>
     hp_stage p \<in> {HTTP_PARSE_NONE, HTTP_PARSE_FIRST, HTTP_PARSE_MIME, HTTP_PARSE_DONE}"

lemma status_field_append:
  assumes t: "tok_ok t" "tok_buf t = hp_buf p" and run: "status_field cfg t p = (Inr x, t1, p1)"
    and u: "tok_ok u" "tok_buf u = tok_buf t @ c"
  shows "\<exists>u1. status_field cfg u (p\<lparr>hp_buf := tok_buf u\<rparr>) = (Inr (), u1, p1\<lparr>hp_buf := tok_buf u1\<rparr>) \<and>
           tok_ok u1 \<and> tok_buf u1 = tok_buf t1 @ c"
proof (cases "rs_completedStatus p")
  case True
  with run u show ?thesis by (auto simp: status_field_def)
next
  case False
  with run obtain k where k: "ParseResponseStatus cfg t (rs_statusCode p) = (Inr (), t1, k)"
    and p1: "p1 = p\<lparr>rs_statusCode := k, hp_buf := tok_buf t1, rs_completedStatus := True\<rparr>"
    by (auto simp: status_field_def split: prod.splits sum.splits)
  from ParseResponseStatus_append [OF t(1) k u] obtain u1 where
    "ParseResponseStatus cfg u (rs_statusCode p) = (Inr (), u1, k)" "tok_ok u1" "tok_buf u1 = tok_buf t1 @ c"
    by blast
  with False p1 show ?thesis by (auto simp: status_field_def)
qed

lemma status_field_done:
  assumes t: "tok_ok t" "tok_buf t = hp_buf p" and run: "status_field cfg t p = (Inr x, t1, p1)"
    and inv: "rs_completedStatus p \<longrightarrow> good_code p"
  shows "tok_ok t1 \<and> hp_buf p1 = tok_buf t1 \<and> rs_completedStatus p1 \<and> good_code p1 \<and>
    hp_stage p1 = hp_stage p \<and> hp_proto p1 = hp_proto p \<and> hp_status p1 = hp_status p \<and>
    rs_reasonPhrase p1 = rs_reasonPhrase p"
proof (cases "rs_completedStatus p")
  case False
  with run obtain k where k: "ParseResponseStatus cfg t (rs_statusCode p) = (Inr (), t1, k)"
    and p1: "p1 = p\<lparr>rs_statusCode := k, hp_buf := tok_buf t1, rs_completedStatus := True\<rparr>"
    by (auto simp: status_field_def split: prod.splits sum.splits)
  have "tok_ok t1" using ParseResponseStatus_append [OF t(1) k t(1), of "[]"] by simp
  with k p1 ParseResponseStatus_range [OF k] show ?thesis by (simp add: good_code_def)
qed (use assms in \<open>auto simp: status_field_def\<close>)

lemma status_field_fails:
  "status_field cfg t p = (Inl e, t1, p1) \<Longrightarrow>
     \<not> rs_completedStatus p \<and> (\<exists>k. p1 = p\<lparr>rs_statusCode := k\<rparr>) \<and> (e = InsufficientInput \<longrightarrow> p1 = p)"
  using ParseResponseStatus_waits [of cfg t "rs_statusCode p"]
  by (auto simp: status_field_def split: prod.splits sum.splits if_splits)

lemma statusAndReason_frame:
  assumes t: "tok_ok t" "tok_buf t = hp_buf p"
    and run: "parseResponseStatusAndReason cfg t p = (rc, q)"
    and inv: "rs_completedStatus p \<longrightarrow> good_code p" "rs_reasonPhrase p = []"
  shows "hp_stage q = hp_stage p \<and> hp_proto q = hp_proto p \<and> hp_status q = hp_status p \<and>
    (rs_completedStatus q \<longrightarrow> good_code q) \<and> (rc \<ge> 0 \<longrightarrow> rc = 0 \<and> rs_reasonPhrase q = [] \<or> rc = 1 \<and> good_code q)"
proof -
  obtain r t1 p1 where s: "status_field cfg t p = (r, t1, p1)" by (metis prod_cases3)
  show ?thesis
  proof (cases r)
    case (Inl e)
    with run s status_field_fails [of cfg t p e t1 p1] inv show ?thesis
      by (cases e) (auto simp: parseResponseStatusAndReason_def)
  next
    case (Inr x)
    note d = status_field_done [OF t s [unfolded Inr] inv(1)]
    then have ok1: "tok_ok t1" by blast
    obtain r2 q2 where r2: "reason_field cfg t1 p1 = (r2, q2)" by fastforce
    note f = reason_field_frame [OF ok1 r2]
    from d f have g: "good_code q2" by (simp add: good_code_def)
    from run s Inr r2 d f g show ?thesis
      by (auto simp: parseResponseStatusAndReason_def good_code_def split: sum.splits exn.splits)
  qed
qed

lemma statusAndReason_append:
  assumes t: "tok_ok t" "tok_buf t = hp_buf p"
    and run: "parseResponseStatusAndReason cfg t p = (1, q)"
    and inv: "rs_completedStatus p \<longrightarrow> good_code p"
    and u: "tok_ok u" "tok_buf u = tok_buf t @ c"
  shows "parseResponseStatusAndReason cfg u (p\<lparr>hp_buf := tok_buf u\<rparr>) = (1, q\<lparr>hp_buf := hp_buf q @ c\<rparr>)"
proof -
  obtain t1 p1 where s: "status_field cfg t p = (Inr (), t1, p1)" and r: "reason_field cfg t1 p1 = (Inr (), q)"
    using run by (auto simp: parseResponseStatusAndReason_def split: prod.splits sum.splits exn.splits)
  have ok1: "tok_ok t1" using status_field_done [OF t s inv] by blast
  obtain u1 where u1: "status_field cfg u (p\<lparr>hp_buf := tok_buf u\<rparr>) = (Inr (), u1, p1\<lparr>hp_buf := tok_buf u1\<rparr>)"
    "tok_ok u1" "tok_buf u1 = tok_buf t1 @ c"
    using status_field_append [OF t s u] by blast
  show ?thesis using u1(1) reason_field_append [OF ok1 r u1(2,3), of "tok_buf u1"]
    by (simp add: parseResponseStatusAndReason_def)
qed

text \<open>The outcome depends on the bytes in the tokenizer only, not on its byte counter.\<close>

lemma ParseResponseStatus_buf:
  assumes "tok_ok t" "tok_ok u" "tok_buf t = tok_buf u" "ParseResponseStatus cfg t code = (r, t1, k)"
  shows "\<exists>u1. ParseResponseStatus cfg u code = (r, u1, k) \<and> tok_buf u1 = tok_buf t1 \<and> (r = Inr () \<longrightarrow> tok_ok u1)"
proof -
  obtain v t2 where n: "number_delim cfg 3 t = (v, t2)" by fastforce
  define ds where "ds = leading_digits 3 (tok_buf u)"
  have "\<exists>m. t2 = advance t m \<and> number_delim cfg 3 u = (v, advance u m) \<and> (v \<noteq> None \<longrightarrow> m \<le> length (tok_buf u))"
    using n number_delim_eq [OF assms(1), of 3 cfg] number_delim_eq [OF assms(2), of 3 cfg] assms(3)
    by (auto simp: Let_def split: if_splits)
  then obtain m where m: "t2 = advance t m" "number_delim cfg 3 u = (v, advance u m)"
    "v \<noteq> None \<longrightarrow> m \<le> length (tok_buf u)" by blast
  show ?thesis using assms n m
    by (auto simp: ParseResponseStatus_def tok_atEnd_def split: option.splits if_splits)
qed

lemma statusAndReason_buf:
  assumes "tok_ok t" "tok_ok u" "tok_buf t = tok_buf u"
  shows "parseResponseStatusAndReason cfg t p = parseResponseStatusAndReason cfg u p"
proof (cases "rs_completedStatus p")
  case True
  then show ?thesis using reason_field_buf [OF assms]
    by (simp add: parseResponseStatusAndReason_def status_field_def)
next
  case False
  obtain r t1 k where s: "ParseResponseStatus cfg t (rs_statusCode p) = (r, t1, k)" by (metis prod_cases3)
  from ParseResponseStatus_buf [OF assms s] obtain u1 where
    u1: "ParseResponseStatus cfg u (rs_statusCode p) = (r, u1, k)" "tok_buf u1 = tok_buf t1" "r = Inr () \<longrightarrow> tok_ok u1"
    by blast
  show ?thesis
  proof (cases r)
    case (Inr x)
    then have "tok_ok t1"
      using ParseResponseStatus_append [OF assms(1) _ assms(1), of cfg "rs_statusCode p" x t1 k "[]"] s by simp
    with reason_field_buf [of t1 u1] u1 Inr s False show ?thesis
      by (simp add: parseResponseStatusAndReason_def status_field_def)
  qed (use s u1 False in \<open>simp add: parseResponseStatusAndReason_def status_field_def\<close>)
qed

lemma statusAndReason_resumes:
  assumes t: "tok_ok t" "tok_buf t = hp_buf p"
    and run: "parseResponseStatusAndReason cfg t p = (0, q)"
    and inv: "rs_completedStatus p \<longrightarrow> good_code p" "rs_reasonPhrase p = []"
    and u: "tok_ok u" "tok_buf u = tok_buf t @ c"
  shows "parseResponseStatusAndReason cfg u (p\<lparr>hp_buf := tok_buf u\<rparr>) =
     parseResponseStatusAndReason cfg (tok_new (hp_buf q @ c)) (q\<lparr>hp_buf := hp_buf q @ c\<rparr>)"
proof -
  obtain r t1 p1 where s: "status_field cfg t p = (r, t1, p1)" by (metis prod_cases3)
  show ?thesis
  proof (cases r)
    case (Inl e)
    with run s have e: "e = InsufficientInput" and q: "q = p1\<lparr>rs_reasonPhrase := []\<rparr>"
      by (auto simp: parseResponseStatusAndReason_def split: exn.splits)
    with status_field_fails [of cfg t p e t1 p1] s Inl have "p1 = p" by simp
    with q inv have qp: "q = p" by simp
    have "tok_ok (tok_new (hp_buf q @ c))" using tok_ok_sb_ok [OF u(1)] u(2) t(2) by (simp add: qp)
    with statusAndReason_buf [OF u(1), of "tok_new (hp_buf q @ c)"] u t qp show ?thesis by simp
  next
    case (Inr x)
    note d = status_field_done [OF t s [unfolded Inr] inv(1)]
    then have ok1: "tok_ok t1" by blast
    obtain r2 q2 where r2: "reason_field cfg t1 p1 = (r2, q2)" by fastforce
    with run s Inr have "r2 = Inl InsufficientInput" "q = q2\<lparr>rs_reasonPhrase := []\<rparr>"
      by (auto simp: parseResponseStatusAndReason_def split: sum.splits exn.splits)
    then have q: "q = p1" using reason_field_frame [OF ok1 r2] d inv(2) by simp
    obtain u1 where u1: "status_field cfg u (p\<lparr>hp_buf := tok_buf u\<rparr>) = (Inr (), u1, p1\<lparr>hp_buf := tok_buf u1\<rparr>)"
      "tok_ok u1" "tok_buf u1 = tok_buf t1 @ c"
      using status_field_append [OF t s [unfolded Inr] u] by blast
    have "tok_ok (tok_new (tok_buf t1 @ c))" using tok_ok_sb_ok [OF u1(2)] u1(3) by simp
    with reason_field_buf [OF u1(2) this] u1 d show ?thesis
      by (simp add: parseResponseStatusAndReason_def q status_field_def)
  qed
qed

text \<open>What precedes the status code: a resumed line, one of the two magic prefixes, or neither.\<close>

definition magic_step :: "http_config \<Rightarrow> response_parser \<Rightarrow> (tokenizer \<times> response_parser) option" where
  "magic_step cfg p =
     (let tok = tok_new (hp_buf p) in
      if pv_protocol (hp_proto p) \<noteq> PROTO_NONE then Some (tok, p)
      else case tok_skip tok Http1magic of
        (True, tok1) \<Rightarrow>
          (case number_delim cfg 1 tok1 of
             (Some verMinor, tok3) \<Rightarrow>
               Some (tok3, p\<lparr>hp_proto := \<lparr>pv_protocol = PROTO_HTTP, pv_major = 1, pv_minor = nat verMinor\<rparr>,
                              hp_buf := tok_buf tok3\<rparr>)
           | (None, tok3) \<Rightarrow> None)
      | (False, tok1) \<Rightarrow>
          case tok_skip tok1 IcyMagic of
            (True, tok2) \<Rightarrow>
              Some (tok2, p\<lparr>hp_proto := (hp_proto p)\<lparr>pv_protocol := PROTO_ICY\<rparr>, hp_buf := tok_buf tok2\<rparr>)
          | (False, tok2) \<Rightarrow> None)"

lemma magic_ok: "sb_ok Http1magic" "sb_ok IcyMagic" "Http1magic \<noteq> []" "IcyMagic \<noteq> []"
  by (simp_all add: Http1magic_def IcyMagic_def sb_ok_def maxSize_def)

lemma tok_skip_append:
  assumes "tok_ok t" "sb_ok m" "m \<noteq> []" "tok_skip t m = (True, t1)" "tok_ok u" "tok_buf u = tok_buf t @ c"
  shows "tok_ok t1 \<and> (\<exists>u1. tok_skip u m = (True, u1) \<and> tok_ok u1 \<and> tok_buf u1 = tok_buf t1 @ c)"
proof -
  have eq: "take (length m) (tok_buf t) = m" "t1 = advance t (length m)"
    using assms by (auto simp: tok_skip_eq split: if_splits)
  then have "length m \<le> length (tok_buf t)" by (metis length_take min.cobounded1 min.commute)
  with eq assms show ?thesis by (simp add: tok_skip_eq)
qed

lemma magics_differ:
  assumes "sb_ok b" "tok_skip (tok_new b) IcyMagic = (True, t1)"
  shows "tok_skip (tok_new (b @ c)) Http1magic = (False, tok_new (b @ c)) \<or> \<not> sb_ok (b @ c)"
proof (cases "sb_ok (b @ c)")
  case True
  have "take 4 b = IcyMagic" using assms magic_ok
    by (auto simp: tok_skip_eq IcyMagic_def eval_nat_numeral split: if_splits)
  then obtain r where "b = IcyMagic @ r" by (metis append_take_drop_id)
  with True show ?thesis by (simp add: tok_skip_eq magic_ok) (simp add: IcyMagic_def Http1magic_def)
qed simp

lemma magic_step_append:
  assumes ok: "sb_ok (hp_buf p @ c)" and m: "magic_step cfg p = Some (t, p1)"
  shows "tok_ok t \<and> tok_buf t = hp_buf p1 \<and>
    (\<exists>u. magic_step cfg (p\<lparr>hp_buf := hp_buf p @ c\<rparr>) = Some (u, p1\<lparr>hp_buf := tok_buf u\<rparr>) \<and>
         tok_ok u \<and> tok_buf u = tok_buf t @ c)"
proof -
  let ?t = "tok_new (hp_buf p)" and ?u = "tok_new (hp_buf p @ c)"
  have okb: "sb_ok (hp_buf p)" using ok by (simp add: sb_ok_def)
  have okt: "tok_ok ?t" and oku: "tok_ok ?u" using ok okb by simp_all
  have bu: "tok_buf ?u = tok_buf ?t @ c" by simp
  obtain b1 t1 where s1: "tok_skip ?t Http1magic = (b1, t1)" by fastforce
  obtain v t3 where s3: "number_delim cfg 1 t1 = (v, t3)" by fastforce
  consider (resumed) "pv_protocol (hp_proto p) \<noteq> PROTO_NONE"
    | (http) "pv_protocol (hp_proto p) = PROTO_NONE" "b1"
    | (icy) "pv_protocol (hp_proto p) = PROTO_NONE" "\<not> b1" by blast
  then show ?thesis
  proof cases
    case resumed
    with m okt oku show ?thesis by (auto simp: magic_step_def Let_def)
  next
    case http
    with m s1 s3 obtain x where x: "v = Some x" "t = t3"
      "p1 = p\<lparr>hp_proto := \<lparr>pv_protocol = PROTO_HTTP, pv_major = 1, pv_minor = nat x\<rparr>, hp_buf := tok_buf t3\<rparr>"
      by (auto simp: magic_step_def Let_def split: option.splits)
    from tok_skip_append [OF okt magic_ok(1,3) _ oku bu, of t1] s1 http obtain u1 where
      u1: "tok_ok t1" "tok_skip ?u Http1magic = (True, u1)" "tok_ok u1" "tok_buf u1 = tok_buf t1 @ c" by auto
    from number_delim_append [OF u1(1) _ s3 [unfolded x(1)] u1(3,4)] obtain u3 where
      "tok_ok t3" "number_delim cfg 1 u1 = (Some x, u3)" "tok_ok u3" "tok_buf u3 = tok_buf t3 @ c" by auto
    with http u1 x show ?thesis by (auto simp: magic_step_def Let_def)
  next
    case icy
    then have t1: "t1 = ?t" using s1 okt magic_ok by (auto simp: tok_skip_eq split: if_splits)
    obtain b2 t2 where s2: "tok_skip ?t IcyMagic = (b2, t2)" by fastforce
    with m icy s1 t1 have b2: "b2" "t = t2"
      "p1 = p\<lparr>hp_proto := (hp_proto p)\<lparr>pv_protocol := PROTO_ICY\<rparr>, hp_buf := tok_buf t2\<rparr>"
      by (auto simp: magic_step_def Let_def split: bool.splits)
    from tok_skip_append [OF okt magic_ok(2,4) _ oku bu, of t2] s2 b2 obtain u2 where
      "tok_ok t2" "tok_skip ?u IcyMagic = (True, u2)" "tok_ok u2" "tok_buf u2 = tok_buf t2 @ c" by auto
    moreover have "tok_skip ?u Http1magic = (False, ?u)"
      using magics_differ [OF okb, of t2 c] s2 b2 ok by simp
    ultimately show ?thesis using icy b2 by (auto simp: magic_step_def Let_def)
  qed
qed

lemma parseResponseFirstLine_cases:
  assumes "sb_ok (hp_buf p)" "parseResponseFirstLine cfg p = (rc, q)"
  obtains (fields) t p1 where "magic_step cfg p = Some (t, p1)" "parseResponseStatusAndReason cfg t p1 = (rc, q)"
    | (wait) "magic_step cfg p = None" "rc = 0" "q = p"
    | (bad) "magic_step cfg p = None" "rc = -1" "q = p"
    | (http09) "magic_step cfg p = None" "rc = 1"
        "q = p\<lparr>hp_proto := HttpVersion 1 1, rs_statusCode := int scOkay, rs_reasonPhrase := ''Gatewaying'',
               hp_mime := fakeHttpMimeBlock, hp_stage := HTTP_PARSE_DONE\<rparr>"
  using assms(2)
  by (cases "magic_step cfg p")
    (auto simp: parseResponseFirstLine_def magic_step_def Let_def split: if_splits prod.splits bool.splits option.splits)

lemma number_delim_drop: "tok_ok t \<Longrightarrow> k \<le> 3 \<Longrightarrow> \<exists>n. tok_buf (snd (number_delim cfg k t)) = drop n (tok_buf t)"
  by (auto simp: number_delim_eq Let_def intro: exI [of _ 0])

lemma tok_skip_drop: "tok_ok t \<Longrightarrow> sb_ok m \<Longrightarrow> \<exists>n. tok_buf (snd (tok_skip t m)) = drop n (tok_buf t)"
  by (auto simp: tok_skip_eq intro: exI [of _ 0])

lemma line_end_drop: "line_end cfg b = Inr r \<Longrightarrow> \<exists>n. r = drop n b"
  by (auto simp: line_end_def split: if_splits intro: exI [of _ 1] simp: drop_Suc)

lemma reason_field_drop:
  assumes "tok_ok t" "reason_field cfg t p = (r, q)" "tok_buf t = hp_buf p"
  shows "\<exists>n. hp_buf q = drop n (hp_buf p)"
proof (cases "line_end cfg (drop (length (phrase_of (tok_buf t))) (tok_buf t))")
  case (Inl e)
  with assms show ?thesis unfolding reason_field_eq [OF assms(1)] Let_def by (auto intro: exI [of _ 0])
next
  case (Inr s)
  with assms line_end_drop [OF Inr] show ?thesis unfolding reason_field_eq [OF assms(1)] Let_def by auto
qed

lemma status_field_drop:
  assumes "tok_ok t" "status_field cfg t p = (r, t1, p1)" "tok_buf t = hp_buf p"
  shows "\<exists>n. hp_buf p1 = drop n (hp_buf p)"
proof -
  obtain n where n: "tok_buf (snd (number_delim cfg 3 t)) = drop n (tok_buf t)"
    using number_delim_drop [OF assms(1), of 3] by auto
  have "fst (snd (ParseResponseStatus cfg t k)) = snd (number_delim cfg 3 t)" for k
    by (auto simp: ParseResponseStatus_def split: prod.splits option.splits)
  then have "hp_buf p1 = hp_buf p \<or> hp_buf p1 = drop n (tok_buf t)"
    using assms(2) n by (auto simp: status_field_def split: if_splits prod.splits sum.splits) (metis fst_conv snd_conv)
  with assms(3) show ?thesis by (metis drop0)
qed

lemma statusAndReason_drop:
  assumes t: "tok_ok t" "tok_buf t = hp_buf p" and run: "parseResponseStatusAndReason cfg t p = (rc, q)"
    and inv: "rs_completedStatus p \<longrightarrow> good_code p"
  shows "\<exists>n. hp_buf q = drop n (hp_buf p)"
proof -
  obtain r t1 p1 where s: "status_field cfg t p = (r, t1, p1)" by (metis prod_cases3)
  obtain n where n: "hp_buf p1 = drop n (hp_buf p)" using status_field_drop [OF t(1) s t(2)] by blast
  show ?thesis
  proof (cases r)
    case (Inl e)
    with run s n show ?thesis by (cases e) (auto simp: parseResponseStatusAndReason_def)
  next
    case (Inr x)
    note d = status_field_done [OF t s [unfolded Inr] inv]
    obtain r2 q2 where r2: "reason_field cfg t1 p1 = (r2, q2)" by fastforce
    with reason_field_drop [of t1 cfg p1 r2 q2] d obtain m where "hp_buf q2 = drop m (hp_buf p1)" by auto
    with run s Inr r2 n show ?thesis
      by (auto simp: parseResponseStatusAndReason_def split: sum.splits exn.splits)
  qed
qed

lemma magic_step_drop:
  assumes "sb_ok (hp_buf p)" "magic_step cfg p = Some (t, p1)"
  shows "\<exists>n. hp_buf p1 = drop n (hp_buf p)"
proof -
  let ?t = "tok_new (hp_buf p)"
  have ok: "tok_ok ?t" using assms(1) by simp
  obtain b t1 where s1: "tok_skip ?t Http1magic = (b, t1)" by fastforce
  obtain b2 t2 where s2: "tok_skip t1 IcyMagic = (b2, t2)" by fastforce
  obtain v t3 where s3: "number_delim cfg 1 t1 = (v, t3)" by fastforce
  have ok1: "tok_ok t1" using tok_skip_append [OF ok magic_ok(1,3) _ ok, of t1 "[]"] s1 ok
    by (cases b) (auto simp: tok_skip_eq magic_ok split: if_splits)
  obtain n where n: "tok_buf t1 = drop n (hp_buf p)" using tok_skip_drop [OF ok magic_ok(1)] s1 by auto
  obtain m k where "tok_buf t2 = drop m (tok_buf t1)" "tok_buf t3 = drop k (tok_buf t1)"
    using tok_skip_drop [OF ok1 magic_ok(2)] s2 number_delim_drop [OF ok1, of 1 cfg] s3 by auto
  with n assms(2) s1 s2 s3 show ?thesis
    by (auto simp: magic_step_def Let_def split: if_splits bool.splits option.splits intro: exI [of _ 0])
qed

lemma magic_step_proto:
  "magic_step cfg p = Some (t, p1) \<Longrightarrow>
     pv_protocol (hp_proto p1) \<noteq> PROTO_NONE \<and> hp_stage p1 = hp_stage p \<and> hp_status p1 = hp_status p \<and>
     rs_completedStatus p1 = rs_completedStatus p \<and> rs_statusCode p1 = rs_statusCode p \<and>
     rs_reasonPhrase p1 = rs_reasonPhrase p"
  by (auto simp: magic_step_def Let_def split: if_splits prod.splits bool.splits option.splits)

lemma magic_step_ok: "sb_ok (hp_buf p) \<Longrightarrow> magic_step cfg p = Some (t, p1) \<Longrightarrow> tok_ok t \<and> tok_buf t = hp_buf p1"
  using magic_step_append [of p "[]"] by simp

lemma firstLine_fields:
  "magic_step cfg p = Some (t, p1) \<Longrightarrow> parseResponseFirstLine cfg p = parseResponseStatusAndReason cfg t p1"
  by (auto simp: parseResponseFirstLine_def magic_step_def Let_def
      split: if_splits prod.splits bool.splits option.splits)

lemma firstLine_resumed:
  "pv_protocol (hp_proto p) \<noteq> PROTO_NONE \<Longrightarrow>
     parseResponseFirstLine cfg p = parseResponseStatusAndReason cfg (tok_new (hp_buf p)) p"
  by (simp add: parseResponseFirstLine_def Let_def)

lemma firstLine_resumes:
  assumes ok: "sb_ok (hp_buf p @ c)" and inv: "response_inv p" "hp_stage p = HTTP_PARSE_FIRST"
    and run: "parseResponseFirstLine cfg p = (0, q)"
  shows "parseResponseFirstLine cfg (q\<lparr>hp_buf := hp_buf q @ c\<rparr>) = parseResponseFirstLine cfg (p\<lparr>hp_buf := hp_buf p @ c\<rparr>)"
proof -
  have okb: "sb_ok (hp_buf p)" using ok by (simp add: sb_ok_def)
  from okb run show ?thesis
  proof (rule parseResponseFirstLine_cases)
    fix t p1 assume m: "magic_step cfg p = Some (t, p1)" and sr: "parseResponseStatusAndReason cfg t p1 = (0, q)"
    note pr = magic_step_proto [OF m]
    have i1: "rs_completedStatus p1 \<longrightarrow> good_code p1" "rs_reasonPhrase p1 = []"
      using inv pr by (auto simp: response_inv_def good_code_def)
    obtain u where t: "tok_ok t" "tok_buf t = hp_buf p1"
      and u: "magic_step cfg (p\<lparr>hp_buf := hp_buf p @ c\<rparr>) = Some (u, p1\<lparr>hp_buf := tok_buf u\<rparr>)" "tok_ok u" "tok_buf u = tok_buf t @ c"
      using magic_step_append [OF ok m] by blast
    have "pv_protocol (hp_proto q) \<noteq> PROTO_NONE" using statusAndReason_frame [OF t sr i1] pr by simp
    then show ?thesis
      using firstLine_fields [OF u(1)] statusAndReason_resumes [OF t sr i1 u(2,3)]
      by (simp add: firstLine_resumed)
  qed simp_all
qed

lemma firstLine_append:
  assumes ok: "sb_ok (hp_buf p @ c)" and inv: "response_inv p" "hp_stage p = HTTP_PARSE_FIRST"
    and run: "parseResponseFirstLine cfg p = (1, q)" "hp_stage q = HTTP_PARSE_FIRST"
  shows "parseResponseFirstLine cfg (p\<lparr>hp_buf := hp_buf p @ c\<rparr>) = (1, q\<lparr>hp_buf := hp_buf q @ c\<rparr>)"
proof -
  have okb: "sb_ok (hp_buf p)" using ok by (simp add: sb_ok_def)
  from okb run(1) show ?thesis
  proof (rule parseResponseFirstLine_cases)
    fix t p1 assume m: "magic_step cfg p = Some (t, p1)" and sr: "parseResponseStatusAndReason cfg t p1 = (1, q)"
    have i1: "rs_completedStatus p1 \<longrightarrow> good_code p1"
      using inv magic_step_proto [OF m] by (auto simp: response_inv_def good_code_def)
    obtain u where t: "tok_ok t" "tok_buf t = hp_buf p1"
      and u: "magic_step cfg (p\<lparr>hp_buf := hp_buf p @ c\<rparr>) = Some (u, p1\<lparr>hp_buf := tok_buf u\<rparr>)" "tok_ok u" "tok_buf u = tok_buf t @ c"
      using magic_step_append [OF ok m] by blast
    show ?thesis using firstLine_fields [OF u(1)] statusAndReason_append [OF t sr i1 u(2,3)] by simp
  qed (use run(2) in auto)
qed

lemma firstLine_inv:
  assumes ok: "sb_ok (hp_buf p)" and inv: "response_inv p" "hp_stage p = HTTP_PARSE_FIRST"
    and run: "parseResponseFirstLine cfg p = (rc, q)"
  shows "hp_status q = scNone \<and>
    (rc \<ge> 0 \<longrightarrow> rc = 0 \<and> hp_stage q = HTTP_PARSE_FIRST \<and> response_inv q \<or>
       rc = 1 \<and> good_code q \<and> hp_stage q = HTTP_PARSE_FIRST \<and> pv_protocol (hp_proto q) \<noteq> PROTO_NONE \<or>
       rc = 1 \<and> good_code q \<and> hp_stage q = HTTP_PARSE_DONE \<and> response_inv q) \<and>
    (rs_completedStatus q \<longrightarrow> good_code q \<and> pv_protocol (hp_proto q) \<noteq> PROTO_NONE)"
  using ok run
proof (rule parseResponseFirstLine_cases)
  fix t p1 assume m: "magic_step cfg p = Some (t, p1)" and sr: "parseResponseStatusAndReason cfg t p1 = (rc, q)"
  note pr = magic_step_proto [OF m]
  have i1: "rs_completedStatus p1 \<longrightarrow> good_code p1" "rs_reasonPhrase p1 = []"
    using inv pr by (auto simp: response_inv_def good_code_def)
  have t: "tok_ok t" "tok_buf t = hp_buf p1" using magic_step_ok [OF ok m] by auto
  from statusAndReason_frame [OF t sr i1] pr inv show ?thesis by (auto simp: response_inv_def)
next
  assume *: "rc = 1" "q = p\<lparr>hp_proto := HttpVersion 1 1, rs_statusCode := int scOkay,
      rs_reasonPhrase := ''Gatewaying'', hp_mime := fakeHttpMimeBlock, hp_stage := HTTP_PARSE_DONE\<rparr>"
  with inv show ?thesis by (auto simp: response_inv_def good_code_def scOkay_def HttpVersion_def)
qed (use inv in \<open>auto simp: response_inv_def\<close>)

lemma response_line_drop:
  assumes ok: "sb_ok (hp_buf p)" and inv: "response_inv p" and run: "parseResponseFirstLine cfg p = (rc, q)"
  shows "\<exists>n. hp_buf q = drop n (hp_buf p)"
  using ok run
proof (rule parseResponseFirstLine_cases)
  fix t p1 assume m: "magic_step cfg p = Some (t, p1)" and sr: "parseResponseStatusAndReason cfg t p1 = (rc, q)"
  have i1: "rs_completedStatus p1 \<longrightarrow> good_code p1"
    using inv magic_step_proto [OF m] by (auto simp: response_inv_def good_code_def)
  have t: "tok_ok t" "tok_buf t = hp_buf p1" using magic_step_ok [OF ok m] by auto
  from statusAndReason_drop [OF t sr i1] magic_step_drop [OF ok m] show ?thesis by auto
qed (auto intro: exI [of _ 0])

lemma response_mime_stage_outcome:
  assumes ok: "sb_ok (hp_buf p)" and st: "hp_stage p = HTTP_PARSE_MIME" and inv: "response_inv p"
    and run: "response_mime_stage cfg p = (r, q)"
  shows "response_inv q \<and> (r \<longrightarrow> hp_stage q = HTTP_PARSE_DONE \<and> good_code q \<and> hp_status q = scNone) \<and>
    (\<not> r \<longrightarrow> q = p \<or> hp_stage q = HTTP_PARSE_DONE \<and> hp_status q = scHeaderTooLarge)"
proof -
  obtain b x where g: "grabMimeBlock (response_firstLineSize p) (maxReplyHeaderSize cfg) p = (b, x)" by fastforce
  from g show ?thesis
    by (rule grabMimeBlock_cases [OF ok])
      (use run st inv g in \<open>auto simp: response_mime_stage_def response_inv_def good_code_def needsMoreData_def status_defs\<close>)
qed

text \<open>The verdict on a response, and how the stages resume.\<close>

definition response_verdict :: "bool \<Rightarrow> response_parser \<Rightarrow> bool" where
  "response_verdict r q \<longleftrightarrow>
     response_inv q \<and>
     (r \<longrightarrow> hp_stage q = HTTP_PARSE_DONE \<and> good_code q \<and> hp_status q = scNone) \<and>
     (\<not> r \<longrightarrow> needsMoreData q \<or> hp_status q = scInvalidHeader \<or> hp_status q = scHeaderTooLarge)"

lemma response_line_stage_verdict:
  assumes ok: "sb_ok (hp_buf p)" and inv: "response_inv p"
    and st: "hp_stage p \<in> {HTTP_PARSE_FIRST, HTTP_PARSE_MIME}"
    and run: "response_line_stage cfg p = (r, q)"
  shows "response_verdict r q"
proof (cases "hp_stage p = HTTP_PARSE_FIRST")
  case False
  with st run have "hp_stage p = HTTP_PARSE_MIME" "response_mime_stage cfg p = (r, q)"
    by (auto simp: response_line_stage_def)
  from response_mime_stage_outcome [OF ok this(1) inv this(2)] this(1) show ?thesis
    by (auto simp: response_verdict_def needsMoreData_def)
next
  case True
  obtain rc p1 where f: "parseResponseFirstLine cfg p = (rc, p1)" by fastforce
  note o = firstLine_inv [OF ok inv True f]
  consider (err) "rc < 0" | (more) "rc = 0" "hp_stage p1 = HTTP_PARSE_FIRST" "response_inv p1"
    | (mime) "rc = 1" "good_code p1" "hp_stage p1 = HTTP_PARSE_FIRST" "pv_protocol (hp_proto p1) \<noteq> PROTO_NONE"
    | (final) "rc = 1" "good_code p1" "hp_stage p1 = HTTP_PARSE_DONE" "response_inv p1"
    using o by linarith
  then show ?thesis
  proof cases
    case err
    with run True f o show ?thesis
      by (auto simp: response_line_stage_def Let_def response_verdict_def response_inv_def good_code_def status_defs)
  next
    case more
    with run True f show ?thesis
      by (auto simp: response_line_stage_def Let_def response_mime_stage_def response_verdict_def needsMoreData_def)
  next
    case mime
    define p2 where "p2 = p1\<lparr>hp_stage := HTTP_PARSE_MIME\<rparr>"
    obtain n where n: "hp_buf p1 = drop n (hp_buf p)"
      using response_line_drop [OF ok inv f] by blast
    have "response_inv p2" using mime o by (auto simp: p2_def response_inv_def good_code_def)
    moreover have "response_mime_stage cfg p2 = (r, q)" using run True f mime
      by (simp add: response_line_stage_def p2_def)
    moreover have "sb_ok (hp_buf p2)" using n ok by (simp add: p2_def)
    ultimately show ?thesis using response_mime_stage_outcome [of p2 cfg r q]
      by (auto simp: p2_def response_verdict_def needsMoreData_def)
  next
    case final
    with run True f o show ?thesis
      by (auto simp: response_line_stage_def Let_def response_mime_stage_def response_verdict_def needsMoreData_def)
  qed
qed

lemma response_line_stage_resumes:
  assumes ok: "sb_ok (hp_buf p @ c)" and inv: "response_inv p"
    and st: "hp_stage p \<in> {HTTP_PARSE_FIRST, HTTP_PARSE_MIME}"
    and run: "response_line_stage cfg p = (r, q)" and wait: "needsMoreData q"
  shows "hp_stage q \<in> {HTTP_PARSE_FIRST, HTTP_PARSE_MIME} \<and>
    response_line_stage cfg (q\<lparr>hp_buf := hp_buf q @ c\<rparr>) = response_line_stage cfg (p\<lparr>hp_buf := hp_buf p @ c\<rparr>)"
proof -
  have okb: "sb_ok (hp_buf p)" using ok by (simp add: sb_ok_def)
  have mime_wait: "q = p'" if "sb_ok (hp_buf p')" "hp_stage p' = HTTP_PARSE_MIME"
    "response_mime_stage cfg p' = (r, q)" for p'
  proof -
    obtain b x where g: "grabMimeBlock (response_firstLineSize p') (maxReplyHeaderSize cfg) p' = (b, x)" by fastforce
    from g show ?thesis
      by (rule grabMimeBlock_cases [OF that(1)])
        (use that wait g in \<open>auto simp: response_mime_stage_def needsMoreData_def split: bool.splits\<close>)
  qed
  show ?thesis
  proof (cases "hp_stage p = HTTP_PARSE_FIRST")
    case False
    with st run have "hp_stage p = HTTP_PARSE_MIME" "response_mime_stage cfg p = (r, q)"
      by (auto simp: response_line_stage_def)
    with mime_wait [OF okb] show ?thesis by simp
  next
    case True
    obtain rc p1 where f: "parseResponseFirstLine cfg p = (rc, p1)" by fastforce
    note o = firstLine_inv [OF okb inv True f]
    have rc: "rc \<ge> 0" using run True f wait
      by (auto simp: response_line_stage_def Let_def needsMoreData_def split: if_splits)
    show ?thesis
    proof (cases "rc = 0")
      case zero: True
      with run True f o have q: "q = p1" "hp_stage q = HTTP_PARSE_FIRST"
        by (auto simp: response_line_stage_def Let_def response_mime_stage_def)
      have r: "parseResponseFirstLine cfg (p1\<lparr>hp_buf := hp_buf p1 @ c\<rparr>) = parseResponseFirstLine cfg (p\<lparr>hp_buf := hp_buf p @ c\<rparr>)"
        using firstLine_resumes [OF ok inv True f [unfolded zero]] .
      show ?thesis using q True by (simp add: response_line_stage_def r)
    next
      case False
      with rc o have rc1: "rc = 1" by auto
      have fin: "hp_stage p1 = HTTP_PARSE_FIRST"
        using o rc1 run True f wait
        by (auto simp: response_line_stage_def Let_def response_mime_stage_def needsMoreData_def)
      define p2 where "p2 = p1\<lparr>hp_stage := HTTP_PARSE_MIME\<rparr>"
      have "sb_ok (hp_buf p2)" using response_line_drop [OF okb inv f] okb by (auto simp: p2_def)
      moreover have "response_mime_stage cfg p2 = (r, q)"
        using run True f rc1 fin by (simp add: response_line_stage_def p2_def)
      ultimately have q: "q = p2" by (intro mime_wait) (simp_all add: p2_def)
      have "parseResponseFirstLine cfg (p\<lparr>hp_buf := hp_buf p @ c\<rparr>) = (1, p1\<lparr>hp_buf := hp_buf p1 @ c\<rparr>)"
        using firstLine_append [OF ok inv True _ fin] f rc1 by simp
      then have "response_line_stage cfg (p\<lparr>hp_buf := hp_buf p @ c\<rparr>) = response_mime_stage cfg (p2\<lparr>hp_buf := hp_buf p1 @ c\<rparr>)"
        using True fin by (simp add: response_line_stage_def p2_def stage_buf_commute)
      then show ?thesis by (simp add: q response_line_stage_def) (simp add: p2_def)
    qed
  qed
qed

lemma response_inv_new: "response_inv response_parser_new"
  by (simp add: response_inv_def response_parser_new_def)

lemma response_inv_buf [simp]: "response_inv (p\<lparr>hp_buf := b\<rparr>) = response_inv p"
  by (simp add: response_inv_def good_code_def)


text \<open>C14. Response parsing, too, is independent of how the bytes were split into reads: continuing a parser that
  waits for data with the unread and any further bytes gives the result and the state of one
  call on all the bytes.\<close>

theorem response_incremental:
  assumes ok: "sb_ok (b @ c)" and inv: "response_inv p" "needsMoreData p"
    and run: "response_parse cfg b p = (r, q)" and wait: "needsMoreData q"
  shows "response_parse cfg (hp_buf q @ c) q = response_parse cfg (b @ c) p"
proof -
  consider (empty) "hp_stage p = HTTP_PARSE_NONE" "b = []" | (start) "hp_stage p = HTTP_PARSE_NONE" "b \<noteq> []"
    | (later) "hp_stage p \<in> {HTTP_PARSE_FIRST, HTTP_PARSE_MIME}"
    using inv by (auto simp: response_inv_def needsMoreData_def)
  then show ?thesis
  proof cases
    case empty
    with run have "q = p\<lparr>hp_buf := []\<rparr>" by (simp add: response_parse_def)
    with empty show ?thesis by (simp add: response_parse_def Let_def)
  next
    case start
    let ?p = "p\<lparr>hp_buf := b, hp_stage := HTTP_PARSE_FIRST\<rparr>"
    from start run have line: "response_line_stage cfg ?p = (r, q)" by (simp add: response_parse_def)
    have i: "response_inv ?p" using inv start by (auto simp: response_inv_def good_code_def)
    have "sb_ok (hp_buf ?p @ c)" using ok by simp
    from response_line_stage_resumes [OF this i _ line wait] start show ?thesis
      by (auto simp: response_parse_def Let_def stage_buf_commute)
  next
    case later
    let ?p = "p\<lparr>hp_buf := b\<rparr>"
    from later run have line: "response_line_stage cfg ?p = (r, q)" by (auto simp: response_parse_def)
    have i: "response_inv ?p" using inv by simp
    have "sb_ok (hp_buf ?p @ c)" using ok by simp
    from response_line_stage_resumes [OF this i _ line wait] later show ?thesis
      by (auto simp: response_parse_def Let_def)
  qed
qed

section \<open>Well-formed responses\<close>

definition status_line :: "char \<Rightarrow> bytes \<Rightarrow> bytes \<Rightarrow> bytes" where
  "status_line d code phrase = ''HTTP/1.'' @ [d, SP] @ code @ [SP] @ phrase @ [CR, LF]"

definition is_status_code :: "bytes \<Rightarrow> bool" where
  "is_status_code code \<longleftrightarrow> length code = 3 \<and> list_all xisdigit code \<and> 100 \<le> decimal code \<and> decimal code < 600"

definition is_phrase :: "bytes \<Rightarrow> bool" where
  "is_phrase ph \<longleftrightarrow> list_all (cs_index phraseChars) ph"

lemma number_delim_accepts:
  assumes "tok_ok t" "tok_buf t = ds @ [SP] @ r" "list_all xisdigit ds" "ds \<noteq> []" "length ds = k" "k \<le> 3"
  shows "\<exists>t'. number_delim cfg k t = (Some (int (decimal ds)), t') \<and> tok_ok t' \<and> tok_buf t' = r"
proof -
  have "take k (tok_buf t) = ds" using assms by simp
  then have ds: "leading_digits k (tok_buf t) = ds"
    using assms(3) by (simp add: leading_digits_def takeWhile_eq_all_conv list_all_iff)
  have "number_delim cfg k t = (Some (int (decimal ds)), advance t (length ds + 1))"
    unfolding number_delim_eq [OF assms(1,6)] ds Let_def using assms(2,4) by (simp add: charset_simps)
  then show ?thesis using assms(1,2) by simp
qed

lemma phraseChars_not_CR: "\<not> cs_index phraseChars CR"
  by (simp add: phraseChars_def charset_simps)

lemma statusAndReason_accepts:
  assumes t: "tok_ok t" "tok_buf t = code @ [SP] @ ph @ [CR, LF] @ rest" "tok_buf t = hp_buf p"
    and code: "is_status_code code" and ph: "is_phrase ph"
    and p: "\<not> rs_completedStatus p" "rs_reasonPhrase p = []"
  shows "parseResponseStatusAndReason cfg t p =
    (1, p\<lparr>rs_statusCode := int (decimal code), rs_completedStatus := True, rs_reasonPhrase := ph, hp_buf := rest\<rparr>)"
proof -
  have "code \<noteq> []" using code by (auto simp: is_status_code_def)
  then obtain t1 where t1: "number_delim cfg 3 t = (Some (int (decimal code)), t1)" "tok_ok t1"
    "tok_buf t1 = ph @ [CR, LF] @ rest"
    using number_delim_accepts [OF t(1,2), of 3 cfg] code by (auto simp: is_status_code_def)
  have st: "ParseResponseStatus cfg t (rs_statusCode p) = (Inr (), t1, int (decimal code))"
    using code t1(1) by (simp add: ParseResponseStatus_def is_status_code_def)
  have phr: "phrase_of (tok_buf t1) = ph"
    using ph phraseChars_not_CR
    by (simp add: t1(3) phrase_of_def is_phrase_def list_all_iff takeWhile_stop)
  have le: "line_end cfg ([CR, LF] @ rest) = Inr rest" by (simp add: line_end_def CrLf_def)
  show ?thesis
    using st p t1(3) le phr by (auto simp: parseResponseStatusAndReason_def status_field_def
        reason_field_eq [OF t1(2)] Let_def)
qed

lemma parseResponseFirstLine_accepts:
  assumes "sb_ok (hp_buf p)" "hp_buf p = status_line d code ph @ rest" "xisdigit d"
    and code: "is_status_code code" and ph: "is_phrase ph"
    and p: "pv_protocol (hp_proto p) = PROTO_NONE" "\<not> rs_completedStatus p" "rs_reasonPhrase p = []"
  shows "parseResponseFirstLine cfg p =
    (1, p\<lparr>hp_proto := HttpVersion 1 (decimal [d]), rs_statusCode := int (decimal code),
          rs_completedStatus := True, rs_reasonPhrase := ph, hp_buf := rest\<rparr>)"
proof -
  let ?t = "tok_new (hp_buf p)"
  have ok: "tok_ok ?t" using assms(1) by simp
  define t1 where "t1 = advance ?t 7"
  have sk: "tok_skip ?t Http1magic = (True, t1)" and t1: "tok_ok t1" "tok_buf t1 = [d] @ [SP] @ code @ [SP] @ ph @ [CR, LF] @ rest"
    using tok_skip_eq [OF ok magic_ok(1)] ok
    by (simp_all add: t1_def Http1magic_def assms(2) status_line_def eval_nat_numeral)
  obtain t2 where t2: "number_delim cfg 1 t1 = (Some (int (decimal [d])), t2)" "tok_ok t2"
    "tok_buf t2 = code @ [SP] @ ph @ [CR, LF] @ rest"
    using number_delim_accepts [OF t1, of 1 cfg] assms(3) by auto
  show ?thesis
    using statusAndReason_accepts [OF t2(2,3) _ code ph, of "p\<lparr>hp_proto := HttpVersion 1 (decimal [d]), hp_buf := tok_buf t2\<rparr>" cfg] p sk t2
    by (simp add: parseResponseFirstLine_def HttpVersion_def)
qed


section \<open>Correctness of the response parser\<close>


theorem response_incremental_witness:
  "let q = snd (response_parse (sample_config 0) ''HTT'' response_parser_new)
   in response_parse (sample_config 0) (hp_buf q @ ''P/1.1 200 OK'') q =
      response_parse (sample_config 0) ''HTTP/1.1 200 OK'' response_parser_new"
proof -
  have new: "response_inv response_parser_new" "needsMoreData response_parser_new"
    by (rule response_inv_new, simp add: needsMoreData_def response_parser_new_def)
  have wait: "needsMoreData (snd (response_parse (sample_config 0) ''HTT'' response_parser_new))"
    by (simp add: response_parse_def response_line_stage_def response_mime_stage_def parseResponseFirstLine_def tok_skip_eq
        sb_startsWith_eq Http1magic_def IcyMagic_def response_parser_new_def noVersion_def needsMoreData_def sb_ok_def maxSize_def)
  show ?thesis
    using response_incremental [of "''HTT''" "''P/1.1 200 OK''", OF _ new surjective_pairing wait]
    by (simp add: sb_ok_def maxSize_def)
qed


end
