(* ===== verification/Http1_Request.thy ===== *)
theory Http1_Request
  imports Http1_Parser
begin

text \<open>
  The HTTP/1 request parser, \<^verbatim>\<open>src/http/one/RequestParser.cc\<close>: the record
  \<open>request_parser\<close> extends \<open>http1\<close> as the class extends \<^verbatim>\<open>Http1::Parser\<close>,
  and there is one definition per method.  The lemmas classify the outcomes of a call of
  \<^verbatim>\<open>parse()\<close>, show that it only ever removes a prefix of its input, that a well-formed
  request is parsed into the fields it was made of, and that a request split over
  several reads is parsed as if it had arrived at once.
\<close>

section \<open>The parser\<close>

record request_parser = http1 +
  rq_method :: request_method
  rq_uri :: bytes
  rq_parsed :: bytes
  rq_preserveParsed :: bool

definition request_parser_new :: "bool \<Rightarrow> request_parser" where
  "request_parser_new preserve =
     \<lparr>hp_buf = [], hp_stage = HTTP_PARSE_NONE, hp_proto = noVersion, hp_mime = [],
      hp_hackExpectsMime = False, hp_status = scNone,
      rq_method = no_method, rq_uri = [], rq_parsed = [], rq_preserveParsed = preserve\<rparr>"

definition request_clear :: "request_parser \<Rightarrow> request_parser" where
  "request_clear p = request_parser_new False"

definition request_firstLineSize :: "http_config \<Rightarrow> request_parser \<Rightarrow> nat" where
  "request_firstLineSize cfg p =
     uadd32 (uadd32 (length (method_image cfg (rq_method p))) (length (rq_uri p))) 12"

fun garbage_loop :: "bytes \<Rightarrow> bytes" where
  "garbage_loop [] = []"
| "garbage_loop (c # cs) =
     (if c = LF \<or> (c = CR \<and> cs \<noteq> [] \<and> hd cs = LF) then garbage_loop cs else c # cs)"

definition skipGarbageLines :: "http_config \<Rightarrow> request_parser \<Rightarrow> request_parser" where
  "skipGarbageLines cfg p =
     (if relaxed cfg then p\<lparr>hp_buf := garbage_loop (hp_buf p)\<rparr> else p)"

definition skipDelimiter :: "http_config \<Rightarrow> nat \<Rightarrow> request_parser \<Rightarrow> bool \<times> request_parser" where
  "skipDelimiter cfg count p =
     (if count \<le> 0 then (False, p\<lparr>hp_status := scBadRequest\<rparr>)
      else if count > 1 \<and> \<not> relaxed cfg then (False, p\<lparr>hp_status := scBadRequest\<rparr>)
      else (True, p))"

definition maxMethodLength :: nat where "maxMethodLength = 32"

definition parseMethodField ::
  "http_config \<Rightarrow> tokenizer \<Rightarrow> request_parser \<Rightarrow> bool \<times> tokenizer \<times> request_parser" where
  "parseMethodField cfg tok p =
     (case tok_prefix tok cs_TCHAR maxMethodLength of
        (None, tok1) \<Rightarrow> (False, tok1, p\<lparr>hp_status := scBadRequest\<rparr>)
      | (Some methodFound, tok1) \<Rightarrow>
          let p1 = p\<lparr>rq_method := method_of_sbuf cfg methodFound\<rparr> in
          case tok_skipAll tok1 (DelimiterCharacters cfg) of (count, tok2) \<Rightarrow>
          case skipDelimiter cfg count p1 of (ok, p2) \<Rightarrow> (ok, tok2, p2))"

definition UriValidCharacters :: charset where
  "UriValidCharacters =
     cs_union (cs_union (cs_union (cs_union (cs_union
       (cs_of_string ''URI-Chars'' [])
       (cs_of_string ''gen-delims'' '':/?#[]@''))
       (cs_of_string ''sub-delims'' (''!$&'' @ [CHR 0x27] @ ''()*+,;='')))
       cs_RFC3986_UNRESERVED)
       (cs_of_string ''pct-encoded'' ''%''))
       cs_HEXDIG"

definition RequestTargetCharacters :: "http_config \<Rightarrow> charset" where
  "RequestTargetCharacters cfg =
     (if relaxed cfg then
        (if use_http_violations cfg then
           cs_union (cs_union (cs_union UriValidCharacters (DelimiterCharacters cfg))
             (cs_of_string ''RFC2396-unwise'' ([CHR 0x22, CHR 0x5C] @ ''|^<>`{}'')))
             (cs_of_range ''UTF-8'' 128 255)
         else cs_union UriValidCharacters (DelimiterCharacters cfg))
      else UriValidCharacters)"

definition maxUriLength :: nat where "maxUriLength = 64 * 1024 - 1"

definition parseUriField ::
  "http_config \<Rightarrow> tokenizer \<Rightarrow> request_parser \<Rightarrow> bool \<times> tokenizer \<times> request_parser" where
  "parseUriField cfg tok p =
     (case tok_prefix tok (RequestTargetCharacters cfg) npos of
        (None, tok1) \<Rightarrow> (False, tok1, p\<lparr>hp_status := scBadRequest\<rparr>)
      | (Some uriFound, tok1) \<Rightarrow>
          if length uriFound > maxUriLength then (False, tok1, p\<lparr>hp_status := scUriTooLong\<rparr>)
          else (True, tok1, p\<lparr>rq_uri := uriFound\<rparr>))"

definition digit_of :: "char \<Rightarrow> nat" where
  "digit_of c = of_char c - 48"

text \<open>The four tokenizer calls of the general version syntax, with their short-circuit evaluation.\<close>

definition versionSuffix :: "tokenizer \<Rightarrow> (bytes \<times> bytes) option \<times> tokenizer" where
  "versionSuffix tok =
     (case tok_suffix tok cs_DIGIT npos of
        (None, tok1) \<Rightarrow> (None, tok1)
      | (Some minorDigit, tok1) \<Rightarrow>
          case tok_skipOneTrailing tok1 (cs_of_string ''Decimal point'' ''.'') of
            (False, tok2) \<Rightarrow> (None, tok2)
          | (True, tok2) \<Rightarrow>
              case tok_suffix tok2 cs_DIGIT npos of
                (None, tok3) \<Rightarrow> (None, tok3)
              | (Some majorDigit, tok3) \<Rightarrow>
                  case tok_skipSuffix tok3 ''HTTP/'' of
                    (False, tok4) \<Rightarrow> (None, tok4)
                  | (True, tok4) \<Rightarrow> (Some (majorDigit, minorDigit), tok4))"

definition parseHttpVersionField ::
  "http_config \<Rightarrow> tokenizer \<Rightarrow> request_parser \<Rightarrow> bool \<times> tokenizer \<times> request_parser" where
  "parseHttpVersionField cfg savedTok p =
     (case tok_skipSuffix savedTok ''HTTP/1.1'' of
        (True, tok1) \<Rightarrow> (True, tok1, p\<lparr>hp_proto := HttpVersion 1 1\<rparr>)
      | (False, tok1) \<Rightarrow>
          case tok_skipSuffix tok1 ''HTTP/1.0'' of
            (True, tok2) \<Rightarrow> (True, tok2, p\<lparr>hp_proto := HttpVersion 1 0\<rparr>)
          | (False, tok2) \<Rightarrow>
              case versionSuffix tok2 of
                (Some (majorDigit, minorDigit), tok3) \<Rightarrow>
                  let multiDigits = (length majorDigit > 1 \<or> length minorDigit > 1);
                      major = (if multiDigits then 0 else digit_of (hd majorDigit));
                      minor = (if multiDigits then 0 else digit_of (hd minorDigit))
                  in (True, tok3, p\<lparr>hp_proto := HttpVersion major minor\<rparr>)
              | (None, tok3) \<Rightarrow>
                  if theMethod (rq_method p) = METHOD_GET
                  then (True, savedTok, p\<lparr>hp_proto := HttpVersion 0 9\<rparr>)
                  else (False, tok3, p\<lparr>hp_status := scBadRequest\<rparr>))"

definition http0 :: "request_parser \<Rightarrow> bool" where
  "http0 p = (pv_major (hp_proto p) = 0)"

definition skipTrailingCrs ::
  "http_config \<Rightarrow> tokenizer \<Rightarrow> request_parser \<Rightarrow> bool \<times> tokenizer \<times> request_parser" where
  "skipTrailingCrs cfg tok p =
     (if relaxed cfg then (True, snd (tok_skipAllTrailing tok cs_CR), p)
      else case tok_skipOneTrailing tok cs_CR of
        (False, tok1) \<Rightarrow> (False, tok1, p\<lparr>hp_status := scBadRequest\<rparr>)
      | (True, tok1) \<Rightarrow> (True, tok1, p))"

definition notLF :: charset where
  "notLF = cs_complement cs_LF ''notLF''"

text \<open>The fields of one complete request line, given without its line feed.\<close>

definition field_then ::
  "bool \<times> tokenizer \<times> request_parser \<Rightarrow> (tokenizer \<Rightarrow> request_parser \<Rightarrow> bool \<times> request_parser) \<Rightarrow>
     bool \<times> request_parser" where
  "field_then result rest =
     (case result of (False, _, p) \<Rightarrow> (False, p) | (True, tok, p) \<Rightarrow> rest tok p)"

definition skipVersionDelimiter ::
  "http_config \<Rightarrow> tokenizer \<Rightarrow> request_parser \<Rightarrow> bool \<times> tokenizer \<times> request_parser" where
  "skipVersionDelimiter cfg tok p =
     (if http0 p then (True, tok, p)
      else case tok_skipAllTrailing tok (DelimiterCharacters cfg) of (count, tok1) \<Rightarrow>
           case skipDelimiter cfg count p of (ok, p1) \<Rightarrow> (ok, tok1, p1))"

definition parseRequestLine :: "http_config \<Rightarrow> bytes \<Rightarrow> request_parser \<Rightarrow> bool \<times> request_parser" where
  "parseRequestLine cfg line p =
     field_then (parseMethodField cfg (tok_new line) p) (\<lambda>tok1 p1.
     field_then (skipTrailingCrs cfg tok1 p1) (\<lambda>tok2 p2.
     field_then (parseHttpVersionField cfg tok2 p2) (\<lambda>tok3 p3.
     field_then (skipVersionDelimiter cfg tok3 p3) (\<lambda>tok4 p4.
     field_then (parseUriField cfg tok4 p4) (\<lambda>tok5 p5.
       if \<not> tok_atEnd tok5 then (False, p5\<lparr>hp_status := scBadRequest\<rparr>)
       else (True, p5))))))"

definition parseRequestFirstLine :: "http_config \<Rightarrow> request_parser \<Rightarrow> int \<times> request_parser" where
  "parseRequestFirstLine cfg p =
     (case (case tok_prefix (tok_new (hp_buf p)) notLF npos of
              (None, _) \<Rightarrow> None
            | (Some line, lineTok) \<Rightarrow>
                (case tok_skip_char lineTok LF of
                   (False, _) \<Rightarrow> None
                 | (True, lineTok1) \<Rightarrow> Some (line, lineTok1))) of
        None \<Rightarrow>
          if length (hp_buf p) \<ge> maxRequestHeaderSize cfg then
            (case parseMethodField cfg (tok_new (hp_buf p)) p of
               (False, _, p1) \<Rightarrow> (-1, p1)
             | (True, _, p1) \<Rightarrow> (-1, p1\<lparr>hp_status := scUriTooLong\<rparr>))
          else (0, p)
      | Some (line, lineTok) \<Rightarrow>
          case parseRequestLine cfg line p of
            (False, p1) \<Rightarrow> (-1, p1)
          | (True, p1) \<Rightarrow> (1, p1\<lparr>hp_status := scOkay, hp_buf := tok_buf lineTok\<rparr>))"

text \<open>Stages 2 and 3 of \<^verbatim>\<open>doParse()\<close>.\<close>

definition request_mime_stage :: "http_config \<Rightarrow> request_parser \<Rightarrow> bool \<times> request_parser" where
  "request_mime_stage cfg p =
     (if hp_stage p = HTTP_PARSE_MIME then
        (case grabMimeBlock (request_firstLineSize cfg p) (maxRequestHeaderSize cfg) p of
           (False, p1) \<Rightarrow>
             (False, if hp_status p1 = scHeaderTooLarge
                     then p1\<lparr>hp_status := scRequestHeaderFieldsTooLarge\<rparr> else p1)
         | (True, p1) \<Rightarrow> (\<not> needsMoreData p1, p1))
      else (\<not> needsMoreData p, p))"

definition request_line_stage :: "http_config \<Rightarrow> request_parser \<Rightarrow> bool \<times> request_parser" where
  "request_line_stage cfg p =
     (if hp_stage p = HTTP_PARSE_FIRST then
        (case parseRequestFirstLine cfg p of (retcode, p1) \<Rightarrow>
           let p2 = (if retcode > 0 then p1\<lparr>hp_stage := HTTP_PARSE_MIME\<rparr> else p1)
           in if retcode < 0 then (False, p2\<lparr>hp_stage := HTTP_PARSE_DONE\<rparr>)
              else request_mime_stage cfg p2)
      else request_mime_stage cfg p)"

definition request_doParse :: "http_config \<Rightarrow> bytes \<Rightarrow> request_parser \<Rightarrow> bool \<times> request_parser" where
  "request_doParse cfg aBuf p0 =
     (let p = p0\<lparr>hp_buf := aBuf\<rparr>
      in if hp_stage p = HTTP_PARSE_NONE then
           (let p1 = skipGarbageLines cfg p
            in if hp_buf p1 \<noteq> [] then request_line_stage cfg (p1\<lparr>hp_stage := HTTP_PARSE_FIRST\<rparr>)
               else (False, p1))
         else request_line_stage cfg p)"

definition request_parse :: "http_config \<Rightarrow> bytes \<Rightarrow> request_parser \<Rightarrow> (exn + bool) \<times> request_parser" where
  "request_parse cfg aBuf p =
     (case request_doParse cfg aBuf p of (result, p1) \<Rightarrow>
        if rq_preserveParsed p1 then
          (if length aBuf \<ge> length (hp_buf p1)
           then (Inr result,
                 p1\<lparr>rq_parsed := rq_parsed p1 @ sb_substr aBuf 0 (length aBuf - length (hp_buf p1))\<rparr>)
           else (Inl (AssertFailure ''aBuf.length() >= remaining().length()''), p1))
        else (Inr result, p1))"

section \<open>What the field parsers leave alone\<close>

text \<open>The part of the state that parsing a request line does not touch.\<close>

definition same_input :: "request_parser \<Rightarrow> request_parser \<Rightarrow> bool" where
  "same_input p p' \<longleftrightarrow>
     hp_buf p' = hp_buf p \<and> hp_stage p' = hp_stage p \<and> hp_mime p' = hp_mime p \<and>
     hp_hackExpectsMime p' = hp_hackExpectsMime p \<and> rq_parsed p' = rq_parsed p \<and>
     rq_preserveParsed p' = rq_preserveParsed p"

definition bad_status :: "nat \<Rightarrow> bool" where
  "bad_status st \<longleftrightarrow> st = scBadRequest \<or> st = scUriTooLong"

lemma same_input_refl [simp]: "same_input p p"
  by (simp add: same_input_def)

lemma same_input_trans [trans]: "same_input p q \<Longrightarrow> same_input q r \<Longrightarrow> same_input p r"
  by (simp add: same_input_def)

lemma same_input_update [simp]:
  "same_input p (q\<lparr>hp_status := x\<rparr>) = same_input p q"
  "same_input p (q\<lparr>hp_proto := v\<rparr>) = same_input p q"
  "same_input p (q\<lparr>rq_method := m\<rparr>) = same_input p q"
  "same_input p (q\<lparr>rq_uri := u\<rparr>) = same_input p q"
  by (auto simp: same_input_def)

lemma bad_status_simps [simp]: "bad_status scBadRequest" "bad_status scUriTooLong"
  by (simp_all add: bad_status_def)

lemma skipDelimiter_frame:
  "skipDelimiter cfg n p = (ok, p') \<Longrightarrow> same_input p p' \<and> (\<not> ok \<longrightarrow> bad_status (hp_status p'))"
  by (auto simp: skipDelimiter_def split: if_splits)

lemma parseMethodField_frame:
  "parseMethodField cfg tok p = (ok, tok', p') \<Longrightarrow>
     same_input p p' \<and> (\<not> ok \<longrightarrow> bad_status (hp_status p'))"
  by (auto simp: parseMethodField_def Let_def split: prod.splits option.splits dest!: skipDelimiter_frame)
    (auto simp: same_input_def)

lemma parseUriField_frame:
  "parseUriField cfg tok p = (ok, tok', p') \<Longrightarrow>
     same_input p p' \<and> (\<not> ok \<longrightarrow> bad_status (hp_status p'))"
  by (auto simp: parseUriField_def split: prod.splits option.splits if_splits)

lemma parseHttpVersionField_frame:
  "parseHttpVersionField cfg tok p = (ok, tok', p') \<Longrightarrow>
     same_input p p' \<and> (\<not> ok \<longrightarrow> bad_status (hp_status p')) \<and> (ok \<longrightarrow> pv_protocol (hp_proto p') = PROTO_HTTP)"
  by (auto simp: parseHttpVersionField_def Let_def HttpVersion_def
      split: prod.splits option.splits if_splits bool.splits)

lemma skipTrailingCrs_frame:
  "skipTrailingCrs cfg tok p = (ok, tok', p') \<Longrightarrow>
     same_input p p' \<and> (\<not> ok \<longrightarrow> bad_status (hp_status p'))"
  by (auto simp: skipTrailingCrs_def split: prod.splits if_splits bool.splits)

lemma skipVersionDelimiter_frame:
  "skipVersionDelimiter cfg tok p = (ok, tok', p') \<Longrightarrow>
     same_input p p' \<and> (\<not> ok \<longrightarrow> bad_status (hp_status p'))"
  by (auto simp: skipVersionDelimiter_def split: prod.splits if_splits dest!: skipDelimiter_frame)

lemma field_then_frame:
  assumes "field_then r k = (ok, p')"
    and "\<And>b tok p1. r = (b, tok, p1) \<Longrightarrow> same_input p p1 \<and> (\<not> b \<longrightarrow> bad_status (hp_status p1))"
    and "\<And>tok p1 b p2. k tok p1 = (b, p2) \<Longrightarrow> same_input p1 p2 \<and> (\<not> b \<longrightarrow> bad_status (hp_status p2))"
  shows "same_input p p' \<and> (\<not> ok \<longrightarrow> bad_status (hp_status p'))"
  using assms by (cases r) (auto simp: field_then_def split: bool.splits intro: same_input_trans)

lemma parseRequestLine_frame:
  "parseRequestLine cfg line p = (ok, p') \<Longrightarrow> same_input p p' \<and> (\<not> ok \<longrightarrow> bad_status (hp_status p'))"
  unfolding parseRequestLine_def
  by (erule field_then_frame, erule parseMethodField_frame,
      erule field_then_frame, erule skipTrailingCrs_frame,
      erule field_then_frame, use parseHttpVersionField_frame in blast,
      erule field_then_frame, erule skipVersionDelimiter_frame,
      erule field_then_frame, erule parseUriField_frame)
    (auto split: if_splits)

section \<open>The request line ends at the first line feed\<close>

definition has_line :: "bytes \<Rightarrow> bool" where
  "has_line b \<longleftrightarrow> LF \<in> set b \<and> hd b \<noteq> LF"

definition first_line :: "bytes \<Rightarrow> bytes" where
  "first_line b = takeWhile (\<lambda>c. c \<noteq> LF) b"

definition after_line :: "bytes \<Rightarrow> bytes" where
  "after_line b = tl (dropWhile (\<lambda>c. c \<noteq> LF) b)"

lemma has_line_append: "has_line b \<Longrightarrow> has_line (b @ c)"
  by (cases b) (auto simp: has_line_def)

lemma first_line_append: "has_line b \<Longrightarrow> first_line (b @ c) = first_line b"
  by (auto simp: has_line_def first_line_def takeWhile_append)

lemma after_line_append: "has_line b \<Longrightarrow> after_line (b @ c) = after_line b @ c"
proof -
  assume "has_line b"
  then have "dropWhile (\<lambda>c. c \<noteq> LF) b \<noteq> []" by (auto simp: has_line_def dropWhile_eq_Nil_conv)
  with \<open>has_line b\<close> show ?thesis by (auto simp: has_line_def after_line_def dropWhile_append)
qed

lemma after_line_drop: "\<exists>n. after_line b = drop n b"
  unfolding after_line_def
  by (metis drop_Suc drop_drop drop_length_takeWhile drop0)

lemma parseRequestFirstLine_eq:
  assumes "sb_ok (hp_buf p)"
  shows "parseRequestFirstLine cfg p =
    (if has_line (hp_buf p) then
       (case parseRequestLine cfg (first_line (hp_buf p)) p of
          (False, p1) \<Rightarrow> (-1, p1)
        | (True, p1) \<Rightarrow> (1, p1\<lparr>hp_status := scOkay, hp_buf := after_line (hp_buf p)\<rparr>))
     else if length (hp_buf p) \<ge> maxRequestHeaderSize cfg then
       (case parseMethodField cfg (tok_new (hp_buf p)) p of
          (False, _, p1) \<Rightarrow> (-1, p1)
        | (True, _, p1) \<Rightarrow> (-1, p1\<lparr>hp_status := scUriTooLong\<rparr>))
     else (0, p))"
proof -
  let ?b = "hp_buf p" and ?t = "tok_new (hp_buf p)"
  define n where "n = length (first_line ?b)"
  have nl: "cs_index notLF = (\<lambda>c. c \<noteq> LF)" by (rule ext) (simp add: notLF_def charset_simps)
  have ok: "tok_ok ?t" using assms by simp
  have pre: "tok_prefix ?t notLF npos =
      (if first_line ?b = [] then (None, ?t) else (Some (first_line ?b), advance ?t n))"
    by (simp add: tok_prefix_npos [OF ok] nl first_line_def n_def Let_def)
  have le: "n \<le> length ?b" by (simp add: n_def first_line_def length_takeWhile_le)
  have dr: "drop n ?b = dropWhile (\<lambda>c. c \<noteq> LF) ?b" by (simp add: n_def first_line_def drop_length_takeWhile)
  have dw: "dropWhile (\<lambda>c. c \<noteq> LF) ?b \<noteq> [] \<Longrightarrow> hd (dropWhile (\<lambda>c. c \<noteq> LF) ?b) = LF"
    using hd_dropWhile [of "\<lambda>c. c \<noteq> LF" ?b] by blast
  have skip: "tok_skip_char (advance ?t n) LF =
      (if LF \<in> set ?b then (True, advance ?t (Suc n)) else (False, advance ?t n))"
    using ok le dw by (auto simp: tok_skip_char_eq dr dropWhile_eq_Nil_conv)
  have rest: "drop (Suc n) ?b = after_line ?b"
    by (metis after_line_def dr drop_Suc tl_drop)
  have ne: "has_line ?b \<longleftrightarrow> LF \<in> set ?b \<and> first_line ?b \<noteq> []"
    by (cases ?b) (auto simp: has_line_def first_line_def)
  show ?thesis
    by (auto simp: parseRequestFirstLine_def pre skip ne rest split: prod.splits bool.splits)
qed

section \<open>Nothing but a prefix of the input is consumed\<close>

lemma request_mime_stage_drop:
  assumes "sb_ok (hp_buf p)" "request_mime_stage cfg p = (r, p')"
  shows "\<exists>n. hp_buf p' = drop n (hp_buf p) \<and> rq_parsed p' = rq_parsed p \<and>
             rq_preserveParsed p' = rq_preserveParsed p"
proof (cases "hp_stage p = HTTP_PARSE_MIME")
  case True
  obtain b q where g: "grabMimeBlock (request_firstLineSize cfg p) (maxRequestHeaderSize cfg) p = (b, q)"
    by fastforce
  then have "\<exists>n. hp_buf q = drop n (hp_buf p) \<and> rq_parsed q = rq_parsed p \<and> rq_preserveParsed q = rq_preserveParsed p"
    by (rule grabMimeBlock_cases [OF assms(1)]) (auto intro: exI [of _ 0])
  with assms(2) True g show ?thesis
    by (auto simp: request_mime_stage_def split: bool.splits if_splits)
qed (use assms in \<open>auto simp: request_mime_stage_def intro: exI [of _ 0]\<close>)

lemma parseRequestFirstLine_drop:
  assumes "sb_ok (hp_buf p)" "parseRequestFirstLine cfg p = (rc, p')"
  shows "\<exists>n. hp_buf p' = drop n (hp_buf p) \<and> rq_parsed p' = rq_parsed p \<and>
             rq_preserveParsed p' = rq_preserveParsed p \<and> hp_stage p' = hp_stage p"
proof -
  obtain b q where line: "parseRequestLine cfg (first_line (hp_buf p)) p = (b, q)" by fastforce
  obtain b2 t2 q2 where meth: "parseMethodField cfg (tok_new (hp_buf p)) p = (b2, t2, q2)"
    by (metis prod_cases3)
  have "same_input p q" "same_input p q2"
    using parseRequestLine_frame [OF line] parseMethodField_frame [OF meth] by auto
  moreover obtain n where "after_line (hp_buf p) = drop n (hp_buf p)" using after_line_drop by blast
  ultimately show ?thesis
    using assms(2) unfolding parseRequestFirstLine_eq [OF assms(1)]
    by (auto simp: line meth same_input_def split: if_splits bool.splits intro: exI [of _ 0])
qed

lemma request_line_stage_drop:
  assumes "sb_ok (hp_buf p)" "request_line_stage cfg p = (r, p')"
  shows "\<exists>n. hp_buf p' = drop n (hp_buf p) \<and> rq_parsed p' = rq_parsed p \<and>
             rq_preserveParsed p' = rq_preserveParsed p"
proof (cases "hp_stage p = HTTP_PARSE_FIRST")
  case True
  obtain rc p1 where f: "parseRequestFirstLine cfg p = (rc, p1)" by fastforce
  define p2 where "p2 = (if rc > 0 then p1\<lparr>hp_stage := HTTP_PARSE_MIME\<rparr> else p1)"
  obtain n where n: "hp_buf p2 = drop n (hp_buf p)" "rq_parsed p2 = rq_parsed p" "rq_preserveParsed p2 = rq_preserveParsed p"
    using parseRequestFirstLine_drop [OF assms(1) f] by (auto simp: p2_def)
  from assms(2) True f have *: "(if rc < 0 then (False, p2\<lparr>hp_stage := HTTP_PARSE_DONE\<rparr>)
      else request_mime_stage cfg p2) = (r, p')"
    by (auto simp: request_line_stage_def Let_def p2_def)
  show ?thesis
  proof (cases "rc < 0")
    case False
    with * have "request_mime_stage cfg p2 = (r, p')" by simp
    from request_mime_stage_drop [OF _ this] n assms(1) show ?thesis by auto
  qed (use * n in auto)
qed (use assms request_mime_stage_drop in \<open>auto simp: request_line_stage_def\<close>)

lemma garbage_loop_drop: "\<exists>n. garbage_loop b = drop n b"
proof (induction b)
  case (Cons c b)
  then obtain n where "garbage_loop b = drop n b" by blast
  then have "garbage_loop (c # b) = drop (Suc n) (c # b) \<or> garbage_loop (c # b) = drop 0 (c # b)" by simp
  then show ?case by blast
qed simp

lemma request_doParse_drop:
  assumes "sb_ok aBuf" "request_doParse cfg aBuf p = (r, p')"
  shows "\<exists>n. hp_buf p' = drop n aBuf \<and> rq_parsed p' = rq_parsed p \<and>
             rq_preserveParsed p' = rq_preserveParsed p"
proof -
  obtain k where k: "garbage_loop aBuf = drop k aBuf" using garbage_loop_drop by blast
  define q where "q = skipGarbageLines cfg (p\<lparr>hp_buf := aBuf\<rparr>)"
  obtain n where n: "hp_buf q = drop n aBuf" "rq_parsed q = rq_parsed p" "rq_preserveParsed q = rq_preserveParsed p"
    using k that [of k] that [of 0] by (cases "relaxed cfg") (simp_all add: q_def skipGarbageLines_def)
  consider (skip) "hp_stage p = HTTP_PARSE_NONE" "hp_buf q \<noteq> []"
      "request_line_stage cfg (q\<lparr>hp_stage := HTTP_PARSE_FIRST\<rparr>) = (r, p')"
    | (none) "p' = q" | (later) "request_line_stage cfg (p\<lparr>hp_buf := aBuf\<rparr>) = (r, p')"
    using assms(2) by (auto simp: request_doParse_def Let_def q_def split: if_splits)
  then show ?thesis
  proof cases
    case skip
    from request_line_stage_drop [OF _ this(3)] n assms(1) show ?thesis by auto
  next
    case later
    from request_line_stage_drop [OF _ this] assms(1) show ?thesis by auto
  qed (use n in auto)
qed


section \<open>Verdicts\<close>

text \<open>
  The states a parser passes through: no verdict before the request line is complete,
  success so far while the header block is awaited, and a final verdict.
\<close>

definition request_error :: "nat \<Rightarrow> bool" where
  "request_error st \<longleftrightarrow>
     st = scBadRequest \<or> st = scUriTooLong \<or> st = scRequestHeaderFieldsTooLarge"

definition request_inv :: "request_parser \<Rightarrow> bool" where
  "request_inv p \<longleftrightarrow>
     (case hp_stage p of
        HTTP_PARSE_NONE \<Rightarrow> hp_status p = scNone
      | HTTP_PARSE_FIRST \<Rightarrow> hp_status p = scNone
      | HTTP_PARSE_MIME \<Rightarrow> hp_status p = scOkay
      | HTTP_PARSE_DONE \<Rightarrow> hp_status p = scOkay \<or> request_error (hp_status p)
      | _ \<Rightarrow> False)"

lemma request_inv_buf [simp]: "request_inv (p\<lparr>hp_buf := b\<rparr>) = request_inv p"
  by (cases "hp_stage p") (simp_all add: request_inv_def)

definition request_verdict :: "bool \<times> request_parser \<Rightarrow> bool" where
  "request_verdict res \<longleftrightarrow>
     (case res of (r, p) \<Rightarrow>
        request_inv p \<and> (r \<longleftrightarrow> hp_stage p = HTTP_PARSE_DONE \<and> hp_status p = scOkay))"

lemma bad_status_error: "bad_status st \<Longrightarrow> request_error st"
  by (auto simp: bad_status_def request_error_def)

lemma request_error_not_okay: "request_error st \<Longrightarrow> st \<noteq> scOkay"
  by (auto simp: request_error_def status_defs)

lemma request_mime_stage_verdict:
  assumes "sb_ok (hp_buf p)" "request_inv p" "hp_stage p = HTTP_PARSE_MIME"
  shows "request_verdict (request_mime_stage cfg p)"
proof -
  obtain b q where g: "grabMimeBlock (request_firstLineSize cfg p) (maxRequestHeaderSize cfg) p = (b, q)"
    by fastforce
  have st: "hp_status p = scOkay" using assms by (simp add: request_inv_def)
  from g show ?thesis
    by (rule grabMimeBlock_cases [OF assms(1)])
      (use assms(3) st g in \<open>auto simp: request_mime_stage_def request_verdict_def request_inv_def
        needsMoreData_def request_error_def status_defs\<close>)
qed

lemma parseRequestFirstLine_verdict:
  assumes "sb_ok (hp_buf p)" "hp_status p = scNone" "parseRequestFirstLine cfg p = (rc, q)"
  shows "rc < 0 \<and> request_error (hp_status q) \<or> rc = 0 \<and> q = p \<or> rc = 1 \<and> hp_status q = scOkay"
proof -
  obtain b q1 where line: "parseRequestLine cfg (first_line (hp_buf p)) p = (b, q1)" by fastforce
  obtain b2 t2 q2 where meth: "parseMethodField cfg (tok_new (hp_buf p)) p = (b2, t2, q2)"
    by (metis prod_cases3)
  have "\<not> b \<Longrightarrow> request_error (hp_status q1)" "\<not> b2 \<Longrightarrow> request_error (hp_status q2)"
    using parseRequestLine_frame [OF line] parseMethodField_frame [OF meth] bad_status_error by auto
  with assms(3) show ?thesis unfolding parseRequestFirstLine_eq [OF assms(1)]
    by (auto simp: line meth request_error_def split: if_splits bool.splits)
qed

lemma request_line_stage_verdict:
  assumes "sb_ok (hp_buf p)" "request_inv p" "hp_stage p \<in> {HTTP_PARSE_FIRST, HTTP_PARSE_MIME}"
  shows "request_verdict (request_line_stage cfg p)"
proof (cases "hp_stage p = HTTP_PARSE_FIRST")
  case True
  with assms have st: "hp_status p = scNone" by (simp add: request_inv_def)
  obtain rc q where f: "parseRequestFirstLine cfg p = (rc, q)" by fastforce
  obtain n where "hp_buf q = drop n (hp_buf p)" using parseRequestFirstLine_drop [OF assms(1) f] by auto
  then have "sb_ok (hp_buf (q\<lparr>hp_stage := HTTP_PARSE_MIME\<rparr>))" using assms(1) by simp
  note mime = request_mime_stage_verdict [OF this, of cfg]
  from parseRequestFirstLine_verdict [OF assms(1) st f] show ?thesis
  proof (elim disjE conjE)
    assume "rc < 0" "request_error (hp_status q)"
    then show ?thesis using True f request_error_not_okay [of "hp_status q"]
      by (auto simp: request_line_stage_def Let_def request_verdict_def request_inv_def)
  next
    assume "rc = 0" "q = p"
    then show ?thesis using True f st
      by (simp add: request_line_stage_def Let_def request_mime_stage_def request_verdict_def
          request_inv_def needsMoreData_def)
  next
    assume "rc = 1" "hp_status q = scOkay"
    then show ?thesis using True f mime by (simp add: request_line_stage_def Let_def request_inv_def)
  qed
qed (use assms request_mime_stage_verdict in \<open>auto simp: request_line_stage_def\<close>)

text \<open>C16. Every call on a parser that still needs data keeps the state machine consistent: the stage is one of
  the request stages with its status code, the call returns true exactly when the stage is done with
  status 200, and otherwise a finished parser holds one of the error codes 400, 414 and 431.\<close>

theorem request_parse_verdict:
  assumes "sb_ok aBuf" "request_inv p" "needsMoreData p"
  shows "request_verdict (request_doParse cfg aBuf p)"
proof (cases "hp_stage p = HTTP_PARSE_NONE")
  case True
  define q where "q = skipGarbageLines cfg (p\<lparr>hp_buf := aBuf\<rparr>)"
  have ok: "sb_ok (hp_buf (q\<lparr>hp_stage := HTTP_PARSE_FIRST\<rparr>))"
    using assms(1) garbage_loop_drop [of aBuf] by (auto simp: q_def skipGarbageLines_def)
  have st: "hp_status q = scNone" "hp_stage q = HTTP_PARSE_NONE"
    using True assms by (auto simp: q_def skipGarbageLines_def request_inv_def)
  show ?thesis
    using request_line_stage_verdict [OF ok, of cfg] st True
    by (auto simp: request_doParse_def Let_def q_def [symmetric] request_inv_def request_verdict_def)
next
  case False
  with assms have "hp_stage p \<in> {HTTP_PARSE_FIRST, HTTP_PARSE_MIME}"
    by (cases "hp_stage p") (auto simp: request_inv_def needsMoreData_def)
  with request_line_stage_verdict [of "p\<lparr>hp_buf := aBuf\<rparr>" cfg] False assms show ?thesis
    by (auto simp: request_doParse_def Let_def request_inv_def)
qed

lemma request_inv_new: "request_inv (request_parser_new b)"
  by (simp add: request_inv_def request_parser_new_def)

section \<open>A request split over several reads\<close>

lemma garbage_loop_append:
  "garbage_loop b \<noteq> [] \<Longrightarrow> \<not> (garbage_loop b = [CR] \<and> c \<noteq> [] \<and> hd c = LF) \<Longrightarrow>
     garbage_loop (b @ c) = garbage_loop b @ c"
proof (induction b)
  case (Cons x b)
  then show ?case by (cases b) (auto split: if_splits)
qed simp

lemma garbage_loop_append_Nil: "garbage_loop b = [] \<Longrightarrow> garbage_loop (b @ c) = garbage_loop c"
proof (induction b)
  case (Cons x b)
  then show ?case by (cases b) (auto split: if_splits)
qed simp

text \<open>Where the parser stands when it asks for more data.\<close>

lemma request_line_stage_waits:
  assumes "sb_ok (hp_buf p)" "request_line_stage cfg p = (r, q)" "needsMoreData q" "request_inv p"
    and "hp_stage p \<in> {HTTP_PARSE_FIRST, HTTP_PARSE_MIME}"
  obtains (line) "hp_stage p = HTTP_PARSE_FIRST" "q = p" "\<not> has_line (hp_buf p)"
    | (mime) "hp_stage p = HTTP_PARSE_MIME" "q = p"
    | (line_mime) p1 where "hp_stage p = HTTP_PARSE_FIRST" "has_line (hp_buf p)"
        "parseRequestLine cfg (first_line (hp_buf p)) p = (True, p1)"
        "q = p1\<lparr>hp_status := scOkay, hp_buf := after_line (hp_buf p), hp_stage := HTTP_PARSE_MIME\<rparr>"
proof -
  have wait: "q = p'" if "sb_ok (hp_buf p')" "hp_stage p' = HTTP_PARSE_MIME"
    "request_mime_stage cfg p' = (r, q)" "hp_status p' = scOkay" for p'
  proof -
    obtain b x where g: "grabMimeBlock (request_firstLineSize cfg p') (maxRequestHeaderSize cfg) p' = (b, x)"
      by fastforce
    from that(2-4) assms(3) show ?thesis
      by - (rule grabMimeBlock_cases [OF that(1) g];
        auto simp: request_mime_stage_def needsMoreData_def g status_defs split: if_splits bool.splits)
  qed
  show ?thesis
  proof (cases "hp_stage p = HTTP_PARSE_FIRST")
    case False
    with assms(5) have m: "hp_stage p = HTTP_PARSE_MIME" by simp
    with assms(4) have "hp_status p = scOkay" by (simp add: request_inv_def)
    moreover
    from assms(2) m have "request_mime_stage cfg p = (r, q)" by (simp add: request_line_stage_def)
    ultimately show ?thesis using wait [OF assms(1) m] m by (intro mime)
  next
    case True
    obtain b p1 where pl: "parseRequestLine cfg (first_line (hp_buf p)) p = (b, p1)" by fastforce
    obtain b2 t2 q2 where meth: "parseMethodField cfg (tok_new (hp_buf p)) p = (b2, t2, q2)"
      by (metis prod_cases3)
    show ?thesis
    proof (cases "has_line (hp_buf p)")
      case False
      with assms(2,3) True show ?thesis
        by (intro line)
          (auto simp: request_line_stage_def parseRequestFirstLine_eq [OF assms(1)] meth
            request_mime_stage_def needsMoreData_def split: if_splits bool.splits)
    next
      case has: True
      define p2 where "p2 = p1\<lparr>hp_status := scOkay, hp_buf := after_line (hp_buf p), hp_stage := HTTP_PARSE_MIME\<rparr>"
      have b: "b" using assms(2,3) True has pl
        by (auto simp: request_line_stage_def parseRequestFirstLine_eq [OF assms(1)] needsMoreData_def
            split: bool.splits)
      with assms(2) True has pl have "request_mime_stage cfg p2 = (r, q)"
        by (simp add: request_line_stage_def parseRequestFirstLine_eq [OF assms(1)] p2_def)
      moreover have "sb_ok (hp_buf p2)" using assms(1) after_line_drop [of "hp_buf p"] by (auto simp: p2_def)
      ultimately have "q = p2" by (intro wait) (simp_all add: p2_def)
      with True has pl b show ?thesis by (intro line_mime) (simp_all add: p2_def)
    qed
  qed
qed

text \<open>The request line parser does not look at the buffer that holds what follows the line.\<close>

abbreviation with_buf :: "bytes \<Rightarrow> 'a \<times> 'b \<times> request_parser \<Rightarrow> 'a \<times> 'b \<times> request_parser" where
  "with_buf b r \<equiv> (case r of (ok, tok, p) \<Rightarrow> (ok, tok, p\<lparr>hp_buf := b\<rparr>))"

lemma skipDelimiter_buf:
  "skipDelimiter cfg n (p\<lparr>hp_buf := b\<rparr>) = (case skipDelimiter cfg n p of (ok, q) \<Rightarrow> (ok, q\<lparr>hp_buf := b\<rparr>))"
  by (simp add: skipDelimiter_def)

lemma field_bufs:
  "parseMethodField cfg tok (p\<lparr>hp_buf := b\<rparr>) = with_buf b (parseMethodField cfg tok p)"
  "skipTrailingCrs cfg tok (p\<lparr>hp_buf := b\<rparr>) = with_buf b (skipTrailingCrs cfg tok p)"
  "parseHttpVersionField cfg tok (p\<lparr>hp_buf := b\<rparr>) = with_buf b (parseHttpVersionField cfg tok p)"
  "skipVersionDelimiter cfg tok (p\<lparr>hp_buf := b\<rparr>) = with_buf b (skipVersionDelimiter cfg tok p)"
  "parseUriField cfg tok (p\<lparr>hp_buf := b\<rparr>) = with_buf b (parseUriField cfg tok p)"
      apply (auto simp: parseMethodField_def skipDelimiter_def Let_def split: prod.splits option.splits)[1]
     apply (auto simp: skipTrailingCrs_def split: prod.splits bool.splits)[1]
    apply (auto simp: parseHttpVersionField_def Let_def split: prod.splits option.splits bool.splits)[1]
   apply (auto simp: skipVersionDelimiter_def http0_def skipDelimiter_def split: prod.splits)[1]
  apply (auto simp: parseUriField_def split: prod.splits option.splits)[1]
  done

lemma field_then_buf:
  "(\<And>tok q. k tok (q\<lparr>hp_buf := b\<rparr>) = (case k tok q of (ok, q') \<Rightarrow> (ok, q'\<lparr>hp_buf := b\<rparr>))) \<Longrightarrow>
   field_then (with_buf b r) k = (case field_then r k of (ok, q) \<Rightarrow> (ok, q\<lparr>hp_buf := b\<rparr>))"
  by (cases r) (auto simp: field_then_def split: bool.splits)

lemma parseRequestLine_buf:
  "parseRequestLine cfg line (p\<lparr>hp_buf := b\<rparr>) =
     (case parseRequestLine cfg line p of (ok, q) \<Rightarrow> (ok, q\<lparr>hp_buf := b\<rparr>))"
  unfolding parseRequestLine_def field_bufs
  by ((rule field_then_buf, unfold field_bufs)+, rule field_then_buf) simp

lemma request_line_stage_resumes:
  assumes ok: "sb_ok (hp_buf p @ c)" and run: "request_line_stage cfg p = (r, q)"
    and wait: "needsMoreData q" and inv: "request_inv p"
    and stage: "hp_stage p \<in> {HTTP_PARSE_FIRST, HTTP_PARSE_MIME}"
  shows "request_line_stage cfg (q\<lparr>hp_buf := hp_buf q @ c\<rparr>) =
         request_line_stage cfg (p\<lparr>hp_buf := hp_buf p @ c\<rparr>)"
proof -
  have ok1: "sb_ok (hp_buf p)" using ok by (simp add: sb_ok_def)
  from ok1 run wait inv stage show ?thesis
  proof (rule request_line_stage_waits)
    fix p1
    assume first: "hp_stage p = HTTP_PARSE_FIRST" and has: "has_line (hp_buf p)"
      and line: "parseRequestLine cfg (first_line (hp_buf p)) p = (True, p1)"
      and q: "q = p1\<lparr>hp_status := scOkay, hp_buf := after_line (hp_buf p), hp_stage := HTTP_PARSE_MIME\<rparr>"
    have ok2: "sb_ok (hp_buf (p\<lparr>hp_buf := hp_buf p @ c\<rparr>))" using ok by simp
    show ?thesis
      using first has by (simp add: request_line_stage_def [of cfg "p\<lparr>hp_buf := hp_buf p @ c\<rparr>"]
          parseRequestFirstLine_eq [OF ok2] has_line_append first_line_append after_line_append
          parseRequestLine_buf line)
        (simp add: q request_line_stage_def stage_buf_commute)
  qed simp_all
qed

text \<open>C3. Parsing is independent of how the bytes were split into reads. When a call stops because it needs
  more data, continuing with the unread bytes and any further bytes gives the same result and the same
  parser state as one call on all the bytes. The one exception, stated in the last hypothesis, is a
  leading empty line that the relaxed mode receives split between its CR and its LF.\<close>

theorem request_incremental:
  assumes ok: "sb_ok (b @ c)" and run: "request_doParse cfg b p = (r, q)"
    and wait: "needsMoreData q" and inv: "request_inv p"
    and crlf: "\<not> (hp_stage p = HTTP_PARSE_NONE \<and> relaxed cfg \<and> hp_buf q = [CR] \<and> c \<noteq> [] \<and> hd c = LF)"
  shows "request_doParse cfg (hp_buf q @ c) q = request_doParse cfg (b @ c) p"
proof (cases "hp_stage p = HTTP_PARSE_NONE")
  case True
  define g where "g = (if relaxed cfg then garbage_loop b else b)"
  define p1 where "p1 = p\<lparr>hp_buf := g, hp_stage := HTTP_PARSE_FIRST\<rparr>"
  have gok: "sb_ok (hp_buf p1 @ c)"
    using ok garbage_loop_drop [of b] by (auto simp: p1_def g_def sb_ok_def)
  show ?thesis
  proof (cases "g = []")
    case empty: True
    with run True have q: "q = p\<lparr>hp_buf := []\<rparr>"
      by (auto simp: request_doParse_def skipGarbageLines_def Let_def g_def split: if_splits)
    with empty True show ?thesis
      by (auto simp: request_doParse_def skipGarbageLines_def Let_def g_def garbage_loop_append_Nil)
  next
    case nonempty: False
    have line: "request_line_stage cfg p1 = (r, q)"
      using run True nonempty
      by (auto simp: request_doParse_def skipGarbageLines_def Let_def g_def p1_def split: if_splits)
    have inv1: "request_inv p1" using inv True by (simp add: request_inv_def p1_def)
    have stage1: "hp_stage p1 \<in> {HTTP_PARSE_FIRST, HTTP_PARSE_MIME}" by (simp add: p1_def)
    have ok1: "sb_ok (hp_buf p1)" using gok by (simp add: sb_ok_def)
    have stq: "hp_stage q \<in> {HTTP_PARSE_FIRST, HTTP_PARSE_MIME}"
      using ok1 line wait inv1 stage1 by (rule request_line_stage_waits) auto
    have ncr: "\<not> (relaxed cfg \<and> g = [CR] \<and> c \<noteq> [] \<and> hd c = LF)"
    proof
      assume cr: "relaxed cfg \<and> g = [CR] \<and> c \<noteq> [] \<and> hd c = LF"
      then have "\<not> has_line (hp_buf p1)" by (simp add: p1_def has_line_def)
      with ok1 line wait inv1 stage1 have "q = p1"
        by (elim request_line_stage_waits) (auto simp: p1_def)
      with cr crlf True show False by (simp add: p1_def)
    qed
    have "request_doParse cfg (b @ c) p = request_line_stage cfg (p1\<lparr>hp_buf := hp_buf p1 @ c\<rparr>)"
      using True nonempty ncr garbage_loop_append [of b c]
      by (auto simp: request_doParse_def skipGarbageLines_def Let_def g_def p1_def stage_buf_commute)
    moreover have "request_doParse cfg (hp_buf q @ c) q = request_line_stage cfg (q\<lparr>hp_buf := hp_buf q @ c\<rparr>)"
      using stq by (auto simp: request_doParse_def Let_def)
    ultimately show ?thesis
      using request_line_stage_resumes [OF gok line wait inv1 stage1] by simp
  qed
next
  case False
  define p1 where "p1 = p\<lparr>hp_buf := b\<rparr>"
  have line: "request_line_stage cfg p1 = (r, q)" using run False by (simp add: request_doParse_def p1_def)
  have ok1: "sb_ok (hp_buf p1 @ c)" "sb_ok (hp_buf p1)" using ok by (auto simp: p1_def sb_ok_def)
  have inv1: "request_inv p1" using inv by (simp add: p1_def)
  have stage1: "hp_stage p1 \<in> {HTTP_PARSE_FIRST, HTTP_PARSE_MIME}"
  proof (cases "hp_stage p = HTTP_PARSE_DONE")
    case True
    with run have "q = p\<lparr>hp_buf := b\<rparr>"
      by (auto simp: request_doParse_def request_line_stage_def request_mime_stage_def Let_def)
    with True wait show ?thesis by (simp add: needsMoreData_def)
  qed (use inv False in \<open>cases "hp_stage p"; simp add: request_inv_def p1_def\<close>)
  have "hp_stage q \<in> {HTTP_PARSE_FIRST, HTTP_PARSE_MIME}"
    using ok1(2) line wait inv1 stage1 by (rule request_line_stage_waits) auto
  then have "request_doParse cfg (hp_buf q @ c) q = request_line_stage cfg (q\<lparr>hp_buf := hp_buf q @ c\<rparr>)"
    by (auto simp: request_doParse_def Let_def)
  with request_line_stage_resumes [OF ok1(1) line wait inv1 stage1] False show ?thesis
    by (simp add: request_doParse_def p1_def)
qed

section \<open>Correctness of the request state machine\<close>

theorem request_incremental_witness:
  "let q = snd (request_doParse (sample_config 1) ''GET / HT'' (request_parser_new True))
   in request_doParse (sample_config 1) (hp_buf q @ ''TP/1.0'' @ [LF, LF]) q =
      request_doParse (sample_config 1) (''GET / HTTP/1.0'' @ [LF, LF]) (request_parser_new True)"
proof -
  let ?q = "(request_parser_new True)\<lparr>hp_buf := ''GET / HT'', hp_stage := HTTP_PARSE_FIRST\<rparr>"
  have run: "request_doParse (sample_config 1) ''GET / HT'' (request_parser_new True) = (False, ?q)"
    by (simp add: request_doParse_def skipGarbageLines_def request_line_stage_def
        parseRequestFirstLine_eq has_line_def request_mime_stage_def needsMoreData_def sb_ok_def maxSize_def
        request_parser_new_def)
  show ?thesis
    using request_incremental [OF _ run, of "''TP/1.0'' @ [LF, LF]"] request_inv_new [of True]
    by (simp add: run needsMoreData_def sb_ok_def maxSize_def)
qed

text \<open>C38. The excepted case is real. In the relaxed mode an empty line before the request is skipped
  when its CR LF arrives in one read; when the two bytes arrive in two reads, the same input is
  rejected with status 400, whatever follows.\<close>

theorem request_split_empty_line:
  assumes "relaxed cfg" "hp_stage p = HTTP_PARSE_NONE" "1 < maxRequestHeaderSize cfg" "sb_ok ([CR, LF] @ s)"
  shows "request_doParse cfg ([CR, LF] @ s) p = request_doParse cfg s p \<and>
    (\<exists>q q'. request_doParse cfg [CR] p = (False, q) \<and> needsMoreData q \<and>
       request_doParse cfg (hp_buf q @ [LF] @ s) q = (False, q') \<and>
       \<not> needsMoreData q' \<and> hp_status q' = scBadRequest)"
proof
  show "request_doParse cfg ([CR, LF] @ s) p = request_doParse cfg s p"
    using assms by (simp add: request_doParse_def skipGarbageLines_def)
  let ?q = "p\<lparr>hp_buf := [CR], hp_stage := HTTP_PARSE_FIRST\<rparr>"
  have wait: "request_doParse cfg [CR] p = (False, ?q)"
    using assms by (simp add: request_doParse_def skipGarbageLines_def request_line_stage_def
        parseRequestFirstLine_eq has_line_def request_mime_stage_def needsMoreData_def sb_ok_def maxSize_def)
  have "parseMethodField cfg (tok_new [CR]) r = (False, tok_new [CR], r\<lparr>hp_status := scBadRequest\<rparr>)" for r
    by (simp add: parseMethodField_def tok_prefix_eq maxMethodLength_def cs_index_TCHAR sb_ok_def maxSize_def)
  then have "request_doParse cfg (hp_buf ?q @ [LF] @ s) ?q =
      (False, ?q\<lparr>hp_buf := CR # LF # s, hp_status := scBadRequest, hp_stage := HTTP_PARSE_DONE\<rparr>)"
    using assms(4) by (simp add: request_doParse_def request_line_stage_def parseRequestFirstLine_eq has_line_def
        first_line_def parseRequestLine_def field_then_def)
  with wait show "\<exists>q q'. request_doParse cfg [CR] p = (False, q) \<and> needsMoreData q \<and>
       request_doParse cfg (hp_buf q @ [LF] @ s) q = (False, q') \<and>
       \<not> needsMoreData q' \<and> hp_status q' = scBadRequest"
    by (auto simp: needsMoreData_def)
qed

theorem request_split_empty_line_witness:
  "\<exists>q q'. request_doParse (sample_config 1) [CR] (request_parser_new False) = (False, q) \<and>
       request_doParse (sample_config 1) (hp_buf q @ [LF] @ ''GET / HTTP/1.1'' @ [CR, LF, CR, LF]) q = (False, q') \<and>
       hp_status q' = scBadRequest"
  using request_split_empty_line [of "sample_config 1" "request_parser_new False" "''GET / HTTP/1.1'' @ [CR, LF, CR, LF]"]
  by (auto simp: request_parser_new_def sb_ok_def maxSize_def)

theorem request_parse_verdict_witness:
  "request_verdict (request_doParse (sample_config 0) ''G@T / HTTP/1.1'' (request_parser_new False))"
  by (rule request_parse_verdict [OF _ request_inv_new])
    (simp_all add: sb_ok_def maxSize_def needsMoreData_def request_parser_new_def)


end
