(* ===== verification/Request_Grammar.thy ===== *)
theory Request_Grammar
  imports Http1_Request
begin

text \<open>
  The grammar of HTTP/1 request lines and its relation to the parser of
  \<open>Http1_Request\<close>: every line \<^verbatim>\<open>method SP target SP HTTP/d.d CR\<close> is accepted and
  parsed into its fields, with the relaxed and with the strict parser, and the strict
  parser accepts no other line of a version above 0.  The last lemma puts the request
  line, the header block and the bytes after it together.
\<close>

section \<open>The request-line grammar\<close>

text \<open>Tokenizer steps on a buffer of known shape.\<close>

lemma takeWhile_take_stop:
  "list_all P m \<Longrightarrow> \<not> P x \<Longrightarrow> length m \<le> k \<Longrightarrow> takeWhile P (take k (m @ x # r)) = m"
proof (induction m arbitrary: k)
  case Nil
  then show ?case by (cases k) simp_all
next
  case (Cons a m)
  then show ?case by (cases k) simp_all
qed

lemma TCHAR_not_SP: "\<not> cs_index cs_TCHAR SP"
  by (simp add: cs_index_TCHAR)

lemma cs_ok_UriValid [simp]: "cs_ok UriValidCharacters"
  by (simp add: UriValidCharacters_def)

lemma UriValid_not_delim: "cs_index UriValidCharacters c \<Longrightarrow> \<not> cs_index (DelimiterCharacters cfg) c"
  by (auto simp: UriValidCharacters_def named_set_defs charset_simps)

lemma UriValid_not_SP: "\<not> cs_index UriValidCharacters SP"
  by (simp add: UriValidCharacters_def named_set_defs charset_simps)

lemma UriValid_target: "cs_index UriValidCharacters c \<Longrightarrow> cs_index (RequestTargetCharacters cfg) c"
  by (auto simp: RequestTargetCharacters_def cs_index_union cs_ok_union)

definition is_method :: "bytes \<Rightarrow> bool" where
  "is_method m \<longleftrightarrow> m \<noteq> [] \<and> length m \<le> maxMethodLength \<and> list_all (cs_index cs_TCHAR) m"

definition is_target :: "bytes \<Rightarrow> bool" where
  "is_target u \<longleftrightarrow> u \<noteq> [] \<and> length u \<le> maxUriLength \<and> list_all (cs_index UriValidCharacters) u"

definition version_text :: "char \<Rightarrow> char \<Rightarrow> bytes" where
  "version_text d1 d2 = ''HTTP/'' @ [d1, CHR ''.'', d2]"

definition request_line :: "bytes \<Rightarrow> bytes \<Rightarrow> char \<Rightarrow> char \<Rightarrow> bytes" where
  "request_line m u d1 d2 = m @ [SP] @ u @ [SP] @ version_text d1 d2 @ [CR]"

lemma parseMethodField_accepts:
  assumes t: "tok_ok t" "tok_buf t = m @ [SP] @ r" and m: "is_method m"
    and r: "r \<noteq> []" "\<not> cs_index (DelimiterCharacters cfg) (hd r)"
  shows "\<exists>t'. parseMethodField cfg t p = (True, t', p\<lparr>rq_method := method_of_sbuf cfg m\<rparr>) \<and>
              tok_ok t' \<and> tok_buf t' = r"
proof -
  have "takeWhile (cs_index cs_TCHAR) (take maxMethodLength (tok_buf t)) = m"
    using m takeWhile_take_stop [of "cs_index cs_TCHAR" m SP maxMethodLength r] TCHAR_not_SP
    by (simp add: t is_method_def)
  then have pre: "tok_prefix t cs_TCHAR maxMethodLength = (Some m, advance t (length m))"
    using t m by (simp add: tok_prefix_eq maxMethodLength_def is_method_def Let_def)
  have ok1: "tok_ok (advance t (length m))" using t by simp
  have "cs_index (DelimiterCharacters cfg) SP" by (simp add: charset_simps)
  then have "takeWhile (cs_index (DelimiterCharacters cfg)) (SP # r) = [SP]"
    using r by (cases r) simp_all
  then have "tok_skipAll (advance t (length m)) (DelimiterCharacters cfg) = (1, advance t (length m + 1))"
    using tok_skipAll_eq [OF ok1, of "DelimiterCharacters cfg"] t by simp
  with pre show ?thesis using t
    by (intro exI [of _ "advance t (length m + 1)"]) (simp add: parseMethodField_def skipDelimiter_def Let_def)
qed

lemma parseMethodField_strict_inv:
  assumes "tok_ok t" "\<not> relaxed cfg" "parseMethodField cfg t p = (True, t', p')"
  shows "\<exists>m. tok_buf t = m @ [SP] @ tok_buf t' \<and> is_method m \<and> tok_ok t' \<and>
             p' = p\<lparr>rq_method := method_of_sbuf cfg m\<rparr>"
proof -
  define m where "m = takeWhile (cs_index cs_TCHAR) (take maxMethodLength (tok_buf t))"
  define t1 where "t1 = advance t (length m)"
  have pre: "tok_prefix t cs_TCHAR maxMethodLength = (if m = [] then (None, t) else (Some m, t1))"
    using assms(1) by (simp add: tok_prefix_eq maxMethodLength_def m_def t1_def Let_def)
  have "length m \<le> length (take maxMethodLength (tok_buf t))"
    unfolding m_def by (rule length_takeWhile_le)
  then have le: "length m \<le> maxMethodLength" "length m \<le> length (tok_buf t)" by simp_all
  have buf: "tok_buf t = m @ tok_buf t1"
  proof -
    have "take (length m) (take maxMethodLength (tok_buf t)) = m"
      unfolding m_def by (rule takeWhile_eq_length_take)
    with le show ?thesis unfolding t1_def
      by (metis append_take_drop_id min.absorb1 take_take tok_buf_advance)
  qed
  have ok1: "tok_ok t1" using assms(1) le by (simp add: t1_def)
  have SPs: "cs_index (DelimiterCharacters cfg) = (=) SP"
    using assms(2) by (auto simp: charset_simps fun_eq_iff)
  define n where "n = length (takeWhile ((=) SP) (tok_buf t1))"
  have skip: "tok_skipAll t1 (DelimiterCharacters cfg) = (n, advance t1 n)"
    using ok1 by (simp add: tok_skipAll_eq SPs n_def)
  from assms(3) have ne: "m \<noteq> []" and n: "n = 1" and t0: "t' = advance t1 n"
    and p': "p' = p\<lparr>rq_method := method_of_sbuf cfg m\<rparr>"
    using assms(2) by (auto simp: parseMethodField_def pre skip skipDelimiter_def Let_def split: if_splits)
  have t': "t' = advance t1 1" using t0 n by simp
  have "tok_buf t1 \<noteq> [] \<and> hd (tok_buf t1) = SP"
    using n by (cases "tok_buf t1") (auto simp: n_def split: if_splits)
  then have "tok_buf t1 = [SP] @ tok_buf t'" "tok_ok t'"
    using ok1 by (cases "tok_buf t1"; simp add: t')+
  moreover have "is_method m" using ne le
    by (auto simp: is_method_def m_def list_all_iff dest: set_takeWhileD)
  ultimately show ?thesis using buf p' by auto
qed

lemma skipTrailingCrs_accepts:
  assumes t: "tok_ok t" "tok_buf t = r @ [CR]" and r: "r \<noteq> []" "last r \<noteq> CR"
  shows "\<exists>t'. skipTrailingCrs cfg t p = (True, t', p) \<and> tok_ok t' \<and> tok_buf t' = r"
proof -
  have "takeWhile (cs_index cs_CR) (rev (tok_buf t)) = [CR]"
    using r by (cases r rule: rev_cases) (simp_all add: t charset_simps)
  then have "tok_skipAllTrailing t cs_CR = (1, retreat t 1)"
    using t by (simp add: tok_skipAllTrailing_eq Let_def)
  then show ?thesis using t
    by (intro exI [of _ "retreat t 1"])
      (simp add: skipTrailingCrs_def tok_skipOneTrailing_eq charset_simps)
qed

lemma skipTrailingCrs_strict_inv:
  assumes "tok_ok t" "\<not> relaxed cfg" "skipTrailingCrs cfg t p = (True, t', p')"
  shows "tok_buf t = tok_buf t' @ [CR] \<and> tok_ok t' \<and> p' = p"
proof -
  have *: "tok_buf t \<noteq> [] \<and> last (tok_buf t) = CR" "t' = retreat t 1" "p' = p"
    using assms by (auto simp: skipTrailingCrs_def tok_skipOneTrailing_eq charset_simps split: if_splits)
  then show ?thesis using assms(1) by (cases "tok_buf t" rule: rev_cases) simp_all
qed

lemma sb_ok_short [simp]: "length s \<le> 1000 \<Longrightarrow> sb_ok s"
  by (simp add: sb_ok_def maxSize_def)

lemma tok_skipSuffix_append:
  "tok_ok t \<Longrightarrow> tok_buf t = r @ s \<Longrightarrow> s \<noteq> [] \<Longrightarrow> sb_ok s \<Longrightarrow> tok_skipSuffix t s = (True, retreat t (length s))"
  by (simp add: tok_skipSuffix_eq)

lemma tok_skipSuffix_inv:
  assumes "tok_ok t" "sb_ok s" "tok_skipSuffix t s = (True, t')"
  shows "tok_buf t = tok_buf t' @ s \<and> tok_ok t' \<and> t' = retreat t (length s)"
proof -
  from assms have *: "length s \<le> length (tok_buf t)" "drop (length (tok_buf t) - length s) (tok_buf t) = s"
    "t' = retreat t (length s)"
    by (auto simp: tok_skipSuffix_eq split: if_splits)
  then show ?thesis using assms(1)
    by (metis append_take_drop_id tok_buf_retreat tok_ok_retreat)
qed

lemma tok_suffix_inv:
  assumes "tok_ok t" "tok_suffix t cs npos = (Some x, t')"
  shows "tok_buf t = tok_buf t' @ x \<and> tok_ok t' \<and> x \<noteq> [] \<and> list_all (cs_index cs) x"
proof -
  let ?b = "tok_buf t"
  have lim: "take npos (rev ?b) = rev ?b"
    using sb_ok_length [OF tok_ok_sb_ok [OF assms(1)]] by simp
  define n where "n = length (takeWhile (cs_index cs) (rev ?b))"
  have n_le: "n \<le> length ?b" using length_takeWhile_le [of "cs_index cs" "rev ?b"] by (simp add: n_def)
  have eq: "tok_suffix t cs npos = (if n = 0 then (None, t) else (Some (drop (length ?b - n) ?b), retreat t n))"
    using tok_suffix_eq [OF assms(1), of npos cs] by (simp add: npos_def lim [unfolded npos_def] n_def Let_def)
  with assms(2) have x: "0 < n" "x = drop (length ?b - n) ?b" "t' = retreat t n" by (auto split: if_splits)
  have "rev x = take n (rev ?b)" by (simp add: x(2) take_rev [symmetric] rev_drop n_le)
  also have "\<dots> = takeWhile (cs_index cs) (rev ?b)" unfolding n_def by (rule takeWhile_eq_length_take)
  finally have "list_all (cs_index cs) x" by (metis set_rev set_takeWhileD list_all_iff)
  then show ?thesis using x n_le assms(1) by auto
qed

lemma tok_suffix_one:
  assumes "tok_ok t" "tok_buf t = r @ [c, d]" "cs_index cs d" "\<not> cs_index cs c"
  shows "tok_suffix t cs npos = (Some [d], retreat t 1)"
proof -
  have lim: "take npos (rev (tok_buf t)) = rev (tok_buf t)"
    using sb_ok_length [OF tok_ok_sb_ok [OF assms(1)]] by simp
  then show ?thesis using assms tok_suffix_eq [OF assms(1), of npos cs]
    by (simp add: npos_def Let_def)
qed

lemma xisdigit_not_sep: "xisdigit d \<Longrightarrow> d \<noteq> CHR ''.''" "xisdigit d \<Longrightarrow> d \<noteq> CHR ''/''"
  by (auto simp: xisdigit_def)

definition version_of :: "char \<Rightarrow> char \<Rightarrow> protocol_version" where
  "version_of d1 d2 = HttpVersion (digit_of d1) (digit_of d2)"

lemma versionSuffix_accepts:
  assumes t: "tok_ok t" "tok_buf t = r @ version_text d1 d2" and d: "xisdigit d1" "xisdigit d2"
  shows "versionSuffix t = (Some ([d1], [d2]), retreat (retreat (retreat (retreat t 1) 1) 1) 5)"
proof -
  have b0: "tok_buf t = (r @ ''HTTP/'' @ [d1]) @ [CHR ''.'', d2]" by (simp add: t version_text_def)
  have s1: "tok_suffix t cs_DIGIT npos = (Some [d2], retreat t 1)"
    using tok_suffix_one [OF t(1) b0] d by (simp add: charset_simps xisdigit_def)
  define t1 where "t1 = retreat t 1"
  have t1: "tok_ok t1" "tok_buf t1 = (r @ ''HTTP/'' @ [d1]) @ [CHR ''.'']" using t(1) b0 by (simp_all add: t1_def)
  have s2: "tok_skipOneTrailing t1 (cs_of_string ''Decimal point'' ''.'') = (True, retreat t1 1)"
    using t1 by (simp add: tok_skipOneTrailing_eq charset_simps)
  define t2 where "t2 = retreat t1 1"
  have t2: "tok_ok t2" "tok_buf t2 = (r @ ''HTTP'') @ [CHR ''/'', d1]" using t1 by (simp_all add: t2_def)
  have s3: "tok_suffix t2 cs_DIGIT npos = (Some [d1], retreat t2 1)"
    using tok_suffix_one [OF t2] d by (simp add: charset_simps xisdigit_def)
  define t3 where "t3 = retreat t2 1"
  have t3: "tok_ok t3" "tok_buf t3 = r @ ''HTTP/''" using t2 by (simp_all add: t3_def)
  have s4: "tok_skipSuffix t3 ''HTTP/'' = (True, retreat t3 5)"
    using tok_skipSuffix_append [OF t3] by (simp add: eval_nat_numeral)
  show ?thesis
    by (simp add: versionSuffix_def s1 t1_def [symmetric] s2 t2_def [symmetric] s3 t3_def [symmetric] s4
        del: One_nat_def)
qed

lemma parseHttpVersionField_accepts:
  assumes t: "tok_ok t" "tok_buf t = r @ version_text d1 d2" and d: "xisdigit d1" "xisdigit d2"
  shows "\<exists>t'. parseHttpVersionField cfg t p = (True, t', p\<lparr>hp_proto := version_of d1 d2\<rparr>) \<and>
              tok_ok t' \<and> tok_buf t' = r"
proof -
  have eq: "tok_skipSuffix t s = (if s = version_text d1 d2 then (True, retreat t 8) else (False, t))"
    if "length s = 8" for s
  proof -
    have "length (version_text d1 d2) = 8" by (simp add: version_text_def)
    with t that show ?thesis by (auto simp: tok_skipSuffix_eq)
  qed
  consider "version_text d1 d2 = ''HTTP/1.1''" | "version_text d1 d2 = ''HTTP/1.0''"
    | "version_text d1 d2 \<noteq> ''HTTP/1.1''" "version_text d1 d2 \<noteq> ''HTTP/1.0''" by blast
  then show ?thesis
  proof cases
    case 1
    then have "d1 = CHR ''1''" "d2 = CHR ''1''" by (simp_all add: version_text_def)
    with 1 t show ?thesis by (intro exI [of _ "retreat t 8"])
      (simp add: parseHttpVersionField_def eq version_of_def digit_of_def)
  next
    case 2
    then have "d1 = CHR ''1''" "d2 = CHR ''0''" by (simp_all add: version_text_def)
    with 2 t show ?thesis by (intro exI [of _ "retreat t 8"])
      (simp add: parseHttpVersionField_def eq version_of_def digit_of_def)
  next
    case 3
    let ?t = "retreat (retreat (retreat (retreat t 1) 1) 1) 5"
    have "tok_ok ?t" "tok_buf ?t = r" using t by (simp_all add: version_text_def)
    with 3 show ?thesis
      by (intro exI [of _ ?t])
        (simp add: parseHttpVersionField_def eq versionSuffix_accepts [OF t d] Let_def version_of_def
          eq_commute [of _ "version_text d1 d2"])
  qed
qed

lemma versionSuffix_inv:
  assumes "tok_ok t" "versionSuffix t = (Some (x, y), t')"
  shows "tok_buf t = tok_buf t' @ ''HTTP/'' @ x @ [CHR ''.''] @ y \<and> tok_ok t' \<and>
         x \<noteq> [] \<and> y \<noteq> [] \<and> list_all xisdigit x \<and> list_all xisdigit y"
proof -
  obtain o1 t1 where s1: "tok_suffix t cs_DIGIT npos = (o1, t1)" by fastforce
  obtain b t2 where s2: "tok_skipOneTrailing t1 (cs_of_string ''Decimal point'' ''.'') = (b, t2)" by fastforce
  obtain o3 t3 where s3: "tok_suffix t2 cs_DIGIT npos = (o3, t3)" by fastforce
  obtain b4 t4 where s4: "tok_skipSuffix t3 ''HTTP/'' = (b4, t4)" by fastforce
  have "o1 = Some y" "b" "o3 = Some x" "b4" "t4 = t'"
    using assms(2) by (simp_all add: versionSuffix_def s1 s2 s3 s4 split: option.splits bool.splits)
  with s1 s2 s3 s4 have
    s: "tok_suffix t cs_DIGIT npos = (Some y, t1)"
    "tok_skipOneTrailing t1 (cs_of_string ''Decimal point'' ''.'') = (True, t2)"
    "tok_suffix t2 cs_DIGIT npos = (Some x, t3)" "tok_skipSuffix t3 ''HTTP/'' = (True, t')"
    by simp_all
  note y = tok_suffix_inv [OF assms(1) s(1)]
  then have ok1: "tok_ok t1" by blast
  have dot: "tok_buf t1 = tok_buf t2 @ [CHR ''.''] \<and> tok_ok t2"
  proof -
    have "tok_buf t1 \<noteq> []" "last (tok_buf t1) = CHR ''.''" "t2 = retreat t1 1"
      using s(2) ok1 by (auto simp: tok_skipOneTrailing_eq charset_simps split: if_splits)
    then show ?thesis using ok1 by (cases "tok_buf t1" rule: rev_cases) simp_all
  qed
  then have ok2: "tok_ok t2" by blast
  note x = tok_suffix_inv [OF ok2 s(3)]
  then have ok3: "tok_ok t3" by blast
  have "sb_ok ''HTTP/''" by simp
  then have h: "tok_buf t3 = tok_buf t' @ ''HTTP/''" "tok_ok t'"
    using tok_skipSuffix_inv [OF ok3 _ s(4)] by blast+
  have digit: "cs_index cs_DIGIT = xisdigit" by (rule ext) (simp add: charset_simps)
  have "tok_buf t = tok_buf t' @ ''HTTP/'' @ x @ [CHR ''.''] @ y"
    using y x dot h(1) by (metis append.assoc)
  with y x h(2) show ?thesis by (simp only: digit simp_thms)
qed

lemma parseHttpVersionField_inv:
  assumes "tok_ok t" "parseHttpVersionField cfg t p = (True, t', p')" "\<not> http0 p'"
  shows "\<exists>d1 d2. tok_buf t = tok_buf t' @ version_text d1 d2 \<and> tok_ok t' \<and>
           xisdigit d1 \<and> xisdigit d2 \<and> digit_of d1 \<noteq> 0 \<and> p' = p\<lparr>hp_proto := version_of d1 d2\<rparr>"
proof -
  have ok: "sb_ok ''HTTP/1.1''" "sb_ok ''HTTP/1.0''" by simp_all
  obtain b1 t1 where s1: "tok_skipSuffix t ''HTTP/1.1'' = (b1, t1)" by fastforce
  have e1: "\<not> b1 \<Longrightarrow> t1 = t" using s1 assms(1) ok by (auto simp: tok_skipSuffix_eq split: if_splits)
  obtain b2 t2 where s2: "tok_skipSuffix t ''HTTP/1.0'' = (b2, t2)" by fastforce
  have e2: "\<not> b2 \<Longrightarrow> t2 = t" using s2 assms(1) ok by (auto simp: tok_skipSuffix_eq split: if_splits)
  obtain o3 t3 where s3: "versionSuffix t = (o3, t3)" by fastforce
  consider "b1" | "\<not> b1" "b2" | "\<not> b1" "\<not> b2" "o3 = None" | x y where "\<not> b1" "\<not> b2" "o3 = Some (x, y)"
    by (cases o3) auto
  then show ?thesis
  proof cases
    case 1
    then have "t' = t1" "p' = p\<lparr>hp_proto := HttpVersion 1 1\<rparr>"
      using assms(2) by (simp_all add: parseHttpVersionField_def s1)
    moreover have "tok_buf t = tok_buf t1 @ ''HTTP/1.1''" "tok_ok t1"
      using tok_skipSuffix_inv [OF assms(1) ok(1), of t1] s1 1 by metis+
    ultimately show ?thesis
      by (intro exI [of _ "CHR ''1''"])
        (simp add: version_text_def version_of_def digit_of_def xisdigit_def)
  next
    case 2
    then have "t' = t2" "p' = p\<lparr>hp_proto := HttpVersion 1 0\<rparr>"
      using assms(2) e1 by (simp_all add: parseHttpVersionField_def s1 s2)
    moreover have "tok_buf t = tok_buf t2 @ ''HTTP/1.0''" "tok_ok t2"
      using tok_skipSuffix_inv [OF assms(1) ok(2), of t2] s2 2 by metis+
    ultimately show ?thesis
      by (intro exI [of _ "CHR ''1''"] exI [of _ "CHR ''0''"])
        (simp add: version_text_def version_of_def digit_of_def xisdigit_def)
  next
    case 3
    then have "p' = p\<lparr>hp_proto := HttpVersion 0 9\<rparr>"
      using assms(2) e1 e2 by (auto simp: parseHttpVersionField_def s1 s2 s3 split: if_splits)
    with assms(3) show ?thesis by (simp add: http0_def HttpVersion_def)
  next
    case 4
    note v = versionSuffix_inv [OF assms(1) s3 [unfolded 4(3)]]
    from assms(2) 4 e1 e2 have r: "t' = t3" "p' = p\<lparr>hp_proto :=
        (if length x > 1 \<or> length y > 1 then HttpVersion 0 0
         else HttpVersion (digit_of (hd x)) (digit_of (hd y)))\<rparr>"
      by (auto simp: parseHttpVersionField_def s1 s2 s3 Let_def)
    with assms(3) have small: "\<not> (length x > 1 \<or> length y > 1)"
      by (auto simp: http0_def HttpVersion_def)
    then obtain d1 d2 where d: "x = [d1]" "y = [d2]" using v
      by (cases x; cases y) auto
    moreover have "digit_of d1 \<noteq> 0"
      using assms(3) r small d by (simp add: http0_def HttpVersion_def)
    ultimately show ?thesis using v r small by (auto simp: version_text_def version_of_def)
  qed
qed

lemma skipVersionDelimiter_accepts:
  assumes t: "tok_ok t" "tok_buf t = u @ [SP]" and u: "is_target u" and p: "\<not> http0 p"
  shows "\<exists>t'. skipVersionDelimiter cfg t p = (True, t', p) \<and> tok_ok t' \<and> tok_buf t' = u"
proof -
  have "cs_index (DelimiterCharacters cfg) SP" by (simp add: charset_simps)
  then have "takeWhile (cs_index (DelimiterCharacters cfg)) (rev (tok_buf t)) = [SP]"
    using u UriValid_not_delim [of "last u" cfg]
    by (cases u rule: rev_cases) (simp_all add: t is_target_def)
  then have "tok_skipAllTrailing t (DelimiterCharacters cfg) = (1, retreat t 1)"
    using tok_skipAllTrailing_eq [OF t(1), of "DelimiterCharacters cfg"] by (simp add: Let_def)
  then show ?thesis using t p
    by (intro exI [of _ "retreat t 1"]) (simp add: skipVersionDelimiter_def skipDelimiter_def)
qed

lemma skipVersionDelimiter_strict_inv:
  assumes "tok_ok t" "\<not> relaxed cfg" "\<not> http0 p" "skipVersionDelimiter cfg t p = (True, t', p')"
  shows "tok_buf t = tok_buf t' @ [SP] \<and> tok_ok t' \<and> p' = p"
proof -
  have SPs: "cs_index (DelimiterCharacters cfg) = (=) SP"
    using assms(2) by (auto simp: charset_simps fun_eq_iff)
  define n where "n = length (takeWhile ((=) SP) (rev (tok_buf t)))"
  have "tok_skipAllTrailing t (DelimiterCharacters cfg) = (n, retreat t n)"
    using assms(1) by (simp add: tok_skipAllTrailing_eq SPs n_def Let_def)
  then have r: "n = 1" "t' = retreat t n" "p' = p"
    using assms by (auto simp: skipVersionDelimiter_def skipDelimiter_def split: if_splits)
  then show ?thesis using assms(1)
    by (cases "tok_buf t" rule: rev_cases) (auto simp: n_def split: if_splits)
qed

lemma parseUriField_accepts:
  assumes t: "tok_ok t" "tok_buf t = u" and u: "is_target u"
  shows "\<exists>t'. parseUriField cfg t p = (True, t', p\<lparr>rq_uri := u\<rparr>) \<and> tok_atEnd t'"
proof -
  have all: "takeWhile (cs_index (RequestTargetCharacters cfg)) (tok_buf t) = u"
    using u UriValid_target by (auto simp: t is_target_def list_all_iff takeWhile_eq_all_conv)
  have "tok_prefix t (RequestTargetCharacters cfg) npos = (Some u, advance t (length u))"
    using tok_prefix_npos [OF t(1), of "RequestTargetCharacters cfg"] u
    unfolding all by (simp add: is_target_def Let_def)
  with u t show ?thesis by (simp add: parseUriField_def is_target_def tok_atEnd_def)
qed

lemma parseUriField_strict_inv:
  assumes "tok_ok t" "\<not> relaxed cfg" "parseUriField cfg t p = (True, t', p')" "tok_atEnd t'"
  shows "is_target (tok_buf t) \<and> p' = p\<lparr>rq_uri := tok_buf t\<rparr>"
proof -
  define u where "u = takeWhile (cs_index UriValidCharacters) (tok_buf t)"
  have "tok_prefix t (RequestTargetCharacters cfg) npos =
      (if u = [] then (None, t) else (Some u, advance t (length u)))"
    using tok_prefix_npos [OF assms(1)] assms(2) by (simp add: RequestTargetCharacters_def u_def Let_def)
  with assms(3,4) have r: "u \<noteq> []" "length u \<le> maxUriLength" "p' = p\<lparr>rq_uri := u\<rparr>"
    "drop (length u) (tok_buf t) = []"
    by (auto simp: parseUriField_def tok_atEnd_def split: if_splits)
  then have "u = tok_buf t" unfolding u_def
    by (metis append_Nil2 takeWhile_dropWhile_id drop_length_takeWhile)
  moreover have "list_all (cs_index UriValidCharacters) u"
    by (auto simp: u_def list_all_iff dest: set_takeWhileD)
  ultimately show ?thesis using r by (simp add: is_target_def)
qed

text \<open>
  Every request line of the grammar is accepted, in both modes, and in the strict mode
  nothing else is accepted with a version other than 0.
\<close>

lemma parseRequestLine_accepts:
  assumes "is_method m" "is_target u" "xisdigit d1" "xisdigit d2" "digit_of d1 \<noteq> 0"
    and "sb_ok (request_line m u d1 d2)"
  shows "parseRequestLine cfg (request_line m u d1 d2) p =
     (True, p\<lparr>rq_method := method_of_sbuf cfg m, hp_proto := version_of d1 d2, rq_uri := u\<rparr>)"
proof -
  let ?r = "u @ [SP] @ version_text d1 d2"
  let ?p1 = "p\<lparr>rq_method := method_of_sbuf cfg m\<rparr>"
  let ?p2 = "?p1\<lparr>hp_proto := version_of d1 d2\<rparr>"
  have t0: "tok_ok (tok_new (request_line m u d1 d2))"
    "tok_buf (tok_new (request_line m u d1 d2)) = m @ [SP] @ ?r @ [CR]"
    using assms(6) by (simp_all add: request_line_def)
  have "u \<noteq> []" "cs_index UriValidCharacters (hd u)"
    using assms(2) by (cases u; simp add: is_target_def)+
  then have hd: "?r @ [CR] \<noteq> []" "\<not> cs_index (DelimiterCharacters cfg) (hd (?r @ [CR]))"
    using UriValid_not_delim by auto
  obtain t1 where t1: "parseMethodField cfg (tok_new (request_line m u d1 d2)) p = (True, t1, ?p1)"
    "tok_ok t1" "tok_buf t1 = ?r @ [CR]"
    using parseMethodField_accepts [OF t0 assms(1) hd] by blast
  have d2: "d2 \<noteq> CR" using assms(4) by (auto simp: xisdigit_def)
  then have "?r \<noteq> []" "last ?r \<noteq> CR" by (simp_all add: version_text_def)
  then obtain t2 where t2: "skipTrailingCrs cfg t1 ?p1 = (True, t2, ?p1)" "tok_ok t2" "tok_buf t2 = ?r"
    using skipTrailingCrs_accepts [OF t1(2,3)] by blast
  have "tok_buf t2 = (u @ [SP]) @ version_text d1 d2" using t2(3) by simp
  then obtain t3 where t3: "parseHttpVersionField cfg t2 ?p1 = (True, t3, ?p2)" "tok_ok t3" "tok_buf t3 = u @ [SP]"
    using parseHttpVersionField_accepts [OF t2(2) _ assms(3,4)] by blast
  have "\<not> http0 ?p2" using assms(5) by (simp add: http0_def version_of_def HttpVersion_def)
  then obtain t4 where t4: "skipVersionDelimiter cfg t3 ?p2 = (True, t4, ?p2)" "tok_ok t4" "tok_buf t4 = u"
    using skipVersionDelimiter_accepts [OF t3(2,3) assms(2)] by blast
  obtain t5 where "parseUriField cfg t4 ?p2 = (True, t5, ?p2\<lparr>rq_uri := u\<rparr>)" "tok_atEnd t5"
    using parseUriField_accepts [OF t4(2,3) assms(2)] by blast
  with t1 t2 t3 t4 show ?thesis by (simp add: parseRequestLine_def field_then_def)
qed

lemma field_then_True:
  "field_then r k = (True, p') \<Longrightarrow> \<exists>t q. r = (True, t, q) \<and> k t q = (True, p')"
  by (auto simp: field_then_def split: prod.splits bool.splits)

text \<open>C15. In the strict mode the parser accepts no request line outside the grammar. When a line is
  accepted as HTTP/1.x or later, it is \<open>method SP target SP HTTP/d.d CR\<close> with a token method, a target of valid URI
  characters and single-digit versions, separated by single spaces, and the parser reports
  those very fields.\<close>

theorem strict_request_line_grammar:
  assumes "sb_ok line" "\<not> relaxed cfg" "parseRequestLine cfg line p = (True, p')" "\<not> http0 p'"
  shows "\<exists>m u d1 d2. line = request_line m u d1 d2 \<and> is_method m \<and> is_target u \<and>
           xisdigit d1 \<and> xisdigit d2 \<and> digit_of d1 \<noteq> 0 \<and>
           p' = p\<lparr>rq_method := method_of_sbuf cfg m, hp_proto := version_of d1 d2, rq_uri := u\<rparr>"
proof -
  obtain t1 p1 t2 p2 t3 p3 t4 p4 t5 where
    s: "parseMethodField cfg (tok_new line) p = (True, t1, p1)"
    "skipTrailingCrs cfg t1 p1 = (True, t2, p2)"
    "parseHttpVersionField cfg t2 p2 = (True, t3, p3)"
    "skipVersionDelimiter cfg t3 p3 = (True, t4, p4)"
    "parseUriField cfg t4 p4 = (True, t5, p')" "tok_atEnd t5"
    using assms(3) unfolding parseRequestLine_def
    by (auto dest!: field_then_True split: if_splits)
  have ok0: "tok_ok (tok_new line)" using assms(1) by simp
  obtain m where m: "line = m @ [SP] @ tok_buf t1" "is_method m" "tok_ok t1"
    "p1 = p\<lparr>rq_method := method_of_sbuf cfg m\<rparr>"
    using parseMethodField_strict_inv [OF ok0 assms(2) s(1)] by auto
  have cr: "tok_buf t1 = tok_buf t2 @ [CR]" "tok_ok t2" "p2 = p1"
    using skipTrailingCrs_strict_inv [OF m(3) assms(2) s(2)] by auto
  have "\<not> http0 p3"
    using s(4,5) assms(4)
    by (auto simp: skipVersionDelimiter_def parseUriField_def http0_def split: if_splits prod.splits option.splits)
  note h3 = this
  obtain d1 d2 where v: "tok_buf t2 = tok_buf t3 @ version_text d1 d2" "tok_ok t3" "xisdigit d1" "xisdigit d2"
    "digit_of d1 \<noteq> 0" "p3 = p2\<lparr>hp_proto := version_of d1 d2\<rparr>"
    using parseHttpVersionField_inv [OF cr(2) s(3) h3] by auto
  have sp: "tok_buf t3 = tok_buf t4 @ [SP]" "tok_ok t4" "p4 = p3"
    using skipVersionDelimiter_strict_inv [OF v(2) assms(2) h3 s(4)] by auto
  have u: "is_target (tok_buf t4)" "p' = p4\<lparr>rq_uri := tok_buf t4\<rparr>"
    using parseUriField_strict_inv [OF sp(2) assms(2) s(5,6)] by auto
  have "line = request_line m (tok_buf t4) d1 d2"
    using m(1) cr(1) v(1) sp(1) by (simp add: request_line_def)
  then show ?thesis using m v u cr(3) sp(3) by blast
qed

section \<open>Whole requests\<close>

lemma garbage_loop_method: "is_method m \<Longrightarrow> garbage_loop (m @ r) = m @ r"
proof -
  assume "is_method m"
  then have "m \<noteq> []" "cs_index cs_TCHAR (hd m)" by (cases m; simp add: is_method_def)+
  then have "hd m \<noteq> LF" "hd m \<noteq> CR" by (auto simp: cs_index_TCHAR)
  with \<open>m \<noteq> []\<close> show ?thesis by (cases m) simp_all
qed

lemma request_line_no_LF:
  assumes "is_method m" "is_target u" "xisdigit d1" "xisdigit d2"
  shows "LF \<notin> set (request_line m u d1 d2)"
proof -
  have "\<not> cs_index cs_TCHAR LF" "\<not> cs_index UriValidCharacters LF" "\<not> xisdigit LF"
    by (simp_all add: UriValidCharacters_def named_set_defs charset_simps xisdigit_def)
  then show ?thesis using assms
    by (auto simp: request_line_def version_text_def is_method_def is_target_def list_all_iff)
qed

definition clean_block :: "bytes \<Rightarrow> bool \<Rightarrow> bytes" where
  "clean_block h obs = (if obs then unfoldMime (cleanMimePrefix h) else cleanMimePrefix h)"

lemma method_image_length:
  assumes "images_ok cfg" "is_method m" "sb_ok m"
  shows "length (method_image cfg (method_of_sbuf cfg m)) = length m"
  using method_of_sbuf_image(1) [OF assms(1,3)] assms(2)
  by (metis is_method_def length_map)


section \<open>Correctness of the request parser\<close>


theorem strict_request_line_grammar_witness:
  "\<exists>m u d1 d2. request_line ''PUT'' ''/'' (CHR ''2'') (CHR ''0'') = request_line m u d1 d2 \<and> is_method m \<and> is_target u \<and>
     xisdigit d1 \<and> xisdigit d2 \<and> digit_of d1 \<noteq> 0"
proof -
  have "is_method ''PUT''" by (simp add: is_method_def maxMethodLength_def cs_index_TCHAR)
  moreover have "is_target ''/''"
    by (simp add: is_target_def maxUriLength_def maxSize_def UriValidCharacters_def named_set_defs charset_simps)
  ultimately have "parseRequestLine (sample_config 0) (request_line ''PUT'' ''/'' (CHR ''2'') (CHR ''0'')) (request_parser_new False) =
     (True, (request_parser_new False)\<lparr>rq_method := method_of_sbuf (sample_config 0) ''PUT'',
        hp_proto := version_of (CHR ''2'') (CHR ''0''), rq_uri := ''/''\<rparr>)"
    by (intro parseRequestLine_accepts) (simp_all add: xisdigit_def digit_of_def request_line_def version_text_def sb_ok_def maxSize_def)
  from strict_request_line_grammar [OF _ _ this] show ?thesis
    by (auto simp: http0_def version_of_def HttpVersion_def digit_of_def request_line_def version_text_def sb_ok_def maxSize_def)
qed

end
