(* ===== verification/Mem_Buf.thy ===== *)
theory Mem_Buf
  imports Squid_Prelude
begin

text \<open>
  The growing output buffer \<^verbatim>\<open>MemBuf\<close> of \<^verbatim>\<open>src/MemBuf.cc\<close> and the size classes of
  \<^verbatim>\<open>src/mem/old_api.cc\<close> it allocates from.  Every \<^verbatim>\<open>assert()\<close> of the source is a branch
  that returns \<open>Inl (AssertFailure \<dots>)\<close>.  The lemmas show that a buffer in a
  well-formed state accepts every append that fits its potential space without failing
  an assertion, that appends and consumption act on the content as on a byte list, and
  that the state stays well-formed.
\<close>

section \<open>Size classes\<close>

datatype mem_type =
    MEM_NONE | MEM_32B_BUF | MEM_64B_BUF | MEM_128B_BUF | MEM_256B_BUF | MEM_512B_BUF
  | MEM_1K_BUF | MEM_2K_BUF | MEM_4K_BUF | MEM_8K_BUF | MEM_16K_BUF | MEM_32K_BUF | MEM_64K_BUF

definition memFindBufSizeType :: "nat \<Rightarrow> mem_type \<times> nat" where
  "memFindBufSizeType net_size =
     (if net_size \<le> 32 then (MEM_32B_BUF, 32)
      else if net_size \<le> 64 then (MEM_64B_BUF, 64)
      else if net_size \<le> 128 then (MEM_128B_BUF, 128)
      else if net_size \<le> 256 then (MEM_256B_BUF, 256)
      else if net_size \<le> 512 then (MEM_512B_BUF, 512)
      else if net_size \<le> 1024 then (MEM_1K_BUF, 1024)
      else if net_size \<le> 2 * 1024 then (MEM_2K_BUF, 2 * 1024)
      else if net_size \<le> 4 * 1024 then (MEM_4K_BUF, 4 * 1024)
      else if net_size \<le> 8 * 1024 then (MEM_8K_BUF, 8 * 1024)
      else if net_size \<le> 16 * 1024 then (MEM_16K_BUF, 16 * 1024)
      else if net_size \<le> 32 * 1024 then (MEM_32K_BUF, 32 * 1024)
      else if net_size \<le> 64 * 1024 then (MEM_64K_BUF, 64 * 1024)
      else (MEM_NONE, net_size))"

definition memAllocBuf :: "nat \<Rightarrow> nat" where
  "memAllocBuf net_size = snd (memFindBufSizeType net_size)"

text \<open>
  \<^verbatim>\<open>memReallocBuf()\<close>: the new gross size, and how many old bytes are copied.
\<close>

definition memReallocBuf :: "bytes option \<Rightarrow> nat \<Rightarrow> nat \<Rightarrow> bytes \<times> nat" where
  "memReallocBuf oldbuf net_size gross_size =
     (let new_gross_size = memAllocBuf net_size
      in (case oldbuf of
            None \<Rightarrow> []
          | Some old \<Rightarrow>
              let data_size = (if gross_size > net_size then net_size else gross_size)
              in take data_size old,
          new_gross_size))"

lemma memAllocBuf_ge: "n \<le> memAllocBuf n"
  by (simp add: memAllocBuf_def memFindBufSizeType_def)

lemma memAllocBuf_pos: "0 < memAllocBuf n"
  by (simp add: memAllocBuf_def memFindBufSizeType_def)

lemma memAllocBuf_mono: "m \<le> n \<Longrightarrow> memAllocBuf m \<le> memAllocBuf n"
  by (simp add: memAllocBuf_def memFindBufSizeType_def)

section \<open>The buffer\<close>

text \<open>
  \<open>mb_buf\<close> is \<^verbatim>\<open>None\<close> for a null pointer and otherwise the \<^verbatim>\<open>size\<close> bytes of content;
  the bytes of the allocation after them are not observable.
\<close>

record membuf =
  mb_buf :: "bytes option"
  mb_max_capacity :: nat
  mb_capacity :: nat
  mb_stolen :: bool

definition mb_new :: membuf where
  "mb_new = \<lparr>mb_buf = None, mb_max_capacity = 0, mb_capacity = 0, mb_stolen = False\<rparr>"

definition mb_content :: "membuf \<Rightarrow> bytes" where
  "mb_content mb = (case mb_buf mb of None \<Rightarrow> [] | Some b \<Rightarrow> b)"

definition mb_size :: "membuf \<Rightarrow> nat" where
  "mb_size mb = length (mb_content mb)"

definition mb_hasContent :: "membuf \<Rightarrow> bool" where
  "mb_hasContent mb = (mb_size mb > 0)"

definition mb_spaceSize :: "membuf \<Rightarrow> nat" where
  "mb_spaceSize mb =
     (let terminatedSize = mb_size mb + 1
      in if terminatedSize < mb_capacity mb then mb_capacity mb - terminatedSize else 0)"

definition mb_potentialSpaceSize :: "membuf \<Rightarrow> nat" where
  "mb_potentialSpaceSize mb =
     (let terminatedSize = mb_size mb + 1
      in if terminatedSize < mb_max_capacity mb then mb_max_capacity mb - terminatedSize else 0)"

definition mb_hasSpace :: "membuf \<Rightarrow> bool" where
  "mb_hasSpace mb = (mb_size mb + 1 < mb_capacity mb)"

definition mb_hasPotentialSpace :: "membuf \<Rightarrow> bool" where
  "mb_hasPotentialSpace mb = (mb_potentialSpaceSize mb > 0)"

definition mb_terminate :: "membuf \<Rightarrow> exn + membuf" where
  "mb_terminate mb =
     (if mb_size mb < mb_capacity mb then Inr mb else Inl (AssertFailure ''size < capacity''))"

text \<open>The capacity \<^verbatim>\<open>grow()\<close> asks for: steps of 64 KB above 64 KB.\<close>

function grow_steps :: "nat \<Rightarrow> nat \<Rightarrow> nat" where
  "grow_steps new_cap min_cap =
     (if new_cap < min_cap then grow_steps (new_cap + 64 * 1024) min_cap else new_cap)"
  by pat_completeness auto
termination
  by (relation "measure (\<lambda>(new_cap, min_cap). min_cap - new_cap)") auto

declare grow_steps.simps [simp del]

definition mb_grow :: "nat \<Rightarrow> membuf \<Rightarrow> exn + membuf" where
  "mb_grow min_cap mb =
     (if mb_stolen mb then Inl (AssertFailure ''!stolen'')
      else if \<not> mb_capacity mb < min_cap then Inl (AssertFailure ''capacity < min_cap'')
      else
        let new_cap1 = (if min_cap > 64 * 1024 then grow_steps (64 * 1024) min_cap else min_cap);
            new_cap = (if new_cap1 > mb_max_capacity mb then mb_max_capacity mb else new_cap1)
        in if \<not> new_cap \<le> mb_max_capacity mb then Inl (AssertFailure ''new_cap <= max_capacity'')
           else if \<not> new_cap > mb_capacity mb then Inl (AssertFailure ''new_cap > capacity'')
           else case memReallocBuf (mb_buf mb) new_cap (mb_capacity mb) of (copied, buf_cap) \<Rightarrow>
             Inr (mb\<lparr>mb_buf := Some copied, mb_capacity := buf_cap\<rparr>))"

definition mb_init :: "nat \<Rightarrow> nat \<Rightarrow> exn + membuf" where
  "mb_init szInit szMax =
     (if \<not> (szInit > 0 \<and> szMax > 0) then Inl (AssertFailure ''szInit > 0 && szMax > 0'')
      else case mb_grow szInit \<lparr>mb_buf = None, mb_max_capacity = szMax, mb_capacity = 0, mb_stolen = False\<rparr> of
        Inl e \<Rightarrow> Inl e
      | Inr mb \<Rightarrow> mb_terminate mb)"

definition MEM_BUF_INIT_SIZE :: nat where "MEM_BUF_INIT_SIZE = 2 * 1024"
definition MEM_BUF_MAX_SIZE :: nat where "MEM_BUF_MAX_SIZE = 2 * 1000 * 1024 * 1024"

definition mb_init_default :: "exn + membuf" where
  "mb_init_default = mb_init MEM_BUF_INIT_SIZE MEM_BUF_MAX_SIZE"

definition mb_isNull :: "membuf \<Rightarrow> exn + bool" where
  "mb_isNull mb =
     (if mb_buf mb = None \<and> mb_max_capacity mb = 0 \<and> mb_capacity mb = 0 \<and> mb_size mb = 0 then Inr True
      else if mb_buf mb \<noteq> None \<and> mb_max_capacity mb \<noteq> 0 \<and> mb_capacity mb \<noteq> 0 then Inr False
      else Inl (AssertFailure ''buf && max_capacity && capacity''))"

definition mb_clean :: "membuf \<Rightarrow> exn + membuf" where
  "mb_clean mb =
     (case mb_isNull mb of
        Inl e \<Rightarrow> Inl e
      | Inr True \<Rightarrow> Inr mb
      | Inr False \<Rightarrow>
          if mb_buf mb = None then Inl (AssertFailure ''buf'')
          else if mb_stolen mb then Inl (AssertFailure ''!stolen'')
          else Inr (mb\<lparr>mb_buf := None, mb_capacity := 0, mb_max_capacity := 0\<rparr>))"

definition mb_reset :: "membuf \<Rightarrow> exn + membuf" where
  "mb_reset mb =
     (case mb_isNull mb of
        Inl e \<Rightarrow> Inl e
      | Inr True \<Rightarrow> mb_init_default
      | Inr False \<Rightarrow>
          if mb_stolen mb then Inl (AssertFailure ''!stolen'') else Inr (mb\<lparr>mb_buf := Some []\<rparr>))"

definition mb_consume :: "nat \<Rightarrow> membuf \<Rightarrow> exn + membuf" where
  "mb_consume shiftSize mb =
     (let cSize = mb_size mb
      in if \<not> shiftSize \<le> cSize then Inl (AssertFailure ''0 <= shiftSize && shiftSize <= cSize'')
         else if mb_stolen mb then Inl (AssertFailure ''!stolen'')
         else if shiftSize > 0
              then mb_terminate (mb\<lparr>mb_buf := Some (drop shiftSize (mb_content mb))\<rparr>)
              else Inr mb)"

definition mb_consumeWhitespacePrefix :: "membuf \<Rightarrow> exn + membuf" where
  "mb_consumeWhitespacePrefix mb =
     (if mb_size mb > 0 then
        let n = length (takeWhile xisspace (mb_content mb))
        in if n > 0 then mb_consume n mb else Inr mb
      else Inr mb)"

definition mb_truncate :: "nat \<Rightarrow> membuf \<Rightarrow> exn + membuf" where
  "mb_truncate tailSize mb =
     (let cSize = mb_size mb
      in if \<not> tailSize \<le> cSize then Inl (AssertFailure ''0 <= tailSize && tailSize <= cSize'')
         else if mb_stolen mb then Inl (AssertFailure ''!stolen'')
         else Inr (mb\<lparr>mb_buf := map_option (\<lambda>b. take (cSize - tailSize) b) (mb_buf mb)\<rparr>))"

text \<open>\<^verbatim>\<open>appended(sz)\<close>, called with the bytes the caller has placed in the space.\<close>

definition mb_appended :: "bytes \<Rightarrow> membuf \<Rightarrow> exn + membuf" where
  "mb_appended placed mb =
     (if mb_size mb + length placed \<le> mb_capacity mb
      then mb_terminate (mb\<lparr>mb_buf := Some (mb_content mb @ placed)\<rparr>)
      else Inl (AssertFailure ''size + sz <= capacity''))"

definition mb_append :: "bytes \<Rightarrow> membuf \<Rightarrow> exn + membuf" where
  "mb_append newContent mb =
     (let sz = length newContent
      in if \<not> (mb_buf mb \<noteq> None \<or> (mb_capacity mb = 0 \<and> mb_size mb = 0))
         then Inl (AssertFailure ''buf || (0==capacity && 0==size)'')
         else if mb_stolen mb then Inl (AssertFailure ''!stolen'')
         else if sz > 0 then
           (case (if mb_size mb + sz + 1 > mb_capacity mb then mb_grow (mb_size mb + sz + 1) mb else Inr mb) of
              Inl e \<Rightarrow> Inl e
            | Inr mb1 \<Rightarrow>
                if mb_size mb1 + sz \<le> mb_capacity mb1 then mb_appended newContent mb1
                else Inl (AssertFailure ''size + sz <= capacity''))
         else Inr mb)"

definition mb_space :: "nat \<Rightarrow> membuf \<Rightarrow> exn + membuf" where
  "mb_space required mb =
     (if mb_size mb + required \<ge> mb_capacity mb then mb_grow (mb_size mb + required + 1) mb else Inr mb)"

section \<open>Well-formed buffers\<close>

definition mb_ok :: "membuf \<Rightarrow> bool" where
  "mb_ok mb \<longleftrightarrow> mb_buf mb \<noteq> None \<and> mb_size mb < mb_capacity mb \<and> 0 < mb_max_capacity mb \<and> \<not> mb_stolen mb"

lemma grow_steps_ge: "min_cap \<le> grow_steps new_cap min_cap"
  by (induction new_cap min_cap rule: grow_steps.induct) (subst grow_steps.simps, simp)

lemma mb_grow_ok:
  assumes "\<not> mb_stolen mb" "mb_capacity mb < min_cap" "min_cap \<le> mb_max_capacity mb" "mb_size mb \<le> mb_capacity mb"
  shows "\<exists>mb'. mb_grow min_cap mb = Inr mb' \<and> mb_content mb' = mb_content mb \<and> mb_buf mb' \<noteq> None \<and>
    min_cap \<le> mb_capacity mb' \<and> mb_max_capacity mb' = mb_max_capacity mb \<and> \<not> mb_stolen mb'"
proof -
  define n1 where "n1 = (if min_cap > 64 * 1024 then grow_steps (64 * 1024) min_cap else min_cap)"
  define n where "n = (if n1 > mb_max_capacity mb then mb_max_capacity mb else n1)"
  have n: "min_cap \<le> n" "n \<le> mb_max_capacity mb" using grow_steps_ge assms(3) by (auto simp: n_def n1_def)
  have "mb_grow min_cap mb =
      (case memReallocBuf (mb_buf mb) n (mb_capacity mb) of (copied, buf_cap) \<Rightarrow>
         Inr (mb\<lparr>mb_buf := Some copied, mb_capacity := buf_cap\<rparr>))"
    using assms n unfolding mb_grow_def n1_def [symmetric] by (simp add: Let_def n_def [symmetric])
  moreover have "min_cap \<le> memAllocBuf n" using n(1) memAllocBuf_ge order_trans by blast
  ultimately show ?thesis using assms n
    by (auto simp: memReallocBuf_def mb_content_def mb_size_def Let_def split: option.splits)
qed

lemma mb_append_ok:
  assumes "mb_ok mb" "length x \<le> mb_potentialSpaceSize mb"
  shows "\<exists>mb'. mb_append x mb = Inr mb' \<and> mb_ok mb' \<and> mb_content mb' = mb_content mb @ x \<and>
    mb_max_capacity mb' = mb_max_capacity mb"
proof (cases "x = []")
  case True
  with assms show ?thesis by (auto simp: mb_append_def mb_ok_def Let_def)
next
  case False
  with assms have fit: "mb_size mb + length x + 1 \<le> mb_max_capacity mb"
    by (cases x) (auto simp: mb_potentialSpaceSize_def Let_def split: if_splits)
  have "\<exists>mb1. (if mb_size mb + length x + 1 > mb_capacity mb then mb_grow (mb_size mb + length x + 1) mb else Inr mb) = Inr mb1
      \<and> mb_content mb1 = mb_content mb \<and> mb_buf mb1 \<noteq> None \<and> mb_size mb + length x + 1 \<le> mb_capacity mb1
      \<and> mb_max_capacity mb1 = mb_max_capacity mb \<and> \<not> mb_stolen mb1"
    using mb_grow_ok [of mb "mb_size mb + length x + 1"] fit assms(1) by (auto simp: mb_ok_def)
  then obtain mb1 where mb1:
    "(if mb_size mb + length x + 1 > mb_capacity mb then mb_grow (mb_size mb + length x + 1) mb else Inr mb) = Inr mb1"
    "mb_content mb1 = mb_content mb" "mb_size mb + length x + 1 \<le> mb_capacity mb1"
    "mb_max_capacity mb1 = mb_max_capacity mb" "\<not> mb_stolen mb1" by blast
  have sz: "mb_size mb1 = mb_size mb" using mb1(2) by (simp add: mb_size_def)
  have app: "mb_append x mb = mb_appended x mb1"
    unfolding mb_append_def Let_def mb1(1) using assms(1) False mb1(3) sz by (simp add: mb_ok_def)
  have "mb_appended x mb1 = Inr (mb1\<lparr>mb_buf := Some (mb_content mb1 @ x)\<rparr>)"
    using mb1(3) sz by (simp add: mb_appended_def mb_terminate_def mb_size_def mb_content_def)
  with app mb1 sz fit show ?thesis by (simp add: mb_ok_def mb_content_def mb_size_def)
qed

lemma mb_consume_ok:
  assumes "mb_ok mb" "n \<le> mb_size mb"
  shows "\<exists>mb'. mb_consume n mb = Inr mb' \<and> mb_ok mb' \<and> mb_content mb' = drop n (mb_content mb)"
  using assms by (auto simp: mb_consume_def mb_ok_def mb_terminate_def mb_size_def mb_content_def Let_def)

lemma mb_init_ok:
  assumes "0 < szInit" "szInit \<le> szMax"
  shows "\<exists>mb. mb_init szInit szMax = Inr mb \<and> mb_ok mb \<and> mb_content mb = [] \<and> mb_max_capacity mb = szMax"
proof -
  let ?e = "\<lparr>mb_buf = None, mb_max_capacity = szMax, mb_capacity = 0, mb_stolen = False\<rparr>"
  obtain mb where mb: "mb_grow szInit ?e = Inr mb" "mb_content mb = mb_content ?e" "mb_buf mb \<noteq> None"
    "szInit \<le> mb_capacity mb" "mb_max_capacity mb = szMax" "\<not> mb_stolen mb"
    using mb_grow_ok [of ?e szInit] assms by (auto simp: mb_size_def mb_content_def)
  have "mb_content mb = []" using mb(2) by (simp add: mb_content_def)
  with mb assms show ?thesis by (auto simp: mb_init_def mb_terminate_def mb_ok_def mb_size_def)
qed

section \<open>Correctness of the buffer\<close>

end
