(* ===== verification/Chunked.thy ===== *)
theory Chunked
  imports Http1_Parser Mem_Buf
begin

text \<open>
  The incremental decoder of the chunked transfer coding,
  \<^verbatim>\<open>src/http/one/TeChunkedParser.cc\<close>, with the quoted-string parser of
  \<^verbatim>\<open>src/http/one/Tokenizer.cc\<close> that chunk extensions need and the only implementation of the
  chunk extension plug-in, the one of \<^verbatim>\<open>src/adaptation/icap/ModXact.cc\<close>.

  A method that throws returns \<open>Inl\<close> together with the state at the time of the throw,
  because \<^verbatim>\<open>buf_\<close> and the output buffer keep what was assigned before.
\<close>

section \<open>Tokens and quoted strings\<close>

definition qdtext1p0 :: charset where
  "qdtext1p0 =
     cs_union (cs_union (cs_union (cs_union (cs_union
       (cs_of_range ''qdtext (HTTP/1.0)'' 0x23 0x7E) (cs_of_string '''' ''!''))
       cs_CR) cs_LF) cs_HTAB) cs_SP"

definition qdtext1p1 :: charset where
  "qdtext1p1 =
     cs_union (cs_union (cs_union (cs_union (cs_union
       (cs_of_range ''qdtext (HTTP/1.1)'' 0x23 0x5B) (cs_of_string '''' ''!''))
       (cs_of_range '''' 0x5D 0x7E)) cs_HTAB) cs_SP) cs_OBSTEXT"

definition qPairChars :: charset where
  "qPairChars = cs_union (cs_union (cs_union cs_HTAB cs_SP) cs_VCHAR) cs_OBSTEXT"

abbreviation DQ :: char where "DQ \<equiv> CHR 0x22"
abbreviation BSLASH :: char where "BSLASH \<equiv> CHR 0x5C"

text \<open>Never longer: all tokenizer methods below.\<close>

definition shorter :: "tokenizer \<Rightarrow> tokenizer \<Rightarrow> bool" where
  "shorter t t' \<longleftrightarrow> length (tok_buf t') \<le> length (tok_buf t)"

lemma shorter_refl [simp]: "shorter t t"
  by (simp add: shorter_def)

lemma shorter_trans: "shorter a b \<Longrightarrow> shorter b c \<Longrightarrow> shorter a c"
  by (simp add: shorter_def)

lemma tok_skip_char_shorter:
  "shorter t (snd (tok_skip_char t c))"
  "fst (tok_skip_char t c) \<Longrightarrow> length (tok_buf (snd (tok_skip_char t c))) < length (tok_buf t)"
  by (auto simp: shorter_def tok_skip_char_def tok_success_shorter case_prod_beta split: if_splits)

function quoted_loop :: "bool \<Rightarrow> tokenizer \<Rightarrow> bytes \<Rightarrow> (exn + bytes) \<times> tokenizer" where
  "quoted_loop http1p0 tok parsedToken =
     (if tok_atEnd tok then (Inl InsufficientInput, tok)
      else case tok_prefix tok (if http1p0 then qdtext1p0 else qdtext1p1) npos of (qdText, tok1) \<Rightarrow>
        let parsed1 = parsedToken @ (case qdText of None \<Rightarrow> [] | Some s \<Rightarrow> s) in
        case (if http1p0 then (False, tok1) else tok_skip_char tok1 BSLASH) of
          (True, tok2) \<Rightarrow>
            if tok_atEnd tok2 then (Inl InsufficientInput, tok2)
            else (case tok_prefix tok2 qPairChars 1 of
                    (None, tok3) \<Rightarrow> (Inl (TextException ''invalid escaped character in quoted-pair''), tok3)
                  | (Some escaped, tok3) \<Rightarrow> quoted_loop http1p0 tok3 (parsed1 @ escaped))
        | (False, tok2) \<Rightarrow>
            case tok_skip_char tok2 DQ of
              (True, tok3) \<Rightarrow> (Inr parsed1, tok3)
            | (False, tok3) \<Rightarrow>
                if tok_atEnd tok3 then (Inl InsufficientInput, tok3)
                else (Inl (TextException ''invalid bytes for set ''), tok3))"
  by pat_completeness auto

lemma quoted_progress:
  assumes "(qd, tok1) = tok_prefix tok cs npos"
    and "(True, tok2) = (if http1p0 then (False, tok1) else tok_skip_char tok1 BSLASH)"
    and "(Some e, tok3) = tok_prefix tok2 cs' 1"
  shows "length (tok_buf tok3) < length (tok_buf tok)"
proof -
  have "length (tok_buf tok1) \<le> length (tok_buf tok)"
    using tok_prefix_shorter [of tok cs npos] assms(1) by (metis snd_conv)
  moreover have "length (tok_buf tok2) < length (tok_buf tok1)"
    using tok_skip_char_shorter(2) [of tok1 BSLASH] assms(2) by (metis Pair_inject fst_conv snd_conv)
  moreover have "length (tok_buf tok3) \<le> length (tok_buf tok2)"
    using tok_prefix_shorter [of tok2 cs' 1] assms(3) by (metis snd_conv)
  ultimately show ?thesis by linarith
qed

termination quoted_loop
  by (relation "measure (\<lambda>(b, tok, s). length (tok_buf tok))") (auto dest: quoted_progress [rotated])

declare quoted_loop.simps [simp del]

definition parseQuotedStringSuffix :: "tokenizer \<Rightarrow> bool \<Rightarrow> (exn + bytes) \<times> tokenizer" where
  "parseQuotedStringSuffix tok http1p0 = quoted_loop http1p0 tok []"

definition tokenOrQuotedString :: "tokenizer \<Rightarrow> bool \<Rightarrow> (exn + bytes) \<times> tokenizer" where
  "tokenOrQuotedString tok http1p0 =
     (case tok_skip_char tok DQ of
        (True, tok1) \<Rightarrow> parseQuotedStringSuffix tok1 http1p0
      | (False, tok1) \<Rightarrow>
          if tok_atEnd tok1 then (Inl InsufficientInput, tok1)
          else case tok_prefix tok1 cs_TCHAR npos of
            (None, tok2) \<Rightarrow> (Inl (TextException ''invalid input while expecting an HTTP token''), tok2)
          | (Some parsedToken, tok2) \<Rightarrow>
              if tok_atEnd tok2 then (Inl InsufficientInput, tok2) else (Inr parsedToken, tok2))"

section \<open>The decoder\<close>

text \<open>
  \<open>ck_extension\<close> is the plug-in for extension values: absent, or present with its member
  \<^verbatim>\<open>useOriginalBody_\<close>, which is \<open>-1\<close> until the extension has been seen.
\<close>

record chunk_parser = http1 +
  ck_out :: "membuf option"
  ck_chunkSize :: nat
  ck_leftBodySize :: nat
  ck_extension :: "int option"

definition chunk_clear :: "chunk_parser \<Rightarrow> chunk_parser" where
  "chunk_clear p =
     p\<lparr>hp_stage := HTTP_PARSE_NONE, hp_buf := [], ck_chunkSize := 0, ck_leftBodySize := 0, ck_out := None\<rparr>"

definition chunk_parser_new :: chunk_parser where
  "chunk_parser_new =
     chunk_clear
       \<lparr>hp_buf = [], hp_stage = HTTP_PARSE_NONE, hp_proto = HttpVersion 1 1, hp_mime = [],
        hp_hackExpectsMime = False, hp_status = scNone,
        ck_out = None, ck_chunkSize = 0, ck_leftBodySize = 0, ck_extension = None\<rparr>"

definition setPayloadBuffer :: "membuf \<Rightarrow> chunk_parser \<Rightarrow> chunk_parser" where
  "setPayloadBuffer parsedContent p = p\<lparr>ck_out := Some parsedContent\<rparr>"

definition parseExtensionValuesWith :: "chunk_parser \<Rightarrow> chunk_parser" where
  "parseExtensionValuesWith p = p\<lparr>ck_extension := Some (-1)\<rparr>"

definition needsMoreSpace :: "chunk_parser \<Rightarrow> bool" where
  "needsMoreSpace p \<longleftrightarrow>
     hp_stage p = HTTP_PARSE_CHUNK \<and> \<not> mb_hasPotentialSpace (the (ck_out p))"

definition parseChunkSize :: "tokenizer \<Rightarrow> chunk_parser \<Rightarrow> (exn + bool) \<times> tokenizer \<times> chunk_parser" where
  "parseChunkSize tok p =
     (if \<not> ck_chunkSize p \<le> 0 then (Inl (TextException ''check failed: theChunkSize <= 0''), tok, p)
      else
        case tok_skip tok ''0x'' of
          (True, tok1) \<Rightarrow> (Inl (TextException ''chunk starts with 0x''), tok1, p)
        | (False, tok1) \<Rightarrow>
        case tok_skip tok1 ''0X'' of
          (True, tok2) \<Rightarrow> (Inl (TextException ''chunk starts with 0x''), tok2, p)
        | (False, tok2) \<Rightarrow>
        case tok_int64 tok2 16 False npos of (found, tok3) \<Rightarrow>
          if found \<noteq> None \<and> \<not> tok_atEnd tok3 then
            if the found < 0 then (Inl (TextException ''negative chunk size''), tok3, p)
            else (Inr True, tok3,
                  p\<lparr>ck_chunkSize := nat (the found), ck_leftBodySize := nat (the found),
                    hp_buf := tok_buf tok3, hp_stage := HTTP_PARSE_CHUNK_EXT\<rparr>)
          else if tok_atEnd tok3 then (Inr False, tok3, p)
          else (Inl (TextException ''corrupted chunk size''), tok3, p))"

definition ext_Ignore :: "tokenizer \<Rightarrow> (exn + unit) \<times> tokenizer" where
  "ext_Ignore tok =
     (case tokenOrQuotedString tok False of
        (Inl e, tok1) \<Rightarrow> (Inl e, tok1) | (Inr _, tok1) \<Rightarrow> (Inr (), tok1))"

text \<open>\<^verbatim>\<open>Adaptation::Icap::ChunkExtensionValueParser::parse()\<close>.\<close>

definition icap_ext_parse :: "tokenizer \<Rightarrow> bytes \<Rightarrow> int \<Rightarrow> (exn + unit) \<times> tokenizer \<times> int" where
  "icap_ext_parse tok extName useOriginalBody =
     (if extName = ''use-original-body'' then
        (case tok_udec64 tok ''use-original-body'' npos of
           (Inl e, tok1) \<Rightarrow> (Inl e, tok1, useOriginalBody)
         | (Inr v, tok1) \<Rightarrow>
             if v \<ge> 0 then (Inr (), tok1, v)
             else (Inl (AssertFailure ''useOriginalBody_ >= 0''), tok1, v))
      else case ext_Ignore tok of (r, tok1) \<Rightarrow> (r, tok1, useOriginalBody))"

definition ext_value :: "tokenizer \<Rightarrow> bytes \<Rightarrow> chunk_parser \<Rightarrow> (exn + unit) \<times> tokenizer \<times> chunk_parser" where
  "ext_value tok extName p =
     (case (if ck_chunkSize p = 0 then ck_extension p else None) of
        Some useOriginalBody \<Rightarrow>
          (case icap_ext_parse tok extName useOriginalBody of
             (r, tok1, v) \<Rightarrow> (r, tok1, p\<lparr>ck_extension := Some v\<rparr>))
      | None \<Rightarrow> (case ext_Ignore tok of (r, tok1) \<Rightarrow> (r, tok1, p)))"

definition parseOneChunkExtension ::
  "http_config \<Rightarrow> tokenizer \<Rightarrow> chunk_parser \<Rightarrow> (exn + unit) \<times> tokenizer \<times> chunk_parser" where
  "parseOneChunkExtension cfg callerTok p =
     (case ParseBws cfg callerTok of
        (Inl e, _) \<Rightarrow> (Inl e, callerTok, p)
      | (Inr _, tok1) \<Rightarrow>
      case tok_prefix_req tok1 ''chunk-ext-name'' cs_TCHAR npos of
        (Inl e, _) \<Rightarrow> (Inl e, callerTok, p)
      | (Inr extName, tok2) \<Rightarrow>
      case ParseBws cfg tok2 of
        (Inl e, _) \<Rightarrow> (Inl e, tok2, p)
      | (Inr _, tok3) \<Rightarrow>
      case tok_skip_char tok3 (CHR ''='') of
        (False, _) \<Rightarrow> (Inr (), tok2, p)
      | (True, tok4) \<Rightarrow>
      case ParseBws cfg tok4 of
        (Inl e, _) \<Rightarrow> (Inl e, tok2, p)
      | (Inr _, tok5) \<Rightarrow>
      case ext_value tok5 extName p of
        (Inl e, _, p1) \<Rightarrow> (Inl e, tok2, p1)
      | (Inr _, tok6, p1) \<Rightarrow> (Inr (), tok6, p1))"

lemma ParseBws_shorter: "ParseBws cfg t = (r, t') \<Longrightarrow> shorter t t'"
  using tok_skipAll_shorter [of t "WhitespaceCharacters cfg"]
  by (auto simp: ParseBws_def ParseBws_common_def shorter_def split: prod.splits if_splits)

lemma ParseStrictBws_shorter: "ParseStrictBws t = (r, t') \<Longrightarrow> shorter t t'"
  using tok_skipAll_shorter [of t cs_WSP]
  by (auto simp: ParseStrictBws_def ParseBws_common_def shorter_def split: prod.splits if_splits)

lemma tok_prefix_req_shorter: "tok_prefix_req t d cs n = (r, t') \<Longrightarrow> shorter t t'"
  using tok_prefix_shorter [of t cs n]
  by (auto simp: tok_prefix_req_def shorter_def split: prod.splits if_splits option.splits)

lemma tok_int64_shorter: "tok_int64 t base sign n = (r, t') \<Longrightarrow> shorter t t'"
  by (erule tok_int64_cases) (auto simp: shorter_def tok_success_shorter)

lemma tok_int64_progress:
  assumes "tok_int64 t base sign n = (Some v, t')"
  shows "length (tok_buf t') < length (tok_buf t)"
  using assms
proof (rule tok_int64_cases)
  fix k
  assume k: "0 < k" "t' = snd (tok_success t k)"
  have "tok_buf t \<noteq> []" using assms by (auto simp: tok_int64_def tok_atEnd_def split: if_splits)
  with k show ?thesis by (simp add: tok_success_shorter)
qed simp

lemma tok_udec64_shorter: "tok_udec64 t d n = (r, t') \<Longrightarrow> shorter t t'"
  by (auto simp: tok_udec64_def split: prod.splits if_splits option.splits dest: tok_int64_shorter)

lemma tok_prefix_shorter': "tok_prefix t cs n = (r, t') \<Longrightarrow> shorter t t'"
  using tok_prefix_shorter [of t cs n] by (simp add: shorter_def)

lemma tok_skip_char_shorter': "tok_skip_char t c = (b, t') \<Longrightarrow> shorter t t'"
  using tok_skip_char_shorter(1) [of t c] by simp

lemma quoted_loop_shorter: "quoted_loop h t s = (r, t') \<Longrightarrow> shorter t t'"
proof (induction "length (tok_buf t)" arbitrary: t s rule: less_induct)
  case less
  obtain qd t1 where one: "tok_prefix t (if h then qdtext1p0 else qdtext1p1) npos = (qd, t1)" by fastforce
  obtain b t2 where two: "(if h then (False, t1) else tok_skip_char t1 BSLASH) = (b, t2)" by fastforce
  obtain e t3 where three: "tok_prefix t2 qPairChars 1 = (e, t3)" by fastforce
  obtain d t4 where four: "tok_skip_char t2 DQ = (d, t4)" by fastforce
  have s1: "shorter t t1" using tok_prefix_shorter' [OF one] .
  have s2: "shorter t1 t2" using two tok_skip_char_shorter' [of t1 BSLASH] by (auto split: if_splits)
  have s3: "shorter t2 t3" using tok_prefix_shorter' [OF three] .
  have s4: "shorter t2 t4" using tok_skip_char_shorter' [OF four] .
  have IH: "shorter t t'" if "b" "e = Some x" "quoted_loop h t3 s' = (r, t')" for x s'
  proof -
    have lt: "length (tok_buf t3) < length (tok_buf t)"
      using quoted_progress [of qd t1 t "if h then qdtext1p0 else qdtext1p1" t2 h x t3 qPairChars]
        one two three that by simp
    from less.hyps [OF this that(3)] lt show ?thesis by (simp add: shorter_def)
  qed
  from less.prems show ?case
    by (subst (asm) quoted_loop.simps)
      (use one two three four s1 s2 s3 s4 IH in
        \<open>auto simp: Let_def split: if_splits bool.splits option.splits intro: shorter_trans\<close>)
qed

lemma tokenOrQuotedString_shorter: "tokenOrQuotedString t h = (r, t') \<Longrightarrow> shorter t t'"
  by (auto simp: tokenOrQuotedString_def parseQuotedStringSuffix_def
      split: prod.splits if_splits option.splits bool.splits
      dest!: tok_skip_char_shorter' tok_prefix_shorter' quoted_loop_shorter intro: shorter_trans)

lemma ext_value_shorter: "ext_value t nm p = (r, t', p') \<Longrightarrow> shorter t t'"
  by (auto simp: ext_value_def icap_ext_parse_def ext_Ignore_def
      split: prod.splits if_splits option.splits sum.splits
      dest!: tok_udec64_shorter tokenOrQuotedString_shorter)

lemma parseOneChunkExtension_shorter:
  assumes "parseOneChunkExtension cfg t p = (r, t', p')"
  shows "shorter t t'"
  using assms
  by (auto simp: parseOneChunkExtension_def split: prod.splits sum.splits bool.splits
      dest!: ParseBws_shorter tok_prefix_req_shorter tok_skip_char_shorter' ext_value_shorter)
    (simp_all add: shorter_def)

function parseChunkExtensions ::
  "http_config \<Rightarrow> tokenizer \<Rightarrow> chunk_parser \<Rightarrow> (exn + unit) \<times> tokenizer \<times> chunk_parser" where
  "parseChunkExtensions cfg callerTok p =
     (case ParseBws cfg callerTok of
        (Inl e, _) \<Rightarrow> (Inl e, callerTok, p)
      | (Inr _, tok1) \<Rightarrow>
      case tok_skip_char tok1 (CHR '';'') of
        (False, _) \<Rightarrow> (Inr (), callerTok, p)
      | (True, tok2) \<Rightarrow>
      case parseOneChunkExtension cfg tok2 p of
        (Inl e, _, p1) \<Rightarrow> (Inl e, callerTok, p1)
      | (Inr _, tok3, p1) \<Rightarrow> parseChunkExtensions cfg tok3 (p1\<lparr>hp_buf := tok_buf tok3\<rparr>))"
  by pat_completeness auto

lemma extensions_progress:
  assumes "(Inr u, tok1) = ParseBws cfg t" "(True, tok2) = tok_skip_char tok1 c"
    and "(Inr v, tok3, p1) = parseOneChunkExtension cfg tok2 p"
  shows "length (tok_buf tok3) < length (tok_buf t)"
proof -
  have "shorter t tok1" using ParseBws_shorter assms(1) by metis
  moreover have "length (tok_buf tok2) < length (tok_buf tok1)"
    using tok_skip_char_shorter(2) [of tok1 c] assms(2) by (metis fst_conv snd_conv)
  moreover have "shorter tok2 tok3" using parseOneChunkExtension_shorter assms(3) by metis
  ultimately show ?thesis by (simp add: shorter_def)
qed

termination parseChunkExtensions
  by (relation "measure (\<lambda>(cfg, t, p). length (tok_buf t))") (auto dest: extensions_progress [rotated])

declare parseChunkExtensions.simps [simp del]

definition parseChunkMetadataSuffix ::
  "http_config \<Rightarrow> tokenizer \<Rightarrow> chunk_parser \<Rightarrow> (exn + bool) \<times> tokenizer \<times> chunk_parser" where
  "parseChunkMetadataSuffix cfg tok p =
     (case (case ParseStrictBws tok of
              (Inl e, tok1) \<Rightarrow> (Inl e, tok1, p)
            | (Inr _, tok1) \<Rightarrow>
            case parseChunkExtensions cfg tok1 p of
              (Inl e, tok2, p1) \<Rightarrow> (Inl e, tok2, p1)
            | (Inr _, tok2, p1) \<Rightarrow>
            case tok_skipRequired tok2 ''CRLF after [chunk-ext]'' CrLf of
              (Inl e, tok3) \<Rightarrow> (Inl e, tok3, p1)
            | (Inr _, tok3) \<Rightarrow>
                (Inr (), tok3,
                 p1\<lparr>hp_buf := tok_buf tok3,
                    hp_stage := (if ck_chunkSize p1 \<noteq> 0 then HTTP_PARSE_CHUNK else HTTP_PARSE_MIME)\<rparr>)) of
        (Inr _, tok3, p2) \<Rightarrow> (Inr True, tok3, p2)
      | (Inl InsufficientInput, tok3, p2) \<Rightarrow> (Inr False, tok_reset tok3 (hp_buf p2), p2)
      | (Inl e, tok3, p2) \<Rightarrow> (Inl e, tok3, p2))"

definition parseChunkEnd :: "tokenizer \<Rightarrow> chunk_parser \<Rightarrow> (exn + bool) \<times> tokenizer \<times> chunk_parser" where
  "parseChunkEnd tok p =
     (if \<not> ck_leftBodySize p = 0 then (Inl (TextException ''check failed: theLeftBodySize == 0''), tok, p)
      else case tok_skipRequired tok ''chunk CRLF'' CrLf of
        (Inr _, tok1) \<Rightarrow>
          (Inr True, tok1, p\<lparr>hp_buf := tok_buf tok1, ck_chunkSize := 0, hp_stage := HTTP_PARSE_CHUNK_SZ\<rparr>)
      | (Inl InsufficientInput, tok1) \<Rightarrow> (Inr False, tok1, p)
      | (Inl e, tok1) \<Rightarrow> (Inl e, tok1, p))"

text \<open>The copying part of \<^verbatim>\<open>parseChunkBody()\<close>, which runs while body bytes are missing.\<close>

definition copyChunkBody :: "tokenizer \<Rightarrow> chunk_parser \<Rightarrow> (exn + unit) \<times> tokenizer \<times> chunk_parser" where
  "copyChunkBody tok p =
     (let p1 = p\<lparr>hp_buf := tok_buf tok\<rparr>;
          out = the (ck_out p1);
          availSize = min (ck_leftBodySize p1) (length (hp_buf p1));
          safeSize = min availSize (mb_potentialSpaceSize out)
      in case mb_append (take safeSize (hp_buf p1)) out of
           Inl e \<Rightarrow> (Inl e, tok, p1)
         | Inr out' \<Rightarrow>
             let p2 = p1\<lparr>ck_out := Some out', hp_buf := snd (sb_consume (hp_buf p1) safeSize),
                         ck_leftBodySize := ck_leftBodySize p1 - safeSize\<rparr>
             in (Inr (), tok_reset tok (hp_buf p2), p2))"

definition parseChunkBody :: "tokenizer \<Rightarrow> chunk_parser \<Rightarrow> (exn + bool) \<times> tokenizer \<times> chunk_parser" where
  "parseChunkBody tok p =
     (case (if ck_leftBodySize p > 0 then copyChunkBody tok p else (Inr (), tok, p)) of
        (Inl e, tok1, p1) \<Rightarrow> (Inl e, tok1, p1)
      | (Inr _, tok1, p1) \<Rightarrow>
          if ck_leftBodySize p1 = 0 then parseChunkEnd tok1 p1
          else if needsMoreData p1 \<or> needsMoreSpace p1 then (Inr True, tok1, p1)
          else (Inl (TextException ''check failed: needsMoreData() || needsMoreSpace()''), tok1, p1))"

text \<open>
  The three guarded calls of the loop body, in order. \<open>Inr False\<close> stands for
  \<^verbatim>\<open>return false\<close>.
\<close>

definition chunk_then ::
  "(exn + bool) \<times> tokenizer \<times> chunk_parser \<Rightarrow>
   (tokenizer \<Rightarrow> chunk_parser \<Rightarrow> (exn + bool) \<times> tokenizer \<times> chunk_parser) \<Rightarrow>
   (exn + bool) \<times> tokenizer \<times> chunk_parser" where
  "chunk_then r k = (case r of (Inr True, tok, p) \<Rightarrow> k tok p | _ \<Rightarrow> r)"

definition trailer_limit :: nat where "trailer_limit = 64 * 1024"

definition chunk_body_step ::
  "http_config \<Rightarrow> tokenizer \<Rightarrow> chunk_parser \<Rightarrow> (exn + bool) \<times> tokenizer \<times> chunk_parser" where
  "chunk_body_step cfg tok p =
     chunk_then (if hp_stage p = HTTP_PARSE_CHUNK_EXT then parseChunkMetadataSuffix cfg tok p
                 else (Inr True, tok, p)) (\<lambda>tok1 p1.
     chunk_then (if hp_stage p1 = HTTP_PARSE_CHUNK then parseChunkBody tok1 p1
                 else (Inr True, tok1, p1)) (\<lambda>tok2 p2.
     if hp_stage p2 = HTTP_PARSE_MIME then
       (case grabMimeBlock 0 trailer_limit p2 of (ok, p3) \<Rightarrow> (Inr ok, tok2, p3))
     else (Inr True, tok2, p2)))"

lemma tok_skip_shorter: "tok_skip t s = (b, t') \<Longrightarrow> shorter t t'"
  by (auto simp: tok_skip_def shorter_def tok_success_shorter case_prod_beta split: if_splits)

lemma tok_skipRequired_shorter: "tok_skipRequired t d s = (r, t') \<Longrightarrow> shorter t t'"
  by (auto simp: tok_skipRequired_def split: prod.splits if_splits dest: tok_skip_shorter)

lemma parseChunkExtensions_shorter: "parseChunkExtensions cfg t p = (r, t', p') \<Longrightarrow> shorter t t'"
proof (induction "length (tok_buf t)" arbitrary: t p rule: less_induct)
  case less
  obtain r1 t1 where one: "ParseBws cfg t = (r1, t1)" by fastforce
  obtain b t2 where two: "tok_skip_char t1 (CHR '';'') = (b, t2)" by fastforce
  obtain r3 t3 p1 where three: "parseOneChunkExtension cfg t2 p = (r3, t3, p1)" by (metis prod_cases3)
  have IH: "shorter t t'" if "r1 = Inr ()" "b" "r3 = Inr ()" "parseChunkExtensions cfg t3 q = (r, t', p')" for q
  proof -
    have lt: "length (tok_buf t3) < length (tok_buf t)"
      using extensions_progress [of "()" t1 cfg t t2 "CHR '';''" "()" t3 p1 p] one two three that by simp
    from less.hyps [OF this that(4)] lt show ?thesis by (simp add: shorter_def)
  qed
  from less.prems show ?case
    by (subst (asm) parseChunkExtensions.simps)
      (use one two three IH in \<open>auto split: sum.splits bool.splits\<close>)
qed

lemma sb_consume_shorter: "length (snd (sb_consume s n)) \<le> length s"
proof -
  have "length (sb_chop s k npos) \<le> length s" for k
    using length_sb_chop_tail [of s k] diff_le_self order_trans by blast
  then show ?thesis by (simp add: sb_consume_def Let_def)
qed

lemma metadata_shorter:
  "parseChunkMetadataSuffix cfg t p = (Inr True, t', p') \<Longrightarrow> shorter t t'"
  by (auto simp: parseChunkMetadataSuffix_def split: prod.splits sum.splits exn.splits
      dest!: ParseStrictBws_shorter parseChunkExtensions_shorter tok_skipRequired_shorter)
    (simp_all add: shorter_def)

lemma parseChunkEnd_shorter: "parseChunkEnd t p = (r, t', p') \<Longrightarrow> shorter t t'"
  by (auto simp: parseChunkEnd_def split: prod.splits sum.splits exn.splits if_splits
      dest!: tok_skipRequired_shorter)

lemma copyChunkBody_shorter: "copyChunkBody t p = (r, t', p') \<Longrightarrow> shorter t t'"
  by (auto simp: copyChunkBody_def Let_def shorter_def sb_consume_shorter split: sum.splits)

lemma parseChunkBody_shorter: "parseChunkBody t p = (r, t', p') \<Longrightarrow> shorter t t'"
  by (auto simp: parseChunkBody_def split: prod.splits sum.splits if_splits
      dest!: copyChunkBody_shorter parseChunkEnd_shorter intro: shorter_trans)

lemma chunk_body_step_shorter:
  "chunk_body_step cfg t p = (Inr True, t', p') \<Longrightarrow> shorter t t'"
  by (auto simp: chunk_body_step_def chunk_then_def
      split: prod.splits sum.splits bool.splits if_splits
      dest!: metadata_shorter parseChunkBody_shorter intro: shorter_trans)

lemma parseChunkSize_progress:
  "parseChunkSize t p = (Inr True, t', p') \<Longrightarrow> length (tok_buf t') < length (tok_buf t)"
  by (auto simp: parseChunkSize_def split: prod.splits bool.splits if_splits
      dest!: tok_skip_shorter tok_int64_progress)
    (simp_all add: shorter_def)

function chunk_loop ::
  "http_config \<Rightarrow> tokenizer \<Rightarrow> chunk_parser \<Rightarrow> (exn + bool) \<times> chunk_parser" where
  "chunk_loop cfg tok p =
     (case chunk_body_step cfg tok p of
        (Inl e, _, p1) \<Rightarrow> (Inl e, p1)
      | (Inr False, _, p1) \<Rightarrow> (Inr False, p1)
      | (Inr True, tok1, p1) \<Rightarrow>
          (case (if hp_stage p1 = HTTP_PARSE_CHUNK_SZ then parseChunkSize tok1 p1
                 else (Inr False, tok1, p1)) of
             (Inl e, _, p2) \<Rightarrow> (Inl e, p2)
           | (Inr True, tok2, p2) \<Rightarrow> chunk_loop cfg tok2 p2
           | (Inr False, _, p2) \<Rightarrow> (Inr (\<not> needsMoreData p2 \<and> \<not> needsMoreSpace p2), p2)))"
  by pat_completeness auto

lemma loop_progress:
  assumes "(Inr True, tok1, p1) = chunk_body_step cfg t p"
    and "(Inr True, tok2, p2) = (if hp_stage p1 = HTTP_PARSE_CHUNK_SZ then parseChunkSize tok1 p1 else (Inr False, tok1, p1))"
  shows "length (tok_buf tok2) < length (tok_buf t)"
proof -
  have "shorter t tok1" using chunk_body_step_shorter assms(1) by metis
  moreover have "length (tok_buf tok2) < length (tok_buf tok1)"
    using assms(2) by (auto split: if_splits dest: parseChunkSize_progress [OF sym])
  ultimately show ?thesis by (simp add: shorter_def)
qed

termination chunk_loop
  by (relation "measure (\<lambda>(cfg, t, p). length (tok_buf t))") (auto dest: loop_progress [rotated])

declare chunk_loop.simps [simp del]

definition chunk_parse :: "http_config \<Rightarrow> bytes \<Rightarrow> chunk_parser \<Rightarrow> (exn + bool) \<times> chunk_parser" where
  "chunk_parse cfg aBuf p0 =
     (let p = p0\<lparr>hp_buf := aBuf\<rparr>
      in if hp_buf p = [] then (Inr False, p)
         else if ck_out p = None then (Inl (TextException ''check failed: !buf_.isEmpty() && theOut''), p)
         else
           let p1 = (if hp_stage p = HTTP_PARSE_NONE then p\<lparr>hp_stage := HTTP_PARSE_CHUNK_SZ\<rparr> else p)
           in chunk_loop cfg (tok_new (hp_buf p1)) p1)"

end
