(* ===== verification/Chunked_Decoding.thy ===== *)
theory Chunked_Decoding
  imports Chunked "HOL-Library.Sublist"
begin

text \<open>
  What the chunked decoder of theory \<open>Chunked\<close> guarantees: on any input it only appends input
  bytes to a buffer that stays usable and throws nothing but parse errors, and it decodes
  every well-formed chunked body to the data of its chunks.
\<close>


section \<open>Only a prefix is consumed\<close>

definition adv :: "tokenizer \<Rightarrow> tokenizer \<Rightarrow> bool" where
  "adv t t' \<longleftrightarrow> tok_ok t \<longrightarrow> (\<exists>n\<le>length (tok_buf t). t' = advance t n)"

named_theorems adv_rules \<open>methods that advance the tokenizer\<close>

lemma adv_refl [simp]: "adv t t"
  by (auto simp: adv_def intro: exI [of _ 0])

lemma adv_advance: "n \<le> length (tok_buf t) \<Longrightarrow> adv t (advance t n)"
  by (auto simp: adv_def)

lemma advI: "(tok_ok t \<Longrightarrow> t' = t \<or> (\<exists>n. t' = advance t n \<and> n \<le> length (tok_buf t))) \<Longrightarrow> adv t t'"
  unfolding adv_def by (metis advance_0 zero_le)

lemma adv_trans: "adv a b \<Longrightarrow> adv b c \<Longrightarrow> adv a c"
  unfolding adv_def
  by (metis (no_types, lifting) advance_advance length_drop le_diff_conv2 add.commute tok_buf_advance tok_ok_advance)

lemma adv_ok: "adv t t' \<Longrightarrow> tok_ok t \<Longrightarrow> tok_ok t'"
  by (auto simp: adv_def)

lemma adv_split: "adv t t' \<Longrightarrow> tok_ok t \<Longrightarrow> \<exists>pre. tok_buf t = pre @ tok_buf t'"
  by (auto simp: adv_def) (metis append_take_drop_id)

lemma adv_skip_char [adv_rules]: "tok_skip_char t c = (b, t') \<Longrightarrow> adv t t'"
  by (rule advI, cases "tok_buf t") (auto simp: tok_skip_char_eq split: if_splits)

lemma adv_skipAll: "adv t (snd (tok_skipAll t cs))"
  by (rule advI) (auto simp: tok_skipAll_eq length_takeWhile_le)

lemma adv_bws [adv_rules]: "ParseBws cfg t = (r, t') \<Longrightarrow> adv t t'" "ParseStrictBws t = (r, t') \<Longrightarrow> adv t t'"
  using adv_skipAll by (auto simp: ParseBws_def ParseStrictBws_def ParseBws_common_def split: prod.splits if_splits)
    (metis snd_conv)+

lemma adv_prefix [adv_rules]:
  assumes "tok_prefix t cs n = (r, t')" "n = npos \<or> n < 4294967296" shows "adv t t'"
proof -
  have "n < 4294967296" using assms(2) by (auto simp: npos_def)
  then show ?thesis using assms(1) length_takeWhile_le [of "cs_index cs" "take n (tok_buf t)"]
    by (intro advI) (auto simp: tok_prefix_eq Let_def split: if_splits)
qed

lemma adv_prefix_req [adv_rules]: "tok_prefix_req t d cs npos = (r, t') \<Longrightarrow> adv t t'"
  by (auto simp: tok_prefix_req_def split: prod.splits option.splits if_splits dest: adv_prefix)

lemma adv_int64 [adv_rules]: "tok_int64 t base sign npos = (r, t') \<Longrightarrow> adv t t'"
proof (erule tok_int64_cases)
  fix k
  assume k: "k \<le> length (sb_substr (tok_buf t) 0 npos)" "t' = snd (tok_success t k)"
  show "adv t t'" unfolding adv_def
  proof
    assume ok: "tok_ok t"
    then have "k \<le> length (tok_buf t)" using k(1) by (simp add: sb_substr_tail tok_ok_sb_ok)
    with k ok show "\<exists>n\<le>length (tok_buf t). t' = advance t n" by (auto simp: tok_success_le)
  qed
qed simp

lemma adv_udec64 [adv_rules]: "tok_udec64 t d npos = (r, t') \<Longrightarrow> adv t t'"
  by (auto simp: tok_udec64_def split: prod.splits if_splits option.splits dest: adv_int64)

lemma adv_skip [adv_rules]: "tok_skip t s = (b, t') \<Longrightarrow> sb_ok s \<Longrightarrow> adv t t'"
  by (rule advI) (auto simp: tok_skip_eq split: if_splits dest: take_length_eq_imp_le)

lemma sb_ok_CrLf [simp]: "sb_ok CrLf"
  by (simp add: CrLf_def sb_ok_def maxSize_def)

lemma adv_skipRequired [adv_rules]: "tok_skipRequired t d CrLf = (r, t') \<Longrightarrow> adv t t'"
  by (auto simp: tok_skipRequired_def split: prod.splits if_splits dest: adv_skip)

lemma adv_quoted_loop [adv_rules]: "quoted_loop h t s = (r, t') \<Longrightarrow> adv t t'"
proof (induction "length (tok_buf t)" arbitrary: t s rule: less_induct)
  case less
  obtain qd t1 where one: "tok_prefix t (if h then qdtext1p0 else qdtext1p1) npos = (qd, t1)" by fastforce
  obtain b t2 where two: "(if h then (False, t1) else tok_skip_char t1 BSLASH) = (b, t2)" by fastforce
  obtain e t3 where three: "tok_prefix t2 qPairChars 1 = (e, t3)" by fastforce
  obtain d t4 where four: "tok_skip_char t2 DQ = (d, t4)" by fastforce
  have s1: "adv t t1" using adv_prefix [OF one] by simp
  have s2: "adv t1 t2" using two adv_skip_char [of t1 BSLASH] by (auto split: if_splits)
  have s3: "adv t2 t3" using adv_prefix [OF three] by simp
  have s4: "adv t2 t4" using adv_skip_char [OF four] .
  have IH: "adv t t'" if "b" "e = Some x" "quoted_loop h t3 s' = (r, t')" for x s'
  proof -
    have "length (tok_buf t3) < length (tok_buf t)"
      using quoted_progress [of qd t1 t "if h then qdtext1p0 else qdtext1p1" t2 h x t3 qPairChars]
        one two three that by simp
    from less.hyps [OF this that(3)] s1 s2 s3 show ?thesis by (blast intro: adv_trans)
  qed
  from less.prems show ?case
    by (subst (asm) quoted_loop.simps)
      (use one two three four s1 s2 s3 s4 IH in
        \<open>auto simp: Let_def split: if_splits bool.splits option.splits intro: adv_trans\<close>)
qed

lemma adv_tokenOrQuotedString [adv_rules]: "tokenOrQuotedString t h = (r, t') \<Longrightarrow> adv t t'"
  by (auto simp: tokenOrQuotedString_def parseQuotedStringSuffix_def
      split: prod.splits if_splits option.splits bool.splits
      dest!: adv_skip_char adv_prefix adv_quoted_loop intro: adv_trans)

lemma adv_ext_value [adv_rules]: "ext_value t nm p = (r, t', p') \<Longrightarrow> adv t t'"
  by (auto simp: ext_value_def icap_ext_parse_def ext_Ignore_def
      split: prod.splits if_splits option.splits sum.splits
      dest!: adv_udec64 adv_tokenOrQuotedString)

lemma adv_parseOneChunkExtension [adv_rules]:
  assumes "parseOneChunkExtension cfg t p = (r, t', p')"
  shows "adv t t'"
proof -
  obtain r1 t1 where 1: "ParseBws cfg t = (r1, t1)" by fastforce
  obtain r2 t2 where 2: "tok_prefix_req t1 ''chunk-ext-name'' cs_TCHAR npos = (r2, t2)" by fastforce
  obtain r3 t3 where 3: "ParseBws cfg t2 = (r3, t3)" by fastforce
  obtain r4 t4 where 4: "tok_skip_char t3 (CHR ''='') = (r4, t4)" by fastforce
  obtain r5 t5 where 5: "ParseBws cfg t4 = (r5, t5)" by fastforce
  have "t' = t \<or> t' = t2 \<or> (\<exists>nm r6 q. ext_value t5 nm p = (r6, t', q))"
    using assms by (auto simp: parseOneChunkExtension_def 1 2 3 4 5 split: sum.splits bool.splits prod.splits)
  moreover have a: "adv t t2" using adv_trans [OF adv_bws(1) [OF 1] adv_prefix_req [OF 2]] .
  moreover have "adv t t5"
    using adv_trans [OF a adv_trans [OF adv_bws(1) [OF 3] adv_trans [OF adv_skip_char [OF 4] adv_bws(1) [OF 5]]]] .
  ultimately show ?thesis using adv_trans adv_ext_value by fastforce
qed

lemma adv_parseChunkExtensions [adv_rules]: "parseChunkExtensions cfg t p = (r, t', p') \<Longrightarrow> adv t t'"
proof (induction "length (tok_buf t)" arbitrary: t p rule: less_induct)
  case less
  obtain r1 t1 where one: "ParseBws cfg t = (r1, t1)" by fastforce
  obtain b t2 where two: "tok_skip_char t1 (CHR '';'') = (b, t2)" by fastforce
  obtain r3 t3 p1 where three: "parseOneChunkExtension cfg t2 p = (r3, t3, p1)" by (metis prod_cases3)
  have a: "adv t t3"
    using adv_trans [OF adv_bws(1) [OF one] adv_trans [OF adv_skip_char [OF two] adv_parseOneChunkExtension [OF three]]] .
  have IH: "adv t t'" if "r1 = Inr ()" "b" "r3 = Inr ()" "parseChunkExtensions cfg t3 q = (r, t', p')" for q
  proof -
    have "length (tok_buf t3) < length (tok_buf t)"
      using extensions_progress [of "()" t1 cfg t t2 "CHR '';''" "()" t3 p1 p] one two three that by simp
    from less.hyps [OF this that(4)] a show ?thesis by (blast intro: adv_trans)
  qed
  from less.prems show ?case
    by (subst (asm) parseChunkExtensions.simps)
      (use one two three IH in \<open>auto split: sum.splits bool.splits\<close>)
qed

section \<open>What is thrown, and what is written\<close>

definition thrown :: "exn \<Rightarrow> bool" where
  "thrown e \<longleftrightarrow> e = InsufficientInput \<or> (\<exists>s. e = TextException s)"

lemma thrown_simps [simp]: "thrown InsufficientInput" "thrown (TextException s)" "\<not> thrown (AssertFailure s)"
  by (simp_all add: thrown_def)

lemma bws_throws: "ParseBws cfg t = (Inl e, t') \<Longrightarrow> thrown e" "ParseStrictBws t = (Inl e, t') \<Longrightarrow> thrown e"
  by (auto simp: ParseBws_def ParseStrictBws_def ParseBws_common_def split: prod.splits if_splits)

lemma prefix_req_throws: "tok_prefix_req t d cs n = (Inl e, t') \<Longrightarrow> thrown e"
  by (auto simp: tok_prefix_req_def split: prod.splits if_splits option.splits)

lemma udec64_throws: "tok_udec64 t d n = (Inl e, t') \<Longrightarrow> thrown e"
  by (auto simp: tok_udec64_def split: prod.splits if_splits option.splits)

lemma skipRequired_throws: "tok_skipRequired t d s = (Inl e, t') \<Longrightarrow> thrown e"
  by (auto simp: tok_skipRequired_def split: prod.splits if_splits)

lemma quoted_loop_throws: "quoted_loop h t s = (Inl e, t') \<Longrightarrow> thrown e"
proof (induction "length (tok_buf t)" arbitrary: t s rule: less_induct)
  case less
  obtain qd t1 where one: "tok_prefix t (if h then qdtext1p0 else qdtext1p1) npos = (qd, t1)" by fastforce
  obtain b t2 where two: "(if h then (False, t1) else tok_skip_char t1 BSLASH) = (b, t2)" by fastforce
  obtain x t3 where three: "tok_prefix t2 qPairChars 1 = (x, t3)" by fastforce
  have IH: "thrown e" if "b" "x = Some y" "quoted_loop h t3 s' = (Inl e, t')" for y s'
    using less.hyps [OF _ that(3)] one two three that
      quoted_progress [of qd t1 t "if h then qdtext1p0 else qdtext1p1" t2 h y t3 qPairChars] by simp
  from less.prems show ?case
    by (subst (asm) quoted_loop.simps)
      (use one two three IH in \<open>auto simp: Let_def split: if_splits bool.splits option.splits prod.splits\<close>)
qed

lemma tokenOrQuotedString_throws: "tokenOrQuotedString t h = (Inl e, t') \<Longrightarrow> thrown e"
  by (auto simp: tokenOrQuotedString_def parseQuotedStringSuffix_def
      split: prod.splits if_splits option.splits bool.splits dest: quoted_loop_throws)

lemma tok_int64_nonneg: "tok_ok t \<Longrightarrow> tok_int64 t 10 False npos = (Some v, t') \<Longrightarrow> 0 \<le> v"
  using tok_int64_unsigned [of t npos 10] by (auto simp: npos_def Let_def split: if_splits)

lemma ext_value_throws:
  assumes "tok_ok t" "ext_value t nm p = (Inl e, t', p')"
  shows "thrown e"
  using assms tok_int64_nonneg
  by (auto simp: ext_value_def icap_ext_parse_def ext_Ignore_def tok_udec64_def
      split: prod.splits if_splits option.splits sum.splits
      dest: tokenOrQuotedString_throws)

text \<open>Parsing metadata changes neither the output buffer nor the sizes.\<close>

definition same_body :: "chunk_parser \<Rightarrow> chunk_parser \<Rightarrow> bool" where
  "same_body p p' \<longleftrightarrow>
     ck_out p' = ck_out p \<and> ck_chunkSize p' = ck_chunkSize p \<and> ck_leftBodySize p' = ck_leftBodySize p \<and>
     hp_stage p' = hp_stage p \<and> hp_proto p' = hp_proto p \<and> hp_mime p' = hp_mime p"

lemma same_body_refl [simp]: "same_body p p"
  by (simp add: same_body_def)

lemma same_body_trans: "same_body a b \<Longrightarrow> same_body b c \<Longrightarrow> same_body a c"
  by (simp add: same_body_def)

lemma ext_value_same: "ext_value t nm p = (r, t', p') \<Longrightarrow> same_body p p'"
  by (auto simp: ext_value_def same_body_def split: prod.splits option.splits)

lemma parseOneChunkExtension_effect:
  assumes ok: "tok_ok t" and run: "parseOneChunkExtension cfg t p = (r, t', p')"
  shows "same_body p p' \<and> (\<forall>e. r = Inl e \<longrightarrow> thrown e)"
proof -
  obtain r1 t1 where 1: "ParseBws cfg t = (r1, t1)" by fastforce
  obtain r2 t2 where 2: "tok_prefix_req t1 ''chunk-ext-name'' cs_TCHAR npos = (r2, t2)" by fastforce
  obtain r3 t3 where 3: "ParseBws cfg t2 = (r3, t3)" by fastforce
  obtain r4 t4 where 4: "tok_skip_char t3 (CHR ''='') = (r4, t4)" by fastforce
  obtain r5 t5 where 5: "ParseBws cfg t4 = (r5, t5)" by fastforce
  have a: "adv t t2" using adv_trans [OF adv_bws(1) [OF 1] adv_prefix_req [OF 2]] .
  have "adv t t5"
    using adv_trans [OF a adv_trans [OF adv_bws(1) [OF 3] adv_trans [OF adv_skip_char [OF 4] adv_bws(1) [OF 5]]]] .
  then have ok5: "tok_ok t5" using ok adv_ok by blast
  consider "p' = p" "\<forall>e. r = Inl e \<longrightarrow> thrown e"
    | nm r6 t6 where "ext_value t5 nm p = (r6, t6, p')" "\<forall>e. r = Inl e \<longrightarrow> r6 = Inl e"
    using run 1 2 3 4 5 bws_throws(1) prefix_req_throws
    by (auto simp: parseOneChunkExtension_def split: sum.splits bool.splits prod.splits)
  then show ?thesis
  proof cases
    case 2
    with ext_value_same [OF 2(1)] ext_value_throws [OF ok5, of nm p _ t6 p'] show ?thesis by auto
  qed simp
qed

lemma parseChunkExtensions_effect:
  "tok_ok t \<Longrightarrow> parseChunkExtensions cfg t p = (r, t', p') \<Longrightarrow>
     same_body p p' \<and> (\<forall>e. r = Inl e \<longrightarrow> thrown e)"
proof (induction "length (tok_buf t)" arbitrary: t p rule: less_induct)
  case less
  obtain r1 t1 where one: "ParseBws cfg t = (r1, t1)" by fastforce
  obtain b t2 where two: "tok_skip_char t1 (CHR '';'') = (b, t2)" by fastforce
  obtain r3 t3 p1 where three: "parseOneChunkExtension cfg t2 p = (r3, t3, p1)" by (metis prod_cases3)
  have a2: "adv t t2" using adv_trans [OF adv_bws(1) [OF one] adv_skip_char [OF two]] .
  have ok2: "tok_ok t2" using adv_ok [OF a2 less.prems(1)] .
  have ok3: "tok_ok t3" using adv_ok [OF adv_parseOneChunkExtension [OF three] ok2] .
  note eff = parseOneChunkExtension_effect [OF ok2 three]
  have s1: "same_body p (p1\<lparr>hp_buf := x\<rparr>)" for x using eff by (simp add: same_body_def)
  have IH: "?case" if "r1 = Inr ()" "b" "r3 = Inr ()"
    "parseChunkExtensions cfg t3 (p1\<lparr>hp_buf := tok_buf t3\<rparr>) = (r, t', p')"
  proof -
    have "length (tok_buf t3) < length (tok_buf t)"
      using extensions_progress [of "()" t1 cfg t t2 "CHR '';''" "()" t3 p1 p] one two three that by simp
    from less.hyps [OF this ok3 that(4)] s1 show ?thesis by (blast intro: same_body_trans)
  qed
  from less.prems(2) show ?case
    by (subst (asm) parseChunkExtensions.simps)
      (use one two three IH eff bws_throws(1) in \<open>auto split: sum.splits bool.splits\<close>)
qed

lemma metadata_effect:
  assumes ok: "tok_ok t" and run: "parseChunkMetadataSuffix cfg t p = (r, t', p')"
  shows "ck_out p' = ck_out p \<and> (\<forall>e. r = Inl e \<longrightarrow> (\<exists>s. e = TextException s)) \<and> (r = Inr True \<longrightarrow> adv t t')"
proof -
  obtain r1 t1 where 1: "ParseStrictBws t = (r1, t1)" by fastforce
  obtain r2 t2 p1 where 2: "parseChunkExtensions cfg t1 p = (r2, t2, p1)" by (metis prod_cases3)
  obtain r3 t3 where 3: "tok_skipRequired t2 ''CRLF after [chunk-ext]'' CrLf = (r3, t3)" by fastforce
  have ok1: "tok_ok t1" using adv_ok [OF adv_bws(2) [OF 1] ok] .
  have a: "adv t t3"
    using adv_trans [OF adv_bws(2) [OF 1] adv_trans [OF adv_parseChunkExtensions [OF 2] adv_skipRequired [OF 3]]] .
  have eff: "ck_out p1 = ck_out p" "\<And>e. r2 = Inl e \<Longrightarrow> thrown e"
    using parseChunkExtensions_effect [OF ok1 2] by (auto simp: same_body_def)
  have th: "\<And>e. r1 = Inl e \<Longrightarrow> thrown e" "\<And>e. r3 = Inl e \<Longrightarrow> thrown e"
    using bws_throws(2) 1 skipRequired_throws 3 by blast+
  show ?thesis
    using run a eff th
    by (cases r1; cases r2; cases r3)
      (auto simp: parseChunkMetadataSuffix_def 1 2 3 thrown_def split: exn.splits)
qed

definition out_ok :: "chunk_parser \<Rightarrow> bool" where
  "out_ok p \<longleftrightarrow> (\<exists>mb. ck_out p = Some mb \<and> mb_ok mb)"

definition ck_content :: "chunk_parser \<Rightarrow> bytes" where
  "ck_content p = mb_content (the (ck_out p))"

lemma out_ok_cong: "ck_out p' = ck_out p \<Longrightarrow> out_ok p' = out_ok p \<and> ck_content p' = ck_content p"
  by (simp add: out_ok_def ck_content_def)

lemma copyChunkBody_effect:
  assumes ok: "tok_ok t" and out: "out_ok p"
  shows "\<exists>n t' p'. copyChunkBody t p = (Inr (), t', p') \<and> out_ok p' \<and>
    n = min (min (ck_leftBodySize p) (length (tok_buf t))) (mb_potentialSpaceSize (the (ck_out p))) \<and>
    ck_content p' = ck_content p @ take n (tok_buf t) \<and>
    t' = tok_new (drop n (tok_buf t)) \<and> hp_buf p' = drop n (tok_buf t) \<and>
    ck_leftBodySize p' = ck_leftBodySize p - n \<and> ck_chunkSize p' = ck_chunkSize p \<and>
    hp_stage p' = hp_stage p \<and> hp_proto p' = hp_proto p \<and> hp_mime p' = hp_mime p \<and>
    ck_extension p' = ck_extension p \<and> hp_status p' = hp_status p \<and> hp_hackExpectsMime p' = hp_hackExpectsMime p \<and>
    mb_max_capacity (the (ck_out p')) = mb_max_capacity (the (ck_out p))"
proof -
  obtain mb where mb: "ck_out p = Some mb" "mb_ok mb" using out by (auto simp: out_ok_def)
  define n where "n = min (min (ck_leftBodySize p) (length (tok_buf t))) (mb_potentialSpaceSize mb)"
  have "length (take n (tok_buf t)) \<le> mb_potentialSpaceSize mb" by (simp add: n_def)
  then obtain mb' where mb': "mb_append (take n (tok_buf t)) mb = Inr mb'" "mb_ok mb'"
    "mb_content mb' = mb_content mb @ take n (tok_buf t)" "mb_max_capacity mb' = mb_max_capacity mb"
    using mb_append_ok [OF mb(2)] by blast
  have "n < 4294967296" using sb_ok_length [OF tok_ok_sb_ok [OF ok]] by (simp add: n_def npos_def)
  then have con: "snd (sb_consume (tok_buf t) n) = drop n (tok_buf t)"
    using sb_consume_eq [OF tok_ok_sb_ok [OF ok]] by simp
  have copy: "copyChunkBody t p = (Inr (), tok_reset t (drop n (tok_buf t)),
      p\<lparr>hp_buf := drop n (tok_buf t), ck_out := Some mb', ck_leftBodySize := ck_leftBodySize p - n\<rparr>)"
    using mb mb'(1) con by (simp add: copyChunkBody_def Let_def n_def [symmetric])
  have "tok_reset t (drop n (tok_buf t)) = tok_new (drop n (tok_buf t))"
    by (simp add: tok_reset_def tok_undoParse_def tok_new_def)
  with copy mb mb' show ?thesis by (simp add: out_ok_def ck_content_def n_def [symmetric])
qed

lemma parseChunkEnd_effect:
  assumes ok: "tok_ok t" and run: "parseChunkEnd t p = (r, t', p')"
  shows "ck_out p' = ck_out p \<and> adv t t' \<and> (\<forall>e. r = Inl e \<longrightarrow> (\<exists>s. e = TextException s))"
proof -
  obtain r1 t1 where 1: "tok_skipRequired t ''chunk CRLF'' CrLf = (r1, t1)" by fastforce
  have "\<And>e. r1 = Inl e \<Longrightarrow> thrown e" using skipRequired_throws 1 by blast
  with run adv_skipRequired [OF 1] show ?thesis
    by (cases r1) (auto simp: parseChunkEnd_def 1 thrown_def split: if_splits exn.splits)
qed

definition emits :: "bytes \<Rightarrow> chunk_parser \<Rightarrow> bytes \<Rightarrow> chunk_parser \<Rightarrow> bool" where
  "emits s p s' p' \<longleftrightarrow> out_ok p' \<and>
     (\<exists>pre x. s = pre @ s' \<and> ck_content p' = ck_content p @ x \<and> subseq x pre)"

lemma emitsI:
  "out_ok p' \<Longrightarrow> s = pre @ s' \<Longrightarrow> ck_content p' = ck_content p @ x \<Longrightarrow> subseq x pre \<Longrightarrow> emits s p s' p'"
  unfolding emits_def by blast

lemma emitsE:
  assumes "emits s p s' p'"
  obtains pre x where "out_ok p'" "s = pre @ s'" "ck_content p' = ck_content p @ x" "subseq x pre"
  using assms unfolding emits_def by blast

lemma emits_nothing: "out_ok p \<Longrightarrow> ck_out p' = ck_out p \<Longrightarrow> s = pre @ s' \<Longrightarrow> emits s p s' p'"
  using out_ok_cong [of p' p] by (intro emitsI [of _ _ pre _ _ "[]"]) simp_all

lemma emits_trans:
  assumes "emits s p s' p'" "emits s' p' s'' p''"
  shows "emits s p s'' p''"
proof -
  obtain a x where a: "s = a @ s'" "ck_content p' = ck_content p @ x" "subseq x a"
    using assms(1) by (rule emitsE)
  obtain b y where b: "out_ok p''" "s' = b @ s''" "ck_content p'' = ck_content p' @ y" "subseq y b"
    using assms(2) by (rule emitsE)
  show ?thesis
    by (rule emitsI [of _ _ "a @ b" _ _ "x @ y"]) (simp_all add: a b list_emb_append_mono)
qed

lemma emits_all:
  assumes "emits s p s' p'"
  shows "emits s p [] p'"
proof -
  obtain a x where a: "out_ok p'" "s = a @ s'" "ck_content p' = ck_content p @ x" "subseq x a"
    using assms by (rule emitsE)
  then show ?thesis using list_emb_append2 [of "(=)" x a s'] list_emb_append_mono [of "(=)" x a "[]" s']
    by (intro emitsI [of _ _ s _ _ x]) simp_all
qed

lemma parseChunkBody_effect:
  assumes ok: "tok_ok t" and out: "out_ok p" and run: "parseChunkBody t p = (r, t', p')"
  shows "emits (tok_buf t) p (tok_buf t') p' \<and> tok_ok t' \<and> (\<forall>e. r = Inl e \<longrightarrow> (\<exists>s. e = TextException s))"
proof -
  obtain r1 t1 p1 where 1: "(if ck_leftBodySize p > 0 then copyChunkBody t p else (Inr (), t, p)) = (r1, t1, p1)"
    by (metis prod_cases3)
  have e1: "r1 = Inr () \<and> emits (tok_buf t) p (tok_buf t1) p1 \<and> tok_ok t1"
  proof (cases "ck_leftBodySize p > 0")
    case True
    from copyChunkBody_effect [OF ok out] obtain n where
      "r1 = Inr ()" "out_ok p1" "ck_content p1 = ck_content p @ take n (tok_buf t)" "t1 = tok_new (drop n (tok_buf t))"
      using 1 True by auto
    moreover have "tok_ok (tok_new (drop n (tok_buf t)))" using tok_ok_sb_ok [OF ok] by simp
    ultimately show ?thesis
      by (auto intro: emitsI [of _ _ "take n (tok_buf t)" _ _ "take n (tok_buf t)"])
  qed (use 1 ok out emits_nothing [of p p _ "[]"] in auto)
  show ?thesis
  proof (cases "ck_leftBodySize p1 = 0")
    case True
    then have e: "parseChunkEnd t1 p1 = (r, t', p')" using run 1 e1 by (simp add: parseChunkBody_def)
    have ok1: "tok_ok t1" using e1 by blast
    note eff = parseChunkEnd_effect [OF ok1 e]
    obtain pre where "tok_buf t1 = pre @ tok_buf t'" using adv_split eff ok1 by blast
    moreover have "out_ok p1" using e1 by (auto simp: emits_def)
    ultimately have "emits (tok_buf t1) p1 (tok_buf t') p'" using eff emits_nothing by blast
    with eff e1 adv_ok [of t1 t'] show ?thesis by (blast intro: emits_trans)
  next
    case False
    with run 1 e1 show ?thesis by (auto simp: parseChunkBody_def split: if_splits)
  qed
qed

lemma chunk_body_step_effect:
  assumes ok: "tok_ok t" and out: "out_ok p" and run: "chunk_body_step cfg t p = (r, t', p')"
  shows "emits (tok_buf t) p [] p' \<and> (r = Inr True \<longrightarrow> emits (tok_buf t) p (tok_buf t') p' \<and> tok_ok t') \<and>
    (\<forall>e. r = Inl e \<longrightarrow> (\<exists>s. e = TextException s))"
proof -
  obtain r1 t1 p1 where 1: "(if hp_stage p = HTTP_PARSE_CHUNK_EXT then parseChunkMetadataSuffix cfg t p
      else (Inr True, t, p)) = (r1, t1, p1)" by (metis prod_cases3)
  have e1: "ck_out p1 = ck_out p" "\<And>e. r1 = Inl e \<Longrightarrow> \<exists>s. e = TextException s" "r1 = Inr True \<Longrightarrow> adv t t1"
    using 1 metadata_effect [OF ok, of cfg p] by (auto split: if_splits)
  have em1: "emits (tok_buf t) p [] p1" using emits_nothing [OF out e1(1), of _ "tok_buf t" "[]"] by simp
  show ?thesis
  proof (cases "r1 = Inr True")
    case False
    then have "r = r1" "p' = p1" using run 1
      by (auto simp: chunk_body_step_def chunk_then_def split: sum.splits bool.splits)
    with False em1 e1(2) show ?thesis by auto
  next
    case True
    with e1(3) have a: "adv t t1" by simp
    have ok1: "tok_ok t1" and out1: "out_ok p1" using adv_ok [OF a ok] out_ok_cong [OF e1(1)] out by auto
    obtain pre where "tok_buf t = pre @ tok_buf t1" using adv_split [OF a ok] by blast
    then have em: "emits (tok_buf t) p (tok_buf t1) p1" using emits_nothing [OF out e1(1)] by blast
    obtain r2 t2 p2 where 2: "(if hp_stage p1 = HTTP_PARSE_CHUNK then parseChunkBody t1 p1 else (Inr True, t1, p1)) = (r2, t2, p2)"
      by (metis prod_cases3)
    have e2: "emits (tok_buf t1) p1 (tok_buf t2) p2" "tok_ok t2" "\<And>e. r2 = Inl e \<Longrightarrow> \<exists>s. e = TextException s"
      using 2 parseChunkBody_effect [OF ok1 out1] ok1 emits_nothing [OF out1, of p1 _ "[]"] by (auto split: if_splits)
    have em2: "emits (tok_buf t) p (tok_buf t2) p2" using emits_trans [OF em e2(1)] .
    obtain b p3 where g: "grabMimeBlock 0 trailer_limit p2 = (b, p3)" by fastforce
    have same: "ck_out p3 = ck_out p2"
      using g by (auto simp: grabMimeBlock_def Let_def split: if_splits prod.splits)
    have "out_ok p2" using e2(1) by (auto simp: emits_def)
    then have em3: "emits (tok_buf t2) p2 (tok_buf t2) p3" using emits_nothing [OF _ same, of _ "[]"] by simp
    consider "r2 \<noteq> Inr True" "r = r2" "p' = p2" | "r2 = Inr True" "hp_stage p2 = HTTP_PARSE_MIME" "p' = p3" "t' = t2" "r = Inr b"
      | "r2 = Inr True" "p' = p2" "t' = t2" "r = Inr True"
      using run 1 2 True g
      by (auto simp: chunk_body_step_def chunk_then_def split: sum.splits bool.splits if_splits)
    then show ?thesis
      by cases (use em2 em3 e2 emits_all emits_trans in \<open>blast+\<close>)
  qed
qed

lemma parseChunkSize_effect:
  assumes "tok_ok t" "parseChunkSize t p = (r, t', p')"
  shows "ck_out p' = ck_out p \<and> adv t t' \<and> (\<forall>e. r = Inl e \<longrightarrow> (\<exists>s. e = TextException s))"
proof -
  have ok: "sb_ok ''0x''" "sb_ok ''0X''" by (simp_all add: sb_ok_def maxSize_def)
  obtain b1 t1 where 1: "tok_skip t ''0x'' = (b1, t1)" by fastforce
  obtain b2 t2 where 2: "tok_skip t1 ''0X'' = (b2, t2)" by fastforce
  obtain v t3 where 3: "tok_int64 t2 16 False npos = (v, t3)" by fastforce
  have a: "adv t t1" "adv t t2" "adv t t3"
    using adv_skip [OF 1 ok(1)] adv_skip [OF 2 ok(2)] adv_int64 [OF 3] adv_trans by blast+
  then show ?thesis using assms(2)
    by (auto simp: parseChunkSize_def 1 2 3 split: if_splits bool.splits)
qed

lemma chunk_loop_effect:
  "tok_ok t \<Longrightarrow> out_ok p \<Longrightarrow> chunk_loop cfg t p = (r, p') \<Longrightarrow>
     emits (tok_buf t) p [] p' \<and> (\<forall>e. r = Inl e \<longrightarrow> (\<exists>s. e = TextException s))"
proof (induction "length (tok_buf t)" arbitrary: t p rule: less_induct)
  case less
  obtain r1 t1 p1 where 1: "chunk_body_step cfg t p = (r1, t1, p1)" by (metis prod_cases3)
  note e1 = chunk_body_step_effect [OF less.prems(1,2) 1]
  obtain r2 t2 p2 where 2: "(if hp_stage p1 = HTTP_PARSE_CHUNK_SZ then parseChunkSize t1 p1 else (Inr False, t1, p1)) = (r2, t2, p2)"
    by (metis prod_cases3)
  show ?case
  proof (cases "r1 = Inr True")
    case False
    then have "r = r1" "p' = p1" using less.prems(3)
      by (subst (asm) chunk_loop.simps, auto simp: 1 split: sum.splits bool.splits)+
    with e1 show ?thesis by blast
  next
    case True
    then have em: "emits (tok_buf t) p (tok_buf t1) p1" and ok1: "tok_ok t1" using e1 by auto
    have e2: "ck_out p2 = ck_out p1" "adv t1 t2" "\<And>e. r2 = Inl e \<Longrightarrow> \<exists>s. e = TextException s"
      using 2 parseChunkSize_effect [OF ok1] by (auto split: if_splits)
    obtain pre where "tok_buf t1 = pre @ tok_buf t2" using adv_split [OF e2(2) ok1] by blast
    moreover have "out_ok p1" using em by (auto simp: emits_def)
    ultimately have em2: "emits (tok_buf t) p (tok_buf t2) p2"
      using emits_nothing [OF _ e2(1)] emits_trans [OF em] by blast
    show ?thesis
    proof (cases "r2 = Inr True")
      case rec: True
      have "chunk_loop cfg t2 p2 = (r, p')"
        using less.prems(3) by (subst (asm) chunk_loop.simps) (simp add: 1 2 True rec)
      moreover have "length (tok_buf t2) < length (tok_buf t)"
        using loop_progress [of t1 p1 cfg t p t2 p2] 1 2 True rec by simp
      moreover have "tok_ok t2" "out_ok p2" using adv_ok [OF e2(2) ok1] em2 by (auto simp: emits_def)
      ultimately show ?thesis using less.hyps emits_trans [OF em2] by blast
    next
      case False
      then have "p' = p2" "r = r2 \<or> (\<exists>b. r = Inr b)"
        using less.prems(3)
        by (subst (asm) chunk_loop.simps, auto simp: 1 2 True split: sum.splits bool.splits)+
      with em2 emits_all e2(3) show ?thesis by blast
    qed
  qed
qed

text \<open>C13. Whatever bytes arrive, a call of the chunk parser with a usable output buffer leaves that buffer
  usable, never removes or reorders what it holds, appends only bytes taken from the input in their
  order, and any exception that escapes is a parse error: no assertion of the buffer or
  the parser can fail.\<close>

theorem chunk_parse_safe:
  assumes ok: "sb_ok aBuf" and out: "out_ok p" and run: "chunk_parse cfg aBuf p = (r, p')"
  shows "out_ok p' \<and> (\<exists>x. ck_content p' = ck_content p @ x \<and> subseq x aBuf) \<and>
    (\<forall>e. r = Inl e \<longrightarrow> (\<exists>s. e = TextException s))"
proof -
  have c: "out_ok (p\<lparr>hp_buf := b\<rparr>) = out_ok p" "ck_content (p\<lparr>hp_buf := b\<rparr>) = ck_content p"
    "out_ok (p\<lparr>hp_buf := b, hp_stage := s\<rparr>) = out_ok p" "ck_content (p\<lparr>hp_buf := b, hp_stage := s\<rparr>) = ck_content p"
    for b s by (simp_all add: out_ok_def ck_content_def)
  show ?thesis
  proof (cases "aBuf = []")
    case True
    with run out c show ?thesis by (auto simp: chunk_parse_def)
  next
    case False
    define p1 where "p1 = (if hp_stage p = HTTP_PARSE_NONE then p\<lparr>hp_buf := aBuf, hp_stage := HTTP_PARSE_CHUNK_SZ\<rparr> else p\<lparr>hp_buf := aBuf\<rparr>)"
    have "ck_out p \<noteq> None" using out by (auto simp: out_ok_def)
    then have "chunk_loop cfg (tok_new aBuf) p1 = (r, p')"
      using run False by (auto simp: chunk_parse_def p1_def Let_def split: if_splits)
    moreover have "out_ok p1" "ck_content p1 = ck_content p" using out c by (auto simp: p1_def)
    moreover have "tok_ok (tok_new aBuf)" using ok by simp
    ultimately show ?thesis using chunk_loop_effect [of "tok_new aBuf" p1 cfg r p'] by (auto simp: emits_def)
  qed
qed

section \<open>Decoding a well-formed chunked body\<close>

definition is_size :: "bytes \<Rightarrow> nat \<Rightarrow> bool" where
  "is_size ds n \<longleftrightarrow> ds \<noteq> [] \<and> list_all (is_digit_in 16) ds \<and> number_of 16 ds 0 = n \<and> n \<le> int64_max"

definition encode_chunk :: "bytes \<times> bytes \<Rightarrow> bytes" where
  "encode_chunk c = fst c @ CrLf @ snd c @ CrLf"

definition is_chunk :: "bytes \<times> bytes \<Rightarrow> bool" where
  "is_chunk c \<longleftrightarrow> snd c \<noteq> [] \<and> is_size (fst c) (length (snd c))"

lemma of_char_xtolower: "(of_char (xtolower c) :: nat) = (if xisupper c then of_char c + 32 else of_char c)"
  by (auto simp: xtolower_def xisupper_def)

lemma is_digit_in_16: "is_digit_in 16 c \<longleftrightarrow>
    (of_char c :: nat) \<in> {48..57} \<or> (of_char c :: nat) \<in> {65..70} \<or> (of_char c :: nat) \<in> {97..102}"
  by (auto simp: is_digit_in_def digit_value_def ctype_defs split: option.splits)

lemma is_digit_in_16_not_x: "is_digit_in 16 c \<Longrightarrow> xtolower c \<noteq> CHR ''x''"
proof
  assume "is_digit_in 16 c" "xtolower c = CHR ''x''"
  then have "(of_char (xtolower c) :: nat) = 120" by simp
  with \<open>is_digit_in 16 c\<close> show False unfolding of_char_xtolower
    by (auto simp: is_digit_in_16 xisupper_def split: if_splits)
qed

lemma xtolower_x: "xtolower (CHR ''X'') = CHR ''x''" "xtolower (CHR ''x'') = CHR ''x''"
  by code_simp+

lemma not_hex_CR: "\<not> is_digit_in 16 CR"
  by (simp add: is_digit_in_16)

lemma parseChunkSize_accepts:
  assumes t: "tok_ok t" "tok_buf t = ds @ CR # r" and ds: "is_size ds n" and p: "ck_chunkSize p = 0"
  shows "parseChunkSize t p = (Inr True, advance t (length ds),
    p\<lparr>ck_chunkSize := n, ck_leftBodySize := n, hp_buf := CR # r, hp_stage := HTTP_PARSE_CHUNK_EXT\<rparr>)"
proof -
  have nx: "\<not> (\<exists>x r'. tok_buf t = CHR ''0'' # x # r' \<and> xtolower x = CHR ''x'')"
    using ds is_digit_in_16_not_x
    by (cases ds; cases "tl ds") (auto simp: t(2) is_size_def xtolower_def xisupper_def)
  have "tok_skip t s = (False, t)" if "s = ''0x'' \<or> s = ''0X''" for s
  proof -
    have ok: "sb_ok s" using that by (auto simp: sb_ok_def maxSize_def)
    have "take 2 (tok_buf t) \<noteq> s"
    proof
      assume "take 2 (tok_buf t) = s"
      then obtain r' where "tok_buf t = s @ r'" by (metis append_take_drop_id)
      with nx that show False using xtolower_x by auto
    qed
    then show ?thesis using that tok_skip_eq [OF t(1) ok] by (auto simp: numeral_2_eq_2)
  qed
  note skips = this
  have dig: "digits_in 16 (tok_buf t) = ds"
    using ds not_hex_CR by (auto simp: digits_in_def t(2) is_size_def list_all_iff takeWhile_stop)
  have lim: "take npos (tok_buf t) = tok_buf t" using sb_ok_length [OF tok_ok_sb_ok [OF t(1)]] by simp
  have "tok_int64 t 16 False npos = (Some (int n), advance t (length ds))"
    using tok_int64_unsigned [OF t(1), of npos 16] nx ds
    by (simp add: npos_def lim [unfolded npos_def] dig Let_def is_size_def)
  then show ?thesis using skips p t(2)
    by (simp add: parseChunkSize_def tok_atEnd_def)
qed

lemma tok_skipRequired_CrLf:
  "tok_ok t \<Longrightarrow> tok_buf t = CrLf @ r \<Longrightarrow> tok_skipRequired t d CrLf = (Inr (), advance t 2)"
  using tok_skip_eq [of t CrLf] by (simp add: tok_skipRequired_def CrLf_def numeral_2_eq_2 sb_ok_def maxSize_def)

lemma extensions_none:
  assumes "tok_ok t" "tok_buf t = CrLf @ r"
  shows "parseChunkExtensions cfg t p = (Inr (), t, p)"
proof -
  define n where "n = length (takeWhile (cs_index (WhitespaceCharacters cfg)) (tok_buf t))"
  have LFs: "\<not> cs_index (WhitespaceCharacters cfg) LF"
    by (simp add: WhitespaceCharacters_def charset_simps)
  have n: "n < length (tok_buf t)" "n \<le> 1"
    using LFs by (auto simp: n_def assms(2) CrLf_def)
  have sk: "tok_skipAll t (WhitespaceCharacters cfg) = (n, advance t n)"
    using assms(1) by (simp add: tok_skipAll_eq n_def)
  have bws: "ParseBws cfg t = (Inr (), advance t n)"
    using n by (simp add: ParseBws_def ParseBws_common_def sk tok_atEnd_def)
  have ok: "tok_ok (advance t n)" using assms(1) n by simp
  have "hd (drop n (tok_buf t)) \<noteq> CHR '';''"
    using n(2) by (cases n) (auto simp: assms(2) CrLf_def)
  then have "tok_skip_char (advance t n) (CHR '';'') = (False, advance t n)"
    using ok by (simp add: tok_skip_char_eq)
  then show ?thesis by (subst parseChunkExtensions.simps) (simp add: bws)
qed

lemma metadata_accepts:
  assumes t: "tok_ok t" "tok_buf t = CrLf @ r"
  shows "parseChunkMetadataSuffix cfg t p = (Inr True, advance t 2,
    p\<lparr>hp_buf := r, hp_stage := (if ck_chunkSize p \<noteq> 0 then HTTP_PARSE_CHUNK else HTTP_PARSE_MIME)\<rparr>)"
proof -
  have "ParseStrictBws t = (Inr (), t)"
    using t by (simp add: ParseStrictBws_def ParseBws_common_def tok_skipAll_eq CrLf_def charset_simps tok_atEnd_def)
  moreover have "drop 2 (tok_buf t) = r" by (simp add: t(2) CrLf_def)
  ultimately show ?thesis
    using extensions_none [OF t, of cfg p] tok_skipRequired_CrLf [OF t] by (simp add: parseChunkMetadataSuffix_def)
qed

definition max_cap :: "chunk_parser \<Rightarrow> nat" where
  "max_cap p = mb_max_capacity (the (ck_out p))"

text \<open>Between two chunks, and what decoding a chunk does not change.\<close>

definition between :: "chunk_parser \<Rightarrow> bool" where
  "between p \<longleftrightarrow> hp_stage p = HTTP_PARSE_CHUNK_SZ \<and> ck_chunkSize p = 0 \<and> out_ok p"

definition same_env :: "chunk_parser \<Rightarrow> chunk_parser \<Rightarrow> bool" where
  "same_env p p' \<longleftrightarrow> hp_proto p' = hp_proto p \<and> hp_mime p' = hp_mime p \<and> hp_status p' = hp_status p \<and>
     hp_hackExpectsMime p' = hp_hackExpectsMime p \<and> ck_extension p' = ck_extension p \<and> max_cap p' = max_cap p"

lemma same_env_trans: "same_env a b \<Longrightarrow> same_env b c \<Longrightarrow> same_env a c"
  by (simp add: same_env_def)

lemma room: "0 < n \<Longrightarrow> length (ck_content p) + n + 1 \<le> max_cap p \<Longrightarrow> n \<le> mb_potentialSpaceSize (the (ck_out p))"
  by (simp add: mb_potentialSpaceSize_def max_cap_def ck_content_def mb_size_def Let_def)

lemma parseChunkBody_accepts:
  assumes t: "tok_ok t" "tok_buf t = d @ CrLf @ r" and d: "d \<noteq> []" "ck_leftBodySize p = length d"
    and p: "out_ok p" "length (ck_content p) + length d + 1 \<le> max_cap p"
  shows "\<exists>t' p'. parseChunkBody t p = (Inr True, t', p') \<and> tok_ok t' \<and> tok_buf t' = r \<and> between p' \<and>
    hp_buf p' = r \<and> ck_content p' = ck_content p @ d \<and> same_env p p'"
proof -
  have fit: "min (min (ck_leftBodySize p) (length (tok_buf t))) (mb_potentialSpaceSize (the (ck_out p))) = length d"
    using room [OF _ p(2)] d by (simp add: t(2))
  obtain t1 p1 where c: "copyChunkBody t p = (Inr (), t1, p1)" "out_ok p1" "ck_content p1 = ck_content p @ d"
    "t1 = tok_new (CrLf @ r)" "ck_leftBodySize p1 = 0" "same_env p p1"
    using copyChunkBody_effect [OF t(1) p(1)] unfolding fit using d
    by (auto simp: t(2) same_env_def max_cap_def)
  have "length (CrLf @ r) \<le> length (tok_buf t)" by (simp add: t(2))
  then have ok1: "tok_ok t1" using t(1) c(4) by (auto simp: tok_ok_def tok_new_def)
  have "tok_skipRequired t1 ''chunk CRLF'' CrLf = (Inr (), advance t1 2)"
    using tok_skipRequired_CrLf [OF ok1] c(4) by simp
  moreover have "drop 2 (CrLf @ r) = r" "2 \<le> length (CrLf @ r)" by (simp_all add: CrLf_def)
  ultimately show ?thesis using c d ok1
    by (simp add: parseChunkBody_def parseChunkEnd_def between_def out_ok_def ck_content_def same_env_def max_cap_def)
qed

lemma chunk_loop_size:
  assumes "hp_stage p = HTTP_PARSE_CHUNK_SZ" "parseChunkSize t p = (Inr True, t', p')"
  shows "chunk_loop cfg t p = chunk_loop cfg t' p'"
  using assms by (subst chunk_loop.simps) (simp add: chunk_body_step_def chunk_then_def)

lemma chunk_loop_again:
  assumes "chunk_body_step cfg t p = (Inr True, t', p')" "hp_stage p' = HTTP_PARSE_CHUNK_SZ"
  shows "chunk_loop cfg t p = chunk_loop cfg t' p'"
proof -
  have "chunk_body_step cfg t' p' = (Inr True, t', p')" using assms(2) by (simp add: chunk_body_step_def chunk_then_def)
  then show ?thesis using assms by (simp add: chunk_loop.simps [of cfg t p] chunk_loop.simps [of cfg t' p'])
qed

lemma chunk_loop_chunk:
  assumes t: "tok_ok t" "tok_buf t = encode_chunk c @ r" and c: "is_chunk c"
    and p: "between p" "length (ck_content p) + length (snd c) + 1 \<le> max_cap p"
  shows "\<exists>t' p'. chunk_loop cfg t p = chunk_loop cfg t' p' \<and> tok_ok t' \<and> tok_buf t' = r \<and> between p' \<and>
    hp_buf p' = r \<and> ck_content p' = ck_content p @ snd c \<and> same_env p p'"
proof -
  obtain ds d where cd: "c = (ds, d)" by (cases c)
  have d: "d \<noteq> []" "is_size ds (length d)" using c by (auto simp: is_chunk_def cd)
  have buf: "tok_buf t = ds @ CR # LF # d @ CrLf @ r" by (simp add: t(2) cd encode_chunk_def CrLf_def)
  define p1 where "p1 = p\<lparr>ck_chunkSize := length d, ck_leftBodySize := length d,
      hp_buf := CR # LF # d @ CrLf @ r, hp_stage := HTTP_PARSE_CHUNK_EXT\<rparr>"
  define t1 where "t1 = advance t (length ds)"
  have t1: "tok_ok t1" "tok_buf t1 = CrLf @ d @ CrLf @ r" using t(1) by (simp_all add: t1_def buf CrLf_def)
  have "ck_chunkSize p = 0" using p(1) by (simp add: between_def)
  from parseChunkSize_accepts [OF t(1) buf d(2) this]
  have 1: "chunk_loop cfg t p = chunk_loop cfg t1 p1"
    using p(1) by (intro chunk_loop_size) (simp_all add: between_def t1_def p1_def)
  define p2 where "p2 = p1\<lparr>hp_buf := d @ CrLf @ r, hp_stage := HTTP_PARSE_CHUNK\<rparr>"
  define t2 where "t2 = advance t1 2"
  have t2: "tok_ok t2" "tok_buf t2 = d @ CrLf @ r" using t1 by (simp_all add: t2_def CrLf_def)
  have meta: "parseChunkMetadataSuffix cfg t1 p1 = (Inr True, t2, p2)"
    using metadata_accepts [OF t1, of cfg p1] d(1) by (simp add: p1_def p2_def t2_def)
  have "out_ok p2" "ck_content p2 = ck_content p" "max_cap p2 = max_cap p" "same_env p p2" "ck_leftBodySize p2 = length d"
    using p(1) by (simp_all add: p2_def p1_def between_def out_ok_def ck_content_def max_cap_def same_env_def)
  with parseChunkBody_accepts [OF t2 d(1), of p2] p(2) cd obtain t3 p3 where
    3: "parseChunkBody t2 p2 = (Inr True, t3, p3)" "tok_ok t3" "tok_buf t3 = r" "between p3" "hp_buf p3 = r"
    "ck_content p3 = ck_content p @ d" "same_env p p3"
    by (auto intro: same_env_trans)
  have st: "hp_stage p1 = HTTP_PARSE_CHUNK_EXT" "hp_stage p2 = HTTP_PARSE_CHUNK" "hp_stage p3 = HTTP_PARSE_CHUNK_SZ"
    using 3(4) by (simp_all add: p1_def p2_def between_def)
  have "chunk_body_step cfg t1 p1 = (Inr True, t3, p3)"
    using meta 3(1) st by (simp add: chunk_body_step_def chunk_then_def)
  from chunk_loop_again [OF this st(3)] 1 3 cd show ?thesis by (metis snd_conv)
qed

lemma chunk_loop_chunks:
  assumes "tok_ok t" "tok_buf t = concat (map encode_chunk cs) @ r" "list_all is_chunk cs"
    and "between p" "length (ck_content p) + length (concat (map snd cs)) + 1 \<le> max_cap p"
  shows "\<exists>t' p'. chunk_loop cfg t p = chunk_loop cfg t' p' \<and> tok_ok t' \<and> tok_buf t' = r \<and> between p' \<and>
    ck_content p' = ck_content p @ concat (map snd cs) \<and> same_env p p'"
  using assms
proof (induction cs arbitrary: t p)
  case Nil
  then show ?case by (auto simp: same_env_def)
next
  case (Cons c cs)
  have buf: "tok_buf t = encode_chunk c @ concat (map encode_chunk cs) @ r" using Cons.prems(2) by simp
  have c: "is_chunk c" "length (ck_content p) + length (snd c) + 1 \<le> max_cap p" using Cons.prems(3,5) by simp_all
  obtain t1 p1 where 1: "chunk_loop cfg t p = chunk_loop cfg t1 p1" "tok_ok t1" "tok_buf t1 = concat (map encode_chunk cs) @ r"
    "between p1" "ck_content p1 = ck_content p @ snd c" "same_env p p1"
    using chunk_loop_chunk [OF Cons.prems(1) buf c(1) Cons.prems(4) c(2)] by blast
  have "length (ck_content p1) + length (concat (map snd cs)) + 1 \<le> max_cap p1"
    using Cons.prems(5) 1(5,6) by (simp add: same_env_def)
  from Cons.IH [OF 1(2,3) _ 1(4) this] Cons.prems(3) obtain t2 p2 where
    "chunk_loop cfg t1 p1 = chunk_loop cfg t2 p2" "tok_ok t2" "tok_buf t2 = r" "between p2"
    "ck_content p2 = ck_content p1 @ concat (map snd cs)" "same_env p1 p2" by auto
  with 1 same_env_trans [OF 1(6)] show ?case
    by (intro exI [of _ t2] exI [of _ p2]) auto
qed

lemma chunk_loop_last:
  assumes t: "tok_ok t" "tok_buf t = ds @ CrLf @ h @ rest" and ds: "is_size ds 0"
    and h: "headersEnd h = (length h, obs)" "h \<noteq> []" "length h < trailer_limit"
    and p: "between p" "hp_proto p = HttpVersion 1 1"
  shows "\<exists>p'. chunk_loop cfg t p = (Inr True, p') \<and> hp_stage p' = HTTP_PARSE_DONE \<and> hp_buf p' = rest \<and>
    hp_mime p' = (if obs then unfoldMime (cleanMimePrefix h) else cleanMimePrefix h) \<and>
    ck_content p' = ck_content p \<and> out_ok p'"
proof -
  have buf: "tok_buf t = ds @ CR # LF # h @ rest" by (simp add: t(2) CrLf_def)
  define p1 where "p1 = p\<lparr>ck_chunkSize := 0, ck_leftBodySize := 0,
      hp_buf := CR # LF # h @ rest, hp_stage := HTTP_PARSE_CHUNK_EXT\<rparr>"
  define t1 where "t1 = advance t (length ds)"
  have t1: "tok_ok t1" "tok_buf t1 = CrLf @ h @ rest" using t(1) by (simp_all add: t1_def buf CrLf_def)
  have "ck_chunkSize p = 0" using p(1) by (simp add: between_def)
  from parseChunkSize_accepts [OF t(1) buf ds this]
  have 1: "chunk_loop cfg t p = chunk_loop cfg t1 p1"
    using p(1) by (intro chunk_loop_size) (simp_all add: between_def t1_def p1_def)
  define p2 where "p2 = p1\<lparr>hp_buf := h @ rest, hp_stage := HTTP_PARSE_MIME\<rparr>"
  have meta: "parseChunkMetadataSuffix cfg t1 p1 = (Inr True, advance t1 2, p2)"
    using metadata_accepts [OF t1, of cfg p1] by (simp add: p1_def p2_def)
  have hb: "headersEnd (h @ rest) = (length h, obs)" using headersEnd_append h by simp
  have "sb_ok (h @ rest)" using tok_ok_sb_ok [OF t1(1)] by (simp add: t1(2) sb_ok_def)
  moreover have "length h < 4294967296" using h(3) by (simp add: trailer_limit_def)
  ultimately have con: "sb_consume (h @ rest) (length h) = (h, rest)" by (simp add: sb_consume_eq)
  have "grabMimeBlock 0 trailer_limit p2 = (True, p2\<lparr>hp_buf := rest,
      hp_mime := (if obs then unfoldMime (cleanMimePrefix h) else cleanMimePrefix h), hp_stage := HTTP_PARSE_DONE\<rparr>)"
    using p(2) h hb con by (simp add: grabMimeBlock_def p2_def p1_def HttpVersion_def uadd32_exact trailer_limit_def Let_def)
  then have "chunk_body_step cfg t1 p1 = (Inr True, advance t1 2, p2\<lparr>hp_buf := rest,
      hp_mime := (if obs then unfoldMime (cleanMimePrefix h) else cleanMimePrefix h), hp_stage := HTTP_PARSE_DONE\<rparr>)"
    using meta by (simp add: chunk_body_step_def chunk_then_def p1_def p2_def)
  then show ?thesis using 1 p(1)
    by (simp add: chunk_loop.simps [of cfg t1 p1] needsMoreData_def needsMoreSpace_def)
      (simp add: p2_def p1_def ck_content_def out_ok_def between_def)
qed

lemma chunk_parse_decodes:
  assumes msg: "msg = concat (map encode_chunk cs) @ ds @ CrLf @ h @ rest" "sb_ok msg"
    and cs: "list_all is_chunk cs" and ds: "is_size ds 0"
    and h: "headersEnd h = (length h, obs)" "h \<noteq> []" "length h < trailer_limit"
    and p: "out_ok p" "hp_stage p = HTTP_PARSE_NONE" "ck_chunkSize p = 0" "hp_proto p = HttpVersion 1 1"
    and space: "length (ck_content p) + length (concat (map snd cs)) + 1 \<le> max_cap p"
  shows "\<exists>p'. chunk_parse cfg msg p = (Inr True, p') \<and> hp_stage p' = HTTP_PARSE_DONE \<and>
    ck_content p' = ck_content p @ concat (map snd cs) \<and> hp_buf p' = rest \<and>
    hp_mime p' = (if obs then unfoldMime (cleanMimePrefix h) else cleanMimePrefix h)"
proof -
  define p1 where "p1 = p\<lparr>hp_buf := msg, hp_stage := HTTP_PARSE_CHUNK_SZ\<rparr>"
  have run: "chunk_parse cfg msg p = chunk_loop cfg (tok_new msg) p1"
    using p h(2) by (auto simp: chunk_parse_def p1_def msg(1) out_ok_def)
  have b1: "between p1" and c1: "ck_content p1 = ck_content p" "max_cap p1 = max_cap p" "hp_proto p1 = HttpVersion 1 1"
    using p by (simp_all add: p1_def between_def out_ok_def ck_content_def max_cap_def)
  have "tok_ok (tok_new msg)" using msg(2) by simp
  moreover have "tok_buf (tok_new msg) = concat (map encode_chunk cs) @ ds @ CrLf @ h @ rest" by (simp add: msg(1))
  ultimately obtain t2 p2 where 2: "chunk_loop cfg (tok_new msg) p1 = chunk_loop cfg t2 p2" "tok_ok t2"
    "tok_buf t2 = ds @ CrLf @ h @ rest" "between p2" "ck_content p2 = ck_content p @ concat (map snd cs)" "same_env p1 p2"
    using chunk_loop_chunks [of "tok_new msg" cs "ds @ CrLf @ h @ rest" p1 cfg] cs b1 space c1 by auto
  have "hp_proto p2 = HttpVersion 1 1" using 2(6) c1 by (simp add: same_env_def)
  from chunk_loop_last [OF 2(2,3) ds h 2(4) this, of cfg] 2 run show ?thesis by auto
qed

section \<open>Correctness of the chunked decoder\<close>


definition sample_buffer :: membuf where
  "sample_buffer = \<lparr>mb_buf = Some ''>'', mb_max_capacity = 4096, mb_capacity = 32, mb_stolen = False\<rparr>"


theorem chunk_parse_safe_witness:
  "let (r, p') = chunk_parse (sample_config 0) ''2;x'' (setPayloadBuffer sample_buffer chunk_parser_new)
   in out_ok p' \<and> (\<exists>x. ck_content p' = ''>'' @ x \<and> subseq x ''2;x'')"
proof -
  have "out_ok (setPayloadBuffer sample_buffer chunk_parser_new)"
    by (simp add: out_ok_def setPayloadBuffer_def sample_buffer_def mb_ok_def mb_size_def mb_content_def)
  moreover have "ck_content (setPayloadBuffer sample_buffer chunk_parser_new) = ''>''"
    by (simp add: ck_content_def setPayloadBuffer_def sample_buffer_def mb_content_def)
  moreover have "sb_ok ''2;x''" by (simp add: sb_ok_def maxSize_def)
  ultimately show ?thesis
    using chunk_parse_safe [of "''2;x''" "setPayloadBuffer sample_buffer chunk_parser_new" "sample_config 0"]
    by (auto split: prod.splits)
qed

end
