(* ===== verification/SBuf_Heap.thy ===== *)
theory SBuf_Heap
  imports SBuf_Value Mem_Buf
begin

text \<open>
  \<^verbatim>\<open>src/sbuf/SBuf\<close> and \<^verbatim>\<open>src/sbuf/MemBlob\<close> as a heap: memory blobs that buffers share, each
  buffer an offset and a length in its blob. Copying a buffer shares its blob; a buffer that is
  changed appends in place when its content ends where the used part of the blob ends, and
  otherwise moves to a blob of its own. Blobs are addressed by their position in a list that
  only grows, buffers likewise; a destructed buffer is \<open>None\<close>. The lock count of a blob is the
  number of pointers to it: buffers, the static prototype (blob 0), and the
  \<^verbatim>\<open>Locker\<close> objects of running calls. Of a blob's memory the model keeps the bytes written so
  far; the statistics counters are left out. An operation may throw, with the state it has
  reached.
\<close>

section \<open>Memory blobs\<close>

record blob =
  bl_mem :: bytes
  bl_capacity :: nat
  bl_size :: nat

definition blob_new :: "nat \<Rightarrow> blob" where
  "blob_new reserveSize = \<lparr>bl_mem = [], bl_capacity = memAllocBuf reserveSize, bl_size = 0\<rparr>"

definition blob_spaceSize :: "blob \<Rightarrow> nat" where
  "blob_spaceSize b = usub32 (bl_capacity b) (bl_size b)"

definition blob_isAppendOffset :: "nat \<Rightarrow> blob \<Rightarrow> bool" where
  "blob_isAppendOffset off b \<longleftrightarrow> off = bl_size b"

definition blob_willFit :: "nat \<Rightarrow> blob \<Rightarrow> bool" where
  "blob_willFit n b \<longleftrightarrow> n \<le> blob_spaceSize b"

definition blob_canAppend :: "nat \<Rightarrow> nat \<Rightarrow> blob \<Rightarrow> bool" where
  "blob_canAppend off n b \<longleftrightarrow> (blob_isAppendOffset off b \<and> blob_willFit n b) \<or> n = 0"

definition blob_clear :: "blob \<Rightarrow> blob" where
  "blob_clear b = b\<lparr>bl_size := 0\<rparr>"

definition blob_appended :: "nat \<Rightarrow> blob \<Rightarrow> exn + blob" where
  "blob_appended n b =
     (case must (blob_willFit n b) ''willFit(n)'' of
        Inl e \<Rightarrow> Inl e
      | Inr _ \<Rightarrow> Inr (b\<lparr>bl_size := uadd32 (bl_size b) n\<rparr>))"

definition blob_append :: "bytes \<Rightarrow> blob \<Rightarrow> exn + blob" where
  "blob_append source b =
     (let n = length source in
      if n > 0 then
        (case must (blob_willFit n b) ''willFit(n)'' of
           Inl e \<Rightarrow> Inl e
         | Inr _ \<Rightarrow> Inr (b\<lparr>bl_mem := take (bl_size b) (bl_mem b) @ source @ drop (bl_size b + n) (bl_mem b),
                             bl_size := uadd32 (bl_size b) n\<rparr>))
      else Inr b)"

text \<open>\<open>locks\<close> is the lock count of the blob.\<close>

definition blob_syncSize :: "nat \<Rightarrow> nat \<Rightarrow> blob \<Rightarrow> exn + blob" where
  "blob_syncSize n locks b =
     (case must (locks \<le> 1) ''LockCount() <= 1'' of
        Inl e \<Rightarrow> Inl e
      | Inr _ \<Rightarrow>
          (case must (n \<le> bl_size b) ''n <= size'' of
             Inl e \<Rightarrow> Inl e
           | Inr _ \<Rightarrow> Inr (b\<lparr>bl_size := n\<rparr>)))"

definition blob_consume :: "nat \<Rightarrow> nat \<Rightarrow> blob \<Rightarrow> exn + blob" where
  "blob_consume rawN locks b =
     (if rawN \<noteq> 0 \<and> bl_size b \<noteq> 0 then
        (case must (locks \<le> 1) ''LockCount() <= 1'' of
           Inl e \<Rightarrow> Inl e
         | Inr _ \<Rightarrow>
             let n = min rawN (bl_size b);
                 size' = bl_size b - n
             in Inr (b\<lparr>bl_size := size',
                       bl_mem := (if size' \<noteq> 0
                                  then take size' (drop n (bl_mem b)) @ drop size' (bl_mem b)
                                  else bl_mem b)\<rparr>))
      else Inr b)"

section \<open>Buffers\<close>

record sbuf =
  sb_store :: nat
  sb_off :: nat
  sb_len :: nat

record sheap =
  hs_blobs :: "blob list"
  hs_bufs :: "sbuf option list"
  hs_keepers :: "nat list"

type_synonym 'a heap_op = "('a, sheap) throwing"

text \<open>The static store that default-constructed buffers share: \<^verbatim>\<open>GetStorePrototype()\<close>.\<close>

definition StorePrototype :: nat where
  "StorePrototype = 0"

definition heap_new :: sheap where
  "heap_new = \<lparr>hs_blobs = [blob_new 0], hs_bufs = [], hs_keepers = []\<rparr>"

definition live :: "sheap \<Rightarrow> nat \<Rightarrow> bool" where
  "live h i \<longleftrightarrow> i < length (hs_bufs h) \<and> hs_bufs h ! i \<noteq> None"

definition buf :: "sheap \<Rightarrow> nat \<Rightarrow> sbuf" where
  "buf h i = the (hs_bufs h ! i)"

definition blob_of :: "sheap \<Rightarrow> nat \<Rightarrow> blob" where
  "blob_of h i = hs_blobs h ! sb_store (buf h i)"

definition LockCount :: "sheap \<Rightarrow> nat \<Rightarrow> nat" where
  "LockCount h b =
     length (filter (\<lambda>p. case p of None \<Rightarrow> False | Some s \<Rightarrow> sb_store s = b) (hs_bufs h)) +
     length (filter (\<lambda>k. k = b) (hs_keepers h)) + (if b = StorePrototype then 1 else 0)"

definition set_buf :: "nat \<Rightarrow> sbuf \<Rightarrow> sheap \<Rightarrow> sheap" where
  "set_buf i s h = h\<lparr>hs_bufs := (hs_bufs h)[i := Some s]\<rparr>"

definition set_blob :: "nat \<Rightarrow> blob \<Rightarrow> sheap \<Rightarrow> sheap" where
  "set_blob b bl h = h\<lparr>hs_blobs := (hs_blobs h)[b := bl]\<rparr>"

definition update_blob :: "nat \<Rightarrow> (blob \<Rightarrow> exn + blob) \<Rightarrow> unit heap_op" where
  "update_blob b f h =
     (case f (hs_blobs h ! b) of Inl e \<Rightarrow> (Inl e, h) | Inr bl \<Rightarrow> (Inr (), set_blob b bl h))"

text \<open>
  A \<^verbatim>\<open>const char *\<close> argument with a size: memory of the caller, or an offset in a blob. Its
  bytes are read when they are copied.
\<close>

datatype area = Extern bytes | Within nat nat nat

fun area_size :: "area \<Rightarrow> nat" where
  "area_size (Extern bs) = length bs"
| "area_size (Within b off n) = n"

fun fetch :: "sheap \<Rightarrow> area \<Rightarrow> bytes" where
  "fetch h (Extern bs) = bs"
| "fetch h (Within b off n) = take n (drop off (bl_mem (hs_blobs h ! b)))"

text \<open>\<^verbatim>\<open>SBuf::buf()\<close> and \<^verbatim>\<open>length()\<close> of a buffer as such an argument.\<close>

definition area_of :: "sheap \<Rightarrow> nat \<Rightarrow> area" where
  "area_of h i = Within (sb_store (buf h i)) (sb_off (buf h i)) (sb_len (buf h i))"

text \<open>\<^verbatim>\<open>Locker\<close>: holds the blob of the buffer while an operation runs, if the argument lies in it.\<close>

definition locked :: "nat \<Rightarrow> area \<Rightarrow> 'a heap_op \<Rightarrow> 'a heap_op" where
  "locked i a f h =
     (case a of
        Extern _ \<Rightarrow> f h
      | Within b off n \<Rightarrow>
          if b = sb_store (buf h i) \<and> off < bl_capacity (hs_blobs h ! b)
          then (case f (h\<lparr>hs_keepers := b # hs_keepers h\<rparr>) of
                  (r, h1) \<Rightarrow> (r, h1\<lparr>hs_keepers := tl (hs_keepers h1)\<rparr>))
          else f h)"

definition sbuf_new :: "nat heap_op" where
  "sbuf_new h =
     (Inr (length (hs_bufs h)),
      h\<lparr>hs_bufs := hs_bufs h @ [Some \<lparr>sb_store = StorePrototype, sb_off = 0, sb_len = 0\<rparr>]\<rparr>)"

definition sbuf_copy :: "nat \<Rightarrow> nat heap_op" where
  "sbuf_copy S h =
     (Inr (length (hs_bufs h)),
      h\<lparr>hs_bufs := hs_bufs h @ [Some \<lparr>sb_store = sb_store (buf h S), sb_off = sb_off (buf h S), sb_len = sb_len (buf h S)\<rparr>]\<rparr>)"

definition sbuf_destruct :: "nat \<Rightarrow> unit heap_op" where
  "sbuf_destruct i h = (Inr (), h\<lparr>hs_bufs := (hs_bufs h)[i := None]\<rparr>)"

definition sbuf_assign :: "nat \<Rightarrow> nat \<Rightarrow> unit heap_op" where
  "sbuf_assign i S h =
     (if S = i then (Inr (), h)
      else (Inr (), set_buf i ((buf h i)\<lparr>sb_store := sb_store (buf h S), sb_off := sb_off (buf h S),
                                        sb_len := sb_len (buf h S)\<rparr>) h))"

definition sbuf_reAlloc :: "nat \<Rightarrow> nat \<Rightarrow> unit heap_op" where
  "sbuf_reAlloc i newsize =
     then_do (must_do (newsize \<le> maxSize) ''newsize <= maxSize'') (\<lambda>_ h.
       case (if sb_len (buf h i) > 0 then blob_append (fetch h (area_of h i)) (blob_new newsize)
             else Inr (blob_new newsize)) of
         Inl e \<Rightarrow> (Inl e, h)
       | Inr newbuf \<Rightarrow>
           (Inr (), set_buf i ((buf h i)\<lparr>sb_store := length (hs_blobs h), sb_off := 0\<rparr>)
                      (h\<lparr>hs_blobs := hs_blobs h @ [newbuf]\<rparr>)))"

definition sbuf_cow :: "nat \<Rightarrow> nat \<Rightarrow> unit heap_op" where
  "sbuf_cow i newsize0 h =
     (let s = buf h i;
          newsize = (if newsize0 = npos \<or> newsize0 < sb_len s then sb_len s else newsize0)
      in if LockCount h (sb_store s) = 1 then
           then_do (update_blob (sb_store s) (blob_syncSize (uadd32 (sb_off s) (sb_len s)) (LockCount h (sb_store s))))
             (\<lambda>_ h1.
               let availableSpace = blob_spaceSize (blob_of h1 i);
                   neededSpace = newsize - sb_len s
               in if neededSpace \<le> availableSpace then (Inr (), h1)
                  else if neededSpace \<le> uadd32 availableSpace (sb_off s) then
                    then_do (update_blob (sb_store s) (blob_consume (sb_off s) (LockCount h1 (sb_store s))))
                      (\<lambda>_ h2.
                        let h3 = set_buf i ((buf h2 i)\<lparr>sb_off := 0\<rparr>) h2
                        in if neededSpace \<le> blob_spaceSize (blob_of h3 i) then (Inr (), h3)
                           else (Inl (AssertFailure ''neededSpace <= spaceSize()''), h3)) h1
                  else sbuf_reAlloc i newsize h1) h
         else sbuf_reAlloc i newsize h)"

definition sbuf_reserveCapacity :: "nat \<Rightarrow> nat \<Rightarrow> unit heap_op" where
  "sbuf_reserveCapacity i minCapacity =
     then_do (must_do (minCapacity \<le> maxSize) ''minCapacity <= maxSize'') (\<lambda>_. sbuf_cow i minCapacity)"

definition sbuf_reserveSpace :: "nat \<Rightarrow> nat \<Rightarrow> unit heap_op" where
  "sbuf_reserveSpace i minSpace =
     then_do (must_do (minSpace \<le> maxSize) ''minSpace <= maxSize'') (\<lambda>_ h.
     then_do (must_do (sb_len (buf h i) \<le> maxSize - minSpace) ''length() <= maxSize - minSpace'') (\<lambda>_.
       sbuf_reserveCapacity i (sb_len (buf h i) + minSpace)) h)"

record reservation =
  rr_idealSpace :: nat
  rr_minSpace :: nat
  rr_maxCapacity :: nat
  rr_allowShared :: bool

definition sbuf_reserve :: "nat \<Rightarrow> reservation \<Rightarrow> nat heap_op" where
  "sbuf_reserve i req h =
     (let len = sb_len (buf h i);
          space = blob_spaceSize (blob_of h i);
          mustRealloc = (\<not> rr_allowShared req \<and> LockCount h (sb_store (buf h i)) > 1)
      in if \<not> mustRealloc \<and> space \<ge> rr_minSpace req then (Inr space, h)
         else if \<not> mustRealloc \<and> len \<ge> rr_maxCapacity req then (Inr space, h)
         else
           let desiredSpace = max (rr_minSpace req) (rr_idealSpace req);
               newSpace = min desiredSpace (usub32 maxSize len)
           in then_do (sbuf_reserveCapacity i (min (uadd32 len newSpace) (rr_maxCapacity req)))
                (\<lambda>_ h1. (Inr (blob_spaceSize (blob_of h1 i)), h1)) h)"

definition sbuf_rawSpace :: "nat \<Rightarrow> nat \<Rightarrow> unit heap_op" where
  "sbuf_rawSpace i minSpace h =
     then_do (must_do (sb_len (buf h i) \<le> usub32 maxSize minSpace) ''length() <= maxSize - minSpace'') (\<lambda>_ h.
       if blob_canAppend (uadd32 (sb_off (buf h i)) (sb_len (buf h i))) minSpace (blob_of h i) then (Inr (), h)
       else sbuf_cow i (uadd32 minSpace (sb_len (buf h i))) h) h"

definition sbuf_lowAppend :: "nat \<Rightarrow> area \<Rightarrow> unit heap_op" where
  "sbuf_lowAppend i a =
     then_do (sbuf_rawSpace i (area_size a)) (\<lambda>_ h.
     then_do (update_blob (sb_store (buf h i)) (blob_append (fetch h a))) (\<lambda>_ h1.
       (Inr (), set_buf i ((buf h1 i)\<lparr>sb_len := uadd32 (sb_len (buf h1 i)) (area_size a)\<rparr>) h1)) h)"

definition sbuf_clear :: "nat \<Rightarrow> unit heap_op" where
  "sbuf_clear i h =
     (let h1 = (if LockCount h (sb_store (buf h i)) = 1
                then set_blob (sb_store (buf h i)) (blob_clear (blob_of h i)) h else h)
      in (Inr (), set_buf i ((buf h1 i)\<lparr>sb_len := 0, sb_off := 0\<rparr>) h1))"

definition sbuf_append :: "nat \<Rightarrow> nat \<Rightarrow> unit heap_op" where
  "sbuf_append i S h =
     (if sb_len (buf h i) = 0 \<and> sb_store (buf h i) = StorePrototype then sbuf_assign i S h
      else locked i (area_of h S) (sbuf_lowAppend i (area_of h S)) h)"

text \<open>\<^verbatim>\<open>append(S, Ssize)\<close>; a null pointer is \<open>None\<close>, and an unspecified size is that of the C string.\<close>

definition sbuf_append_area :: "nat \<Rightarrow> area option \<Rightarrow> unit heap_op" where
  "sbuf_append_area i S h =
     (case S of
        None \<Rightarrow> (Inr (), h)
      | Some a \<Rightarrow> locked i a (sbuf_lowAppend i a) h)"

definition sbuf_assign_area :: "nat \<Rightarrow> area option \<Rightarrow> unit heap_op" where
  "sbuf_assign_area i S h =
     (let work = then_do (sbuf_clear i) (\<lambda>_. sbuf_append_area i S)
      in case S of None \<Rightarrow> work h | Some a \<Rightarrow> locked i a work h)"

definition sbuf_push_back :: "nat \<Rightarrow> char \<Rightarrow> unit heap_op" where
  "sbuf_push_back i c = sbuf_lowAppend i (Extern [c])"

definition sbuf_of_area :: "area option \<Rightarrow> nat heap_op" where
  "sbuf_of_area S = then_do sbuf_new (\<lambda>i. then_do (sbuf_append_area i S) (\<lambda>_ h. (Inr i, h)))"

text \<open>\<^verbatim>\<open>rawAppendStart(n)\<close>, the caller writing \<open>bs\<close> there, and \<^verbatim>\<open>rawAppendFinish()\<close>.\<close>

definition write_mem :: "nat \<Rightarrow> bytes \<Rightarrow> blob \<Rightarrow> blob" where
  "write_mem off bs b = b\<lparr>bl_mem := take off (bl_mem b) @ bs @ drop (off + length bs) (bl_mem b)\<rparr>"

definition sbuf_rawAppendFinish :: "nat \<Rightarrow> nat \<Rightarrow> nat \<Rightarrow> nat \<Rightarrow> unit heap_op" where
  "sbuf_rawAppendFinish i store start actualSize =
     then_do (\<lambda>h. (must (sb_store (buf h i) = store \<and> sb_off (buf h i) + sb_len (buf h i) = start) ''bufEnd() == start'', h)) (\<lambda>_.
     then_do (\<lambda>h. (must (blob_canAppend (uadd32 (sb_off (buf h i)) (sb_len (buf h i))) actualSize (blob_of h i))
                  ''store_->canAppend(off_ + len_, actualSize)'', h)) (\<lambda>_ h.
       let newSize = uadd32 (sb_len (buf h i)) actualSize in
       then_do (must_do (newSize \<le> min maxSize (usub32 (bl_capacity (blob_of h i)) (sb_off (buf h i)))) ''raw append fits'') (\<lambda>_ h.
         let h1 = set_buf i ((buf h i)\<lparr>sb_len := newSize\<rparr>) h
         in (Inr (), set_blob (sb_store (buf h i)) ((blob_of h i)\<lparr>bl_size := uadd32 (sb_off (buf h i)) newSize\<rparr>) h1)) h))"

definition sbuf_rawAppend :: "nat \<Rightarrow> nat \<Rightarrow> bytes \<Rightarrow> unit heap_op" where
  "sbuf_rawAppend i anticipatedSize bs =
     then_do (sbuf_rawSpace i anticipatedSize) (\<lambda>_ h.
       let b = sb_store (buf h i);
           start = sb_off (buf h i) + sb_len (buf h i)
       in sbuf_rawAppendFinish i b start (length bs) (set_blob b (write_mem start bs (hs_blobs h ! b)) h))"

definition sbuf_setAt :: "nat \<Rightarrow> nat \<Rightarrow> char \<Rightarrow> unit heap_op" where
  "sbuf_setAt i pos toset =
     then_do (\<lambda>h. (must (pos < sb_len (buf h i)) ''pos < length()'', h)) (\<lambda>_.
     then_do (sbuf_cow i npos) (\<lambda>_ h.
       let b = sb_store (buf h i)
       in (Inr (), set_blob b ((hs_blobs h ! b)\<lparr>bl_mem := (bl_mem (hs_blobs h ! b))[sb_off (buf h i) + pos := toset]\<rparr>) h)))"

definition sbuf_index :: "sheap \<Rightarrow> nat \<Rightarrow> nat \<Rightarrow> char" where
  "sbuf_index h i pos = bl_mem (blob_of h i) ! (sb_off (buf h i) + pos)"

text \<open>\<^verbatim>\<open>toLower()\<close> and \<^verbatim>\<open>toUpper()\<close>: the loop over the positions still to go.\<close>

primrec case_loop :: "nat \<Rightarrow> (char \<Rightarrow> bool) \<Rightarrow> (char \<Rightarrow> char) \<Rightarrow> nat \<Rightarrow> nat \<Rightarrow> unit heap_op" where
  "case_loop i test conv j 0 h = (Inr (), h)"
| "case_loop i test conv j (Suc n) h =
     then_do (\<lambda>h. if test (sbuf_index h i j) then sbuf_setAt i j (conv (sbuf_index h i j)) h else (Inr (), h))
       (\<lambda>_. case_loop i test conv (Suc j) n) h"

definition sbuf_toLower :: "nat \<Rightarrow> unit heap_op" where
  "sbuf_toLower i h = case_loop i xisupper xtolower 0 (sb_len (buf h i)) h"

definition sbuf_toUpper :: "nat \<Rightarrow> unit heap_op" where
  "sbuf_toUpper i h = case_loop i xislower xtoupper 0 (sb_len (buf h i)) h"

definition sbuf_c_str :: "nat \<Rightarrow> unit heap_op" where
  "sbuf_c_str i =
     then_do (sbuf_rawSpace i 1) (\<lambda>_ h.
       let b = sb_store (buf h i);
           bl = write_mem (sb_off (buf h i) + sb_len (buf h i)) [CHR 0x00] (hs_blobs h ! b)
       in (Inr (), set_blob b (bl\<lparr>bl_size := uadd32 (bl_size bl) 1\<rparr>) h))"

definition sbuf_chop :: "nat \<Rightarrow> nat \<Rightarrow> nat \<Rightarrow> unit heap_op" where
  "sbuf_chop i pos0 n0 h =
     (let len = sb_len (buf h i);
          pos = chop_pos len pos0;
          n = chop_len len pos n0
      in if pos = len \<or> n = 0 then sbuf_clear i h
         else (Inr (), set_buf i ((buf h i)\<lparr>sb_off := uadd32 (sb_off (buf h i)) pos, sb_len := n\<rparr>) h))"

definition sbuf_substr :: "nat \<Rightarrow> nat \<Rightarrow> nat \<Rightarrow> nat heap_op" where
  "sbuf_substr i pos n =
     then_do (sbuf_copy i) (\<lambda>rv. then_do (sbuf_chop rv pos n) (\<lambda>_ h. (Inr rv, h)))"

definition sbuf_consume :: "nat \<Rightarrow> nat \<Rightarrow> nat heap_op" where
  "sbuf_consume i n0 h =
     (let n = (if n0 = npos then sb_len (buf h i) else min n0 (sb_len (buf h i)))
      in then_do (sbuf_substr i 0 n) (\<lambda>rv. then_do (sbuf_chop i n npos) (\<lambda>_ h. (Inr rv, h))) h)"

definition sbuf_eq :: "sheap \<Rightarrow> nat \<Rightarrow> nat \<Rightarrow> bool" where
  "sbuf_eq h i S =
     (if sb_len (buf h i) \<noteq> sb_len (buf h S) then False
      else if sb_store (buf h i) = sb_store (buf h S) \<and> sb_off (buf h i) = sb_off (buf h S) then True
      else memcmp (fetch h (area_of h i)) (fetch h (area_of h S)) = 0)"

end
