(* ===== verification/SBuf_Cow.thy ===== *)
theory SBuf_Cow
  imports SBuf_Heap
begin

text \<open>
  The values of the buffers of a heap, the invariant that every operation keeps, and what
  \<^verbatim>\<open>SBuf::reAlloc()\<close> and \<^verbatim>\<open>SBuf::cow()\<close> do: no value changes, and the buffer gets a blob of its own
  with the space that was asked for after its content.
\<close>

section \<open>Well-formed heaps and their values\<close>

definition blob_ok :: "blob \<Rightarrow> bool" where
  "blob_ok b \<longleftrightarrow> bl_size b \<le> length (bl_mem b) \<and> length (bl_mem b) \<le> bl_capacity b \<and> bl_capacity b \<le> maxSize"

definition sbuf_ok :: "blob list \<Rightarrow> sbuf \<Rightarrow> bool" where
  "sbuf_ok bs s \<longleftrightarrow> sb_store s < length bs \<and> sb_off s + sb_len s \<le> bl_size (bs ! sb_store s)"

definition heap_ok :: "sheap \<Rightarrow> bool" where
  "heap_ok h \<longleftrightarrow> hs_blobs h \<noteq> [] \<and> list_all blob_ok (hs_blobs h) \<and>
     (\<forall>i. live h i \<longrightarrow> sbuf_ok (hs_blobs h) (buf h i)) \<and> (\<forall>k\<in>set (hs_keepers h). k < length (hs_blobs h))"

definition slice :: "blob list \<Rightarrow> sbuf \<Rightarrow> bytes" where
  "slice bs s = take (sb_len s) (drop (sb_off s) (bl_mem (bs ! sb_store s)))"

definition content :: "sheap \<Rightarrow> nat \<Rightarrow> bytes" where
  "content h i = slice (hs_blobs h) (buf h i)"

definition strings :: "sheap \<Rightarrow> bytes option list" where
  "strings h = map (map_option (slice (hs_blobs h))) (hs_bufs h)"

lemma fetch_area_of: "fetch h (area_of h i) = content h i"
  by (simp add: area_of_def content_def slice_def)

lemma length_strings [simp]: "length (strings h) = length (hs_bufs h)"
  by (simp add: strings_def)

lemma strings_live: "live h i \<Longrightarrow> strings h ! i = Some (content h i)"
  by (auto simp: live_def strings_def content_def buf_def)

lemma blob_okD:
  assumes "heap_ok h" "b < length (hs_blobs h)" shows "blob_ok (hs_blobs h ! b)"
  using assms by (simp add: heap_ok_def list_all_length)

lemma sbuf_okD: "heap_ok h \<Longrightarrow> live h i \<Longrightarrow> sbuf_ok (hs_blobs h) (buf h i)"
  by (simp add: heap_ok_def)

lemma slice_length: "list_all blob_ok bs \<Longrightarrow> sbuf_ok bs s \<Longrightarrow> length (slice bs s) = sb_len s"
  by (auto simp: slice_def sbuf_ok_def list_all_length blob_ok_def)

lemma content_length: "heap_ok h \<Longrightarrow> live h i \<Longrightarrow> length (content h i) = sb_len (buf h i)"
  by (simp add: heap_ok_def content_def slice_length)

text \<open>Sizes in a well-formed heap are far from the 32-bit limit.\<close>

lemma sbuf_small:
  assumes "heap_ok h" "live h i"
  shows "sb_off (buf h i) + sb_len (buf h i) \<le> bl_size (blob_of h i)" "bl_size (blob_of h i) \<le> bl_capacity (blob_of h i)"
    "bl_capacity (blob_of h i) \<le> maxSize" "bl_size (blob_of h i) \<le> length (bl_mem (blob_of h i))"
    "sb_store (buf h i) < length (hs_blobs h)" "length (bl_mem (blob_of h i)) \<le> bl_capacity (blob_of h i)"
proof -
  have ok: "sbuf_ok (hs_blobs h) (buf h i)" using assms by (rule sbuf_okD)
  then have "blob_ok (blob_of h i)" using assms(1) by (simp add: blob_of_def blob_okD sbuf_ok_def)
  with ok show "sb_off (buf h i) + sb_len (buf h i) \<le> bl_size (blob_of h i)" "bl_size (blob_of h i) \<le> bl_capacity (blob_of h i)"
    "bl_capacity (blob_of h i) \<le> maxSize" "bl_size (blob_of h i) \<le> length (bl_mem (blob_of h i))"
    "sb_store (buf h i) < length (hs_blobs h)" "length (bl_mem (blob_of h i)) \<le> bl_capacity (blob_of h i)"
    by (auto simp: sbuf_ok_def blob_ok_def blob_of_def)
qed

lemma sbuf_exact:
  assumes "heap_ok h" "live h i"
  shows "uadd32 (sb_off (buf h i)) (sb_len (buf h i)) = sb_off (buf h i) + sb_len (buf h i)"
    "blob_spaceSize (blob_of h i) = bl_capacity (blob_of h i) - bl_size (blob_of h i)"
  using sbuf_small [OF assms] by (simp_all add: uadd32_exact usub32_exact blob_spaceSize_def maxSize_def)

section \<open>Changing one buffer or one blob\<close>

lemma live_set_buf [simp]: "live h i \<Longrightarrow> live (set_buf i s h) j \<longleftrightarrow> live h j"
  by (auto simp: live_def set_buf_def nth_list_update)

lemma buf_set_buf: "live h i \<Longrightarrow> buf (set_buf i s h) j = (if j = i then s else buf h j)"
  by (auto simp: live_def set_buf_def buf_def nth_list_update)

lemma set_buf_simps [simp]:
  "hs_blobs (set_buf i s h) = hs_blobs h" "hs_keepers (set_buf i s h) = hs_keepers h"
  by (simp_all add: set_buf_def)

lemma set_blob_simps [simp]:
  "hs_bufs (set_blob b bl h) = hs_bufs h" "hs_keepers (set_blob b bl h) = hs_keepers h"
  "live (set_blob b bl h) = live h" "buf (set_blob b bl h) = buf h"
  "length (hs_blobs (set_blob b bl h)) = length (hs_blobs h)"
  by (simp_all add: set_blob_def live_def buf_def fun_eq_iff)

lemma set_buf_ok:
  assumes "heap_ok h" "live h i" "sbuf_ok (hs_blobs h) s"
  shows "heap_ok (set_buf i s h) \<and> strings (set_buf i s h) = (strings h)[i := Some (slice (hs_blobs h) s)]"
  using assms by (auto simp: heap_ok_def buf_set_buf strings_def) (simp add: set_buf_def map_update)

text \<open>
  A blob may be changed when every buffer in it still has its bytes. Two cases suffice: the used part is
  untouched, or the blob has a single owner.
\<close>

lemma set_blob_ok:
  assumes ok: "heap_ok h" and b: "b < length (hs_blobs h)" "blob_ok bl"
    and same: "\<And>j. live h j \<Longrightarrow> sb_store (buf h j) = b \<Longrightarrow>
        sb_off (buf h j) + sb_len (buf h j) \<le> bl_size bl \<and>
        take (sb_len (buf h j)) (drop (sb_off (buf h j)) (bl_mem bl)) = content h j"
  shows "heap_ok (set_blob b bl h) \<and> strings (set_blob b bl h) = strings h"
proof
  have "sbuf_ok ((hs_blobs h)[b := bl]) (buf h j)" if "live h j" for j
    using sbuf_okD [OF ok that] same [OF that] b by (cases "sb_store (buf h j) = b") (auto simp: sbuf_ok_def)
  then show "heap_ok (set_blob b bl h)"
    using ok b by (auto simp: heap_ok_def set_blob_def list_all_length nth_list_update live_def buf_def)
  have "map_option (slice ((hs_blobs h)[b := bl])) p = map_option (slice (hs_blobs h)) p" if "p \<in> set (hs_bufs h)" for p
  proof (cases p)
    case (Some s)
    with that obtain j where j: "j < length (hs_bufs h)" "hs_bufs h ! j = Some s" by (auto simp: in_set_conv_nth)
    then have l: "live h j" "buf h j = s" by (simp_all add: live_def buf_def)
    have "slice ((hs_blobs h)[b := bl]) s = slice (hs_blobs h) s"
      using same [OF l(1)] l(2) b(1) by (cases "sb_store s = b") (auto simp: slice_def content_def)
    then show ?thesis using Some by simp
  qed simp
  then show "strings (set_blob b bl h) = strings h" by (simp add: strings_def set_blob_def)
qed

lemma set_blob_grow:
  assumes ok: "heap_ok h" and b: "b < length (hs_blobs h)" "blob_ok bl"
    and keep: "take (bl_size (hs_blobs h ! b)) (bl_mem bl) = take (bl_size (hs_blobs h ! b)) (bl_mem (hs_blobs h ! b))"
    and size: "bl_size (hs_blobs h ! b) \<le> bl_size bl"
  shows "heap_ok (set_blob b bl h) \<and> strings (set_blob b bl h) = strings h"
proof (rule set_blob_ok [OF ok b])
  fix j assume j: "live h j" "sb_store (buf h j) = b"
  let ?n = "bl_size (hs_blobs h ! b)"
  have le: "sb_off (buf h j) + sb_len (buf h j) \<le> ?n" using sbuf_okD [OF ok j(1)] j(2) by (simp add: sbuf_ok_def)
  then have cut: "take (sb_len (buf h j)) (drop (sb_off (buf h j)) m) =
      take (sb_len (buf h j)) (drop (sb_off (buf h j)) (take ?n m))" for m :: bytes
    by (simp add: drop_take min_absorb1)
  show "sb_off (buf h j) + sb_len (buf h j) \<le> bl_size bl \<and>
      take (sb_len (buf h j)) (drop (sb_off (buf h j)) (bl_mem bl)) = content h j"
    using le size cut [of "bl_mem bl"] cut [of "bl_mem (hs_blobs h ! b)"] keep j(2) by (simp add: content_def slice_def)
qed

lemma only_owner:
  assumes "live h i" "LockCount h (sb_store (buf h i)) = 1"
  shows "\<And>j. live h j \<Longrightarrow> sb_store (buf h j) = sb_store (buf h i) \<Longrightarrow> j = i"
    and "sb_store (buf h i) \<noteq> StorePrototype" "sb_store (buf h i) \<notin> set (hs_keepers h)"
proof -
  let ?b = "sb_store (buf h i)"
  let ?P = "\<lambda>p. case p of None \<Rightarrow> False | Some s \<Rightarrow> sb_store s = ?b"
  let ?I = "{j. j < length (hs_bufs h) \<and> ?P (hs_bufs h ! j)}"
  have fin: "finite ?I" by simp
  have mem: "j \<in> ?I" if "live h j" "sb_store (buf h j) = ?b" for j
    using that by (auto simp: live_def buf_def split: option.splits)
  have "0 < card ?I" using mem [OF assms(1) refl] fin card_gt_0_iff by blast
  moreover have sum: "card ?I + length (filter (\<lambda>k. k = ?b) (hs_keepers h)) + (if ?b = StorePrototype then 1 else 0) = 1"
    using assms(2) by (simp add: LockCount_def length_filter_conv_card)
  ultimately have one: "card ?I = 1" and k: "length (filter (\<lambda>k. k = ?b) (hs_keepers h)) = 0"
    and p: "(if ?b = StorePrototype then 1 else 0) = (0 :: nat)" by linarith+
  show "?b \<noteq> StorePrototype" using p by (auto split: if_splits)
  show "?b \<notin> set (hs_keepers h)" using k by (auto simp: filter_empty_conv)
  show "j = i" if "live h j" "sb_store (buf h j) = ?b" for j
    using one mem [OF that] mem [OF assms(1) refl] by (metis (no_types, lifting) card_1_singletonE singletonD)
qed

lemma LockCount_1:
  assumes "b \<notin> set (hs_keepers h)" "b \<noteq> StorePrototype" "\<And>j. live h j \<and> sb_store (buf h j) = b \<longleftrightarrow> j = i"
  shows "LockCount h b = 1"
proof -
  have "{j. j < length (hs_bufs h) \<and> (case hs_bufs h ! j of None \<Rightarrow> False | Some s \<Rightarrow> sb_store s = b)} = {i}"
    (is "Collect ?P = _")
  proof -
    have "?P j \<longleftrightarrow> live h j \<and> sb_store (buf h j) = b" for j by (auto simp: live_def buf_def split: option.splits)
    then show ?thesis using assms(3) by auto
  qed
  moreover have "filter (\<lambda>k. k = b) (hs_keepers h) = []" using assms(1) by (auto simp: filter_empty_conv)
  ultimately show ?thesis using assms(2) by (simp add: LockCount_def length_filter_conv_card)
qed

section \<open>Copy on write\<close>

text \<open>
  What an operation that does not change values leaves: a well-formed heap with the same values and
  keepers; blobs are never removed, and those of other owners are as before.
\<close>

definition same_values :: "sheap \<Rightarrow> sheap \<Rightarrow> bool" where
  "same_values h h' \<longleftrightarrow> heap_ok h' \<and> strings h' = strings h \<and> hs_keepers h' = hs_keepers h \<and>
     length (hs_blobs h) \<le> length (hs_blobs h')"

lemma same_values_refl: "heap_ok h \<Longrightarrow> same_values h h"
  by (simp add: same_values_def)

lemma same_values_trans: "same_values h h1 \<Longrightarrow> same_values h1 h2 \<Longrightarrow> same_values h h2"
  by (auto simp: same_values_def)

lemma strings_eq_live: "strings h' = strings h \<Longrightarrow> live h' i \<longleftrightarrow> live h i"
proof -
  assume *: "strings h' = strings h"
  then have len: "length (hs_bufs h') = length (hs_bufs h)" by (metis length_strings)
  have "hs_bufs h' ! i = None \<longleftrightarrow> hs_bufs h ! i = None" if "i < length (hs_bufs h)"
  proof -
    have "strings h' ! i = None \<longleftrightarrow> strings h ! i = None" using * by simp
    then show ?thesis using that len by (simp add: strings_def)
  qed
  then show ?thesis using len by (auto simp: live_def)
qed

lemma strings_eq_content: "strings h' = strings h \<Longrightarrow> live h i \<Longrightarrow> content h' i = content h i"
  by (metis strings_eq_live strings_live option.inject)

definition fresh_end :: "sheap \<Rightarrow> nat \<Rightarrow> nat \<Rightarrow> bool" where
  "fresh_end h i n \<longleftrightarrow> sb_off (buf h i) + sb_len (buf h i) = bl_size (blob_of h i) \<and> n \<le> blob_spaceSize (blob_of h i)"

lemma memAllocBuf_small: "n \<le> maxSize \<Longrightarrow> memAllocBuf n \<le> maxSize"
  by (simp add: memAllocBuf_def memFindBufSizeType_def maxSize_def)

lemma reAlloc_ok:
  assumes ok: "heap_ok h" "live h i" and n: "sb_len (buf h i) \<le> n" "n \<le> maxSize"
  shows "\<exists>h'. sbuf_reAlloc i n h = (Inr (), h') \<and> same_values h h' \<and> sb_len (buf h' i) = sb_len (buf h i) \<and>
    fresh_end h' i (n - sb_len (buf h i)) \<and> (\<forall>b<length (hs_blobs h). hs_blobs h' ! b = hs_blobs h ! b) \<and>
    LockCount h' (sb_store (buf h' i)) = 1"
proof -
  let ?s = "buf h i" and ?new = "\<lparr>bl_mem = content h i, bl_capacity = memAllocBuf n, bl_size = sb_len (buf h i)\<rparr>"
  let ?h1 = "h\<lparr>hs_blobs := hs_blobs h @ [?new]\<rparr>"
  let ?s' = "?s\<lparr>sb_store := length (hs_blobs h), sb_off := 0\<rparr>"
  have len: "length (content h i) = sb_len ?s" using ok by (rule content_length)
  have cap: "n \<le> memAllocBuf n" "memAllocBuf n \<le> maxSize" using n by (simp_all add: memAllocBuf_ge memAllocBuf_small)
  have "blob_willFit (sb_len ?s) (blob_new n)"
    using n cap by (simp add: blob_willFit_def blob_spaceSize_def blob_new_def usub32_exact maxSize_def)
  then have app: "(if sb_len ?s > 0 then blob_append (fetch h (area_of h i)) (blob_new n) else Inr (blob_new n)) = Inr ?new"
    using len n by (auto simp: fetch_area_of blob_append_def Let_def must_def blob_new_def uadd32_exact maxSize_def)
  then have run: "sbuf_reAlloc i n h = (Inr (), set_buf i ?s' ?h1)"
    using n by (simp add: sbuf_reAlloc_def then_do_def must_do_def must_def)
  have new: "blob_ok ?new" using len n cap by (simp add: blob_ok_def)
  have live1: "live ?h1 j = live h j" "buf ?h1 j = buf h j" for j by (simp_all add: live_def buf_def)
  have sl: "sbuf_ok (hs_blobs h) s \<Longrightarrow> slice (hs_blobs ?h1) s = slice (hs_blobs h) s \<and> sbuf_ok (hs_blobs ?h1) s" for s
    by (auto simp: slice_def sbuf_ok_def nth_append)
  have ok1: "heap_ok ?h1" using ok new sl by (auto simp: heap_ok_def live1)
  have str1: "strings ?h1 = strings h"
  proof -
    have "map_option (slice (hs_blobs ?h1)) p = map_option (slice (hs_blobs h)) p" if "p \<in> set (hs_bufs h)" for p
    proof (cases p)
      case (Some s)
      with that obtain j where "j < length (hs_bufs h)" "hs_bufs h ! j = Some s" by (auto simp: in_set_conv_nth)
      then have "live h j" "buf h j = s" by (simp_all add: live_def buf_def)
      then show ?thesis using Some sl sbuf_okD [OF ok(1)] by auto
    qed simp
    then show ?thesis by (simp add: strings_def)
  qed
  have "sbuf_ok (hs_blobs ?h1) ?s'" "slice (hs_blobs ?h1) ?s' = content h i"
    using len by (simp_all add: sbuf_ok_def slice_def)
  then have "heap_ok (set_buf i ?s' ?h1) \<and> strings (set_buf i ?s' ?h1) = strings h"
    using set_buf_ok [OF ok1, of i ?s'] ok(2) str1 strings_live [OF ok(2)] by (simp add: live1 list_update_same_conv live_def)
  moreover have "fresh_end (set_buf i ?s' ?h1) i (n - sb_len ?s)"
    using ok(2) n cap by (simp add: fresh_end_def buf_set_buf live1 blob_of_def blob_spaceSize_def usub32_exact maxSize_def)
  moreover have "LockCount (set_buf i ?s' ?h1) (length (hs_blobs h)) = 1"
  proof (rule LockCount_1 [where i = i])
    show "length (hs_blobs h) \<notin> set (hs_keepers (set_buf i ?s' ?h1))" using ok(1) by (auto simp: heap_ok_def)
    show "length (hs_blobs h) \<noteq> StorePrototype" using ok(1) by (simp add: heap_ok_def StorePrototype_def)
    show "live (set_buf i ?s' ?h1) j \<and> sb_store (buf (set_buf i ?s' ?h1) j) = length (hs_blobs h) \<longleftrightarrow> j = i" for j
      using ok sbuf_okD [OF ok(1), of j] by (auto simp: buf_set_buf live1 sbuf_ok_def)
  qed
  ultimately show ?thesis using run ok(2)
    by (auto simp: same_values_def buf_set_buf live1 nth_append)
qed

text \<open>The only owner of a blob may change it and its own position in it.\<close>

lemma set_own:
  assumes ok: "heap_ok h" "live h i" and one: "LockCount h (sb_store (buf h i)) = 1"
    and new: "blob_ok bl" "sb_store s = sb_store (buf h i)" "sb_off s + sb_len s \<le> bl_size bl"
  defines "h' \<equiv> set_buf i s (set_blob (sb_store s) bl h)"
  shows "heap_ok h' \<and> strings h' = (strings h)[i := Some (take (sb_len s) (drop (sb_off s) (bl_mem bl)))] \<and>
    LockCount h' (sb_store s) = 1"
proof -
  let ?b = "sb_store s" and ?bs = "(hs_blobs h)[sb_store s := bl]"
  have b: "?b < length (hs_blobs h)" using sbuf_small(5) [OF ok] new(2) by simp
  have other: "live h j \<Longrightarrow> j \<noteq> i \<Longrightarrow> sb_store (buf h j) \<noteq> ?b" for j
    using only_owner(1) [OF ok(2) one] new(2) by auto
  have bs: "hs_blobs h' = ?bs" "hs_keepers h' = hs_keepers h" "live h' j = live h j" "buf h' j = (if j = i then s else buf h j)" for j
    using ok(2) by (simp_all add: h'_def buf_set_buf, simp add: set_blob_def)
  have "sbuf_ok ?bs (buf h' j)" if "live h j" for j
    using sbuf_okD [OF ok(1) that] other [OF that] b new(3) by (cases "j = i") (auto simp: bs sbuf_ok_def)
  then have "heap_ok h'" using ok(1) b new(1) by (auto simp: heap_ok_def bs list_all_length nth_list_update)
  moreover have "strings h' = (strings h)[i := Some (take (sb_len s) (drop (sb_off s) (bl_mem bl)))]"
  proof (rule nth_equalityI)
    show "length (strings h') = length ((strings h)[i := Some (take (sb_len s) (drop (sb_off s) (bl_mem bl)))])"
      by (simp add: h'_def set_buf_def)
    fix j assume "j < length (strings h')"
    then have j: "j < length (hs_bufs h)" by (simp add: h'_def set_buf_def)
    show "strings h' ! j = (strings h)[i := Some (take (sb_len s) (drop (sb_off s) (bl_mem bl)))] ! j"
    proof (cases "live h j")
      case True
      then show ?thesis using strings_live [of h' j] strings_live [of h j] other [of j] b j
        by (auto simp: bs content_def slice_def)
    next
      case False
      then have "j \<noteq> i" "hs_bufs h ! j = None" using ok(2) j by (auto simp: live_def)
      then show ?thesis using j by (simp add: strings_def h'_def set_buf_def)
    qed
  qed
  moreover have "LockCount h' ?b = 1"
    using only_owner(2,3) [OF ok(2) one] other ok(2) new(2) by (intro LockCount_1 [where i = i]) (auto simp: bs)
  ultimately show ?thesis by blast
qed

lemma LockCount_set_blob [simp]: "LockCount (set_blob b bl h) c = LockCount h c"
  by (simp add: LockCount_def)

lemma hs_blobs_set_blob: "hs_blobs (set_blob b bl h) = (hs_blobs h)[b := bl]"
  by (simp add: set_blob_def)

lemma set_buf_same: "live h i \<Longrightarrow> s = buf h i \<Longrightarrow> set_buf i s h = h"
  by (simp add: set_buf_def live_def buf_def list_update_id)

lemma strings_same: "live h i \<Longrightarrow> (strings h)[i := Some (content h i)] = strings h"
  using strings_live [of h i] by (metis list_update_id)

lemma reAlloc_too_big: "maxSize < n \<Longrightarrow> \<exists>s. sbuf_reAlloc i n h = (Inl (TextException s), h)"
  by (simp add: sbuf_reAlloc_def then_do_def must_do_def must_def)

text \<open>The two ways out of \<^verbatim>\<open>cow()\<close> without a new blob, for the only owner of the blob.\<close>

lemma cow_sync:
  assumes ok: "heap_ok h" "live h i" and one: "LockCount h (sb_store (buf h i)) = 1"
  defines "s \<equiv> buf h i"
  defines "bl \<equiv> (blob_of h i)\<lparr>bl_size := sb_off s + sb_len s\<rparr>"
  shows "update_blob (sb_store s) (blob_syncSize (uadd32 (sb_off s) (sb_len s)) 1) h = (Inr (), set_blob (sb_store s) bl h) \<and>
    same_values h (set_blob (sb_store s) bl h) \<and> fresh_end (set_blob (sb_store s) bl h) i (bl_capacity bl - bl_size bl) \<and>
    blob_of (set_blob (sb_store s) bl h) i = bl"
proof -
  note small = sbuf_small [OF ok]
  have upd: "update_blob (sb_store s) (blob_syncSize (uadd32 (sb_off s) (sb_len s)) 1) h = (Inr (), set_blob (sb_store s) bl h)"
    using small sbuf_exact [OF ok] by (simp add: update_blob_def blob_syncSize_def must_def s_def bl_def blob_of_def)
  have ow: "blob_of (set_blob (sb_store s) bl h) i = bl" using small(5) by (simp add: blob_of_def s_def set_blob_def buf_def)
  have "blob_ok bl" using small by (auto simp: blob_ok_def bl_def s_def)
  from set_own [OF ok one this, of s]
  have "heap_ok (set_blob (sb_store s) bl h)" "strings (set_blob (sb_store s) bl h) = strings h"
    using ok(2) strings_same [OF ok(2)]
    by (simp_all add: s_def bl_def set_buf_same content_def slice_def blob_of_def)
  then have "same_values h (set_blob (sb_store s) bl h)" by (simp add: same_values_def)
  moreover have "fresh_end (set_blob (sb_store s) bl h) i (bl_capacity bl - bl_size bl)"
    using small by (simp add: fresh_end_def ow) (simp add: s_def bl_def blob_spaceSize_def usub32_exact maxSize_def)
  ultimately show ?thesis using upd ow by blast
qed

lemma cow_shift:
  assumes ok: "heap_ok h" "live h i" and one: "LockCount h (sb_store (buf h i)) = 1"
    and fresh: "fresh_end h i k" and off: "0 < sb_off (buf h i)"
  shows "\<exists>h2. update_blob (sb_store (buf h i)) (blob_consume (sb_off (buf h i)) 1) h = (Inr (), h2) \<and> buf h2 i = buf h i \<and>
    (let h3 = set_buf i ((buf h i)\<lparr>sb_off := 0\<rparr>) h2
     in same_values h h3 \<and> buf h3 i = (buf h i)\<lparr>sb_off := 0\<rparr> \<and>
        fresh_end h3 i (k + sb_off (buf h i)) \<and> LockCount h3 (sb_store (buf h i)) = 1 \<and>
        (\<forall>b. b \<noteq> sb_store (buf h i) \<longrightarrow> hs_blobs h3 ! b = hs_blobs h ! b))"
proof -
  note small = sbuf_small [OF ok]
  let ?s = "buf h i" and ?o = "blob_of h i"
  let ?bl = "?o\<lparr>bl_size := sb_len ?s, bl_mem := (if sb_len ?s \<noteq> 0
      then take (sb_len ?s) (drop (sb_off ?s) (bl_mem ?o)) @ drop (sb_len ?s) (bl_mem ?o) else bl_mem ?o)\<rparr>"
  let ?h2 = "set_blob (sb_store ?s) ?bl h"
  have size: "bl_size ?o = sb_off ?s + sb_len ?s" using fresh by (simp add: fresh_end_def)
  then have upd: "update_blob (sb_store ?s) (blob_consume (sb_off ?s) 1) h = (Inr (), ?h2)"
    using off by (simp add: update_blob_def blob_consume_def must_def blob_of_def Let_def)
  have bl: "blob_ok ?bl" "take (sb_len ?s) (bl_mem ?bl) = content h i"
    using small size by (auto simp: blob_ok_def content_def slice_def blob_of_def)
  have k: "k \<le> bl_capacity ?o - bl_size ?o" using fresh sbuf_exact(2) [OF ok] by (simp add: fresh_end_def)
  let ?h3 = "set_buf i (?s\<lparr>sb_off := 0\<rparr>) ?h2"
  have "heap_ok ?h3 \<and> strings ?h3 = strings h \<and> LockCount ?h3 (sb_store ?s) = 1"
    using set_own [OF ok one bl(1), of "?s\<lparr>sb_off := 0\<rparr>"] bl(2) strings_same [OF ok(2)] by simp
  moreover have "fresh_end ?h3 i (k + sb_off ?s)"
  proof -
    have "blob_of ?h3 i = ?bl" using ok(2) small(5) by (simp add: blob_of_def buf_set_buf) (simp add: set_blob_def)
    then show ?thesis using k size small ok(2)
      by (simp add: fresh_end_def buf_set_buf blob_spaceSize_def usub32_exact maxSize_def)
  qed
  ultimately show ?thesis using upd ok(2)
    by (intro exI [of _ ?h2]) (auto simp: Let_def same_values_def buf_set_buf hs_blobs_set_blob)
qed

text \<open>
  What \<^verbatim>\<open>cow(newsize)\<close> does: every buffer keeps its value, buffer \<open>i\<close> is then the only owner of
  its blob, and the asked-for space follows its content. Blobs that were shared are as before.
\<close>

definition moved :: "sheap \<Rightarrow> nat \<Rightarrow> nat \<Rightarrow> sheap \<Rightarrow> bool" where
  "moved h i n h' \<longleftrightarrow> same_values h h' \<and> sb_len (buf h' i) = sb_len (buf h i) \<and> fresh_end h' i n \<and>
     LockCount h' (sb_store (buf h' i)) = 1 \<and>
     (\<forall>b<length (hs_blobs h). b \<noteq> sb_store (buf h i) \<or> LockCount h b \<noteq> 1 \<longrightarrow> hs_blobs h' ! b = hs_blobs h ! b)"

definition cow_size :: "nat \<Rightarrow> nat \<Rightarrow> nat" where
  "cow_size len n = (if n = npos \<or> n < len then len else n)"

lemma cow_size_ge: "len \<le> cow_size len n"
  by (simp add: cow_size_def)

lemma fresh_end_mono: "fresh_end h i n \<Longrightarrow> k \<le> n \<Longrightarrow> fresh_end h i k"
  by (simp add: fresh_end_def)

lemma cow_owned:
  assumes ok: "heap_ok h" "live h i" and one: "LockCount h (sb_store (buf h i)) = 1"
    and n: "n = cow_size (sb_len (buf h i)) n0"
  shows "\<exists>r h'. sbuf_cow i n0 h = (r, h') \<and> (if n \<le> maxSize then r = Inr () \<and> moved h i (n - sb_len (buf h i)) h'
    else (\<exists>t. r = Inl (TextException t)) \<and> same_values h h')"
proof -
  let ?s = "buf h i"
  let ?bl = "(blob_of h i)\<lparr>bl_size := sb_off ?s + sb_len ?s\<rparr>"
  let ?h1 = "set_blob (sb_store ?s) ?bl h"
  let ?need = "n - sb_len ?s"
  note sync = cow_sync [OF ok one, THEN conjunct1] cow_sync [OF ok one, THEN conjunct2]
  have ok1: "same_values h ?h1" "fresh_end ?h1 i (bl_capacity ?bl - bl_size ?bl)" "blob_of ?h1 i = ?bl" "heap_ok ?h1"
    using sync(2) by (auto simp: same_values_def)
  have l1: "live ?h1 i" "LockCount ?h1 (sb_store (buf ?h1 i)) = 1" "buf ?h1 i = ?s" using ok(2) one by simp_all
  note small = sbuf_small [OF ok]
  let ?avail = "bl_capacity ?bl - bl_size ?bl"
  have sp: "blob_spaceSize ?bl = ?avail" using sbuf_exact(2) [OF ok1(4) l1(1)] ok1(3) by simp
  have av: "uadd32 ?avail (sb_off ?s) = ?avail + sb_off ?s" using small by (simp add: uadd32_exact maxSize_def)
  have blobs1: "b \<noteq> sb_store ?s \<Longrightarrow> hs_blobs ?h1 ! b = hs_blobs h ! b" for b by (simp add: set_blob_def)
  have run: "sbuf_cow i n0 h = (if ?need \<le> ?avail then (Inr (), ?h1)
      else if ?need \<le> ?avail + sb_off ?s then
        then_do (update_blob (sb_store ?s) (blob_consume (sb_off ?s) 1))
          (\<lambda>_ h2. let h3 = set_buf i ((buf h2 i)\<lparr>sb_off := 0\<rparr>) h2
             in if ?need \<le> blob_spaceSize (blob_of h3 i) then (Inr (), h3)
                else (Inl (AssertFailure ''neededSpace <= spaceSize()''), h3)) ?h1
      else sbuf_reAlloc i n ?h1)"
    unfolding sbuf_cow_def Let_def n cow_size_def [symmetric]
    using one sync(1) av sp by (simp add: then_do_def ok1(3))
  consider "?need \<le> ?avail" | "?avail < ?need" "?need \<le> ?avail + sb_off ?s" | "?avail + sb_off ?s < ?need" by linarith
  then show ?thesis
  proof cases
    case 1
    then have "n \<le> maxSize" using small by simp
    then show ?thesis using 1 run ok1 l1 one blobs1
      by (auto simp: moved_def intro: fresh_end_mono)
  next
    case 2
    then have n': "n \<le> maxSize" "0 < sb_off ?s" using small by simp_all
    with cow_shift [OF ok1(4) l1(1,2) ok1(2)] obtain h2 where h2:
      "update_blob (sb_store ?s) (blob_consume (sb_off ?s) 1) ?h1 = (Inr (), h2)" "buf h2 i = ?s"
      and h3: "same_values ?h1 (set_buf i (?s\<lparr>sb_off := 0\<rparr>) h2)"
        "buf (set_buf i (?s\<lparr>sb_off := 0\<rparr>) h2) i = ?s\<lparr>sb_off := 0\<rparr>"
        "fresh_end (set_buf i (?s\<lparr>sb_off := 0\<rparr>) h2) i (?avail + sb_off ?s)"
        "LockCount (set_buf i (?s\<lparr>sb_off := 0\<rparr>) h2) (sb_store ?s) = 1"
        "\<And>b. b \<noteq> sb_store ?s \<Longrightarrow> hs_blobs (set_buf i (?s\<lparr>sb_off := 0\<rparr>) h2) ! b = hs_blobs ?h1 ! b"
      unfolding l1(3) Let_def by blast
    let ?h3 = "set_buf i (?s\<lparr>sb_off := 0\<rparr>) h2"
    have need: "fresh_end ?h3 i ?need" using h3(3) 2(2) by (rule fresh_end_mono)
    then have "sbuf_cow i n0 h = (Inr (), ?h3)"
      using run 2 h2 by (simp add: then_do_def Let_def fresh_end_def)
    moreover have "moved h i ?need ?h3"
      using same_values_trans [OF ok1(1) h3(1)] h3 need blobs1 one by (auto simp: moved_def)
    ultimately show ?thesis using n'(1) by simp
  next
    case 3
    then have run3: "sbuf_cow i n0 h = sbuf_reAlloc i n ?h1" using run by simp
    show ?thesis
    proof (cases "n \<le> maxSize")
      case True
      have "sb_len (buf ?h1 i) \<le> n" using n cow_size_ge l1(3) by simp
      from reAlloc_ok [OF ok1(4) l1(1) this True] obtain h' where h':
        "sbuf_reAlloc i n ?h1 = (Inr (), h')" "same_values ?h1 h'" "sb_len (buf h' i) = sb_len (buf ?h1 i)"
        "fresh_end h' i (n - sb_len (buf ?h1 i))" "\<forall>b<length (hs_blobs ?h1). hs_blobs h' ! b = hs_blobs ?h1 ! b"
        "LockCount h' (sb_store (buf h' i)) = 1" by blast
      have "moved h i ?need h'"
        using same_values_trans [OF ok1(1) h'(2)] h'(3-) blobs1 one l1(3) by (auto simp: moved_def)
      then show ?thesis using run3 h'(1) True by simp
    next
      case False
      then show ?thesis using run3 reAlloc_too_big [of n i ?h1] ok1(1) by auto
    qed
  qed
qed

lemma cow_ok:
  assumes ok: "heap_ok h" "live h i" and n: "n = cow_size (sb_len (buf h i)) n0"
  shows "\<exists>r h'. sbuf_cow i n0 h = (r, h') \<and> (if n \<le> maxSize then r = Inr () \<and> moved h i (n - sb_len (buf h i)) h'
    else (\<exists>t. r = Inl (TextException t)) \<and> same_values h h')"
proof (cases "LockCount h (sb_store (buf h i)) = 1")
  case True
  then show ?thesis using cow_owned [OF ok _ n] by blast
next
  case False
  then have run: "sbuf_cow i n0 h = sbuf_reAlloc i n h"
    by (simp add: sbuf_cow_def Let_def n cow_size_def)
  show ?thesis
  proof (cases "n \<le> maxSize")
    case True
    have "sb_len (buf h i) \<le> n" using n cow_size_ge by simp
    from reAlloc_ok [OF ok this True] True run show ?thesis by (auto simp: moved_def)
  next
    case False
    then show ?thesis using run reAlloc_too_big [of n i h] same_values_refl [OF ok(1)] by auto
  qed
qed

end
