(* ===== verification/SBuf_Operations.thy ===== *)
theory SBuf_Operations
  imports SBuf_Cow
begin

text \<open>
  Each \<^verbatim>\<open>SBuf\<close> operation changes the value of its own buffer, to the string it promises, and of no
  other, whatever memory the buffers share and also when its argument lies in its own memory. An
  operation that throws a \<^verbatim>\<open>TextException\<close> leaves a well-formed heap.
\<close>

section \<open>One operation\<close>

definition wrote :: "sheap \<Rightarrow> nat \<Rightarrow> bytes \<Rightarrow> sheap \<Rightarrow> bool" where
  "wrote h i v h' \<longleftrightarrow> heap_ok h' \<and> strings h' = (strings h)[i := Some v] \<and> hs_keepers h' = hs_keepers h \<and>
     length (hs_blobs h) \<le> length (hs_blobs h')"

text \<open>Buffer \<open>i\<close> gets value \<open>v\<close> if \<open>c\<close>; otherwise the call throws, and the value is \<open>w\<close>.\<close>

definition outcome :: "bool \<Rightarrow> sheap \<Rightarrow> nat \<Rightarrow> bytes \<Rightarrow> bytes \<Rightarrow> (exn + unit) \<times> sheap \<Rightarrow> bool" where
  "outcome c h i v w p \<longleftrightarrow>
     (if c then fst p = Inr () \<and> wrote h i v (snd p)
      else (\<exists>t. fst p = Inl (TextException t)) \<and> wrote h i w (snd p))"

lemma same_values_wrote: "live h i \<Longrightarrow> same_values h h' \<longleftrightarrow> wrote h i (content h i) h'"
  by (simp add: same_values_def wrote_def strings_same)

lemma strings_update_live: "strings h' = (strings h)[i := Some v] \<Longrightarrow> live h i \<Longrightarrow> live h' j \<longleftrightarrow> live h j"
proof -
  assume *: "strings h' = (strings h)[i := Some v]" and l: "live h i"
  have "live g j \<longleftrightarrow> j < length (strings g) \<and> strings g ! j \<noteq> None" for g
    by (auto simp: live_def strings_def)
  moreover have "length (hs_bufs h') = length (hs_bufs h)" using arg_cong [OF *, of length] by simp
  ultimately show ?thesis using * l by (cases "j = i") auto
qed

lemma wrote_live: "wrote h i v h' \<Longrightarrow> live h i \<Longrightarrow> live h' j \<longleftrightarrow> live h j"
  using strings_update_live [of h' h i v j] by (simp add: wrote_def)

lemma wrote_content: "wrote h i v h' \<Longrightarrow> live h i \<Longrightarrow> content h' i = v"
  using wrote_live [of h i v h' i] strings_live [of h' i] by (auto simp: wrote_def live_def)

lemma wrote_other: "wrote h i v h' \<Longrightarrow> live h i \<Longrightarrow> live h j \<Longrightarrow> j \<noteq> i \<Longrightarrow> content h' j = content h j"
  using wrote_live [of h i v h' j] strings_live [of h' j] strings_live [of h j] by (auto simp: wrote_def)

lemma wrote_trans: "wrote h i v h' \<Longrightarrow> wrote h' i w h'' \<Longrightarrow> wrote h i w h''"
  by (auto simp: wrote_def)

lemma same_wrote: "same_values h h' \<Longrightarrow> wrote h' i w h'' \<Longrightarrow> wrote h i w h''"
  by (auto simp: wrote_def same_values_def)

lemma moved_same: "moved h i n h' \<Longrightarrow> live h i \<Longrightarrow>
    same_values h h' \<and> heap_ok h' \<and> live h' i \<and> sb_len (buf h' i) = sb_len (buf h i) \<and> content h' i = content h i"
  using strings_eq_live [of h' h i] strings_eq_content [of h' h i] by (auto simp: moved_def same_values_def)

lemma len_small: "heap_ok h \<Longrightarrow> live h i \<Longrightarrow> sb_len (buf h i) \<le> maxSize"
  using sbuf_small [of h i] by linarith

text \<open>What \<^verbatim>\<open>rawSpace()\<close> gives to the code that then writes after the content.\<close>

definition spaced :: "sheap \<Rightarrow> nat \<Rightarrow> nat \<Rightarrow> sheap \<Rightarrow> bool" where
  "spaced h i n h' \<longleftrightarrow> same_values h h' \<and> sb_len (buf h' i) = sb_len (buf h i) \<and> (n = 0 \<or> fresh_end h' i n) \<and>
     (\<forall>b<length (hs_blobs h). b \<noteq> sb_store (buf h i) \<or> LockCount h b \<noteq> 1 \<or> n = 0 \<longrightarrow> hs_blobs h' ! b = hs_blobs h ! b)"

lemma rawSpace_ok:
  assumes ok: "heap_ok h" "live h i" and n: "n + maxSize < npos"
  shows "\<exists>r h'. sbuf_rawSpace i n h = (r, h') \<and> (if sb_len (buf h i) + n \<le> maxSize then r = Inr () \<and> spaced h i n h'
    else (\<exists>t. r = Inl (TextException t)) \<and> same_values h h')"
proof -
  let ?len = "sb_len (buf h i)"
  have len: "?len \<le> maxSize" using ok by (rule len_small)
  have add: "uadd32 n ?len = n + ?len" using n len by (simp add: uadd32_exact npos_def)
  have big: "sb_len (buf h i) \<le> usub32 maxSize n" if "?len + n \<le> maxSize"
    using that n by (simp add: usub32_exact maxSize_def npos_def)
  show ?thesis
  proof (cases "blob_canAppend (uadd32 (sb_off (buf h i)) ?len) n (blob_of h i)")
    case True
    have sp: "spaced h i n h" using True same_values_refl [OF ok(1)] sbuf_exact [OF ok]
      by (auto simp: spaced_def fresh_end_def blob_canAppend_def blob_isAppendOffset_def blob_willFit_def)
    have "?len + n \<le> maxSize"
      using True sbuf_small [OF ok] sbuf_exact [OF ok] by (auto simp: blob_canAppend_def blob_isAppendOffset_def blob_willFit_def)
    then show ?thesis using True big sp by (simp add: sbuf_rawSpace_def then_do_def must_do_def must_def)
  next
    case False
    let ?n = "cow_size ?len (n + ?len)"
    have size: "?n = n + ?len" using n len by (auto simp: cow_size_def npos_def)
    have run: "sbuf_rawSpace i n h = (if ?len \<le> usub32 maxSize n then sbuf_cow i (n + ?len) h
        else (Inl (TextException (''check failed: '' @ ''length() <= maxSize - minSpace'')), h))"
      using False add by (simp add: sbuf_rawSpace_def then_do_def must_do_def must_def)
    have "n \<noteq> 0" using False by (simp add: blob_canAppend_def)
    with cow_ok [OF ok refl, of "n + ?len"] run big size same_values_refl [OF ok(1)] show ?thesis
      by (cases "?len + n \<le> maxSize"; cases "?len \<le> usub32 maxSize n") (auto simp: moved_def spaced_def add.commute)
  qed
qed

text \<open>An argument with its size: bytes that were written, and not in memory that the call may rearrange.\<close>

definition area_ok :: "sheap \<Rightarrow> area \<Rightarrow> bool" where
  "area_ok h a \<longleftrightarrow> area_size a + maxSize < npos \<and>
     (case a of Extern _ \<Rightarrow> True
      | Within b off n \<Rightarrow> b < length (hs_blobs h) \<and> off + n \<le> length (bl_mem (hs_blobs h ! b)))"

definition area_safe :: "sheap \<Rightarrow> nat \<Rightarrow> area \<Rightarrow> bool" where
  "area_safe h i a \<longleftrightarrow>
     (case a of Extern _ \<Rightarrow> True | Within b off n \<Rightarrow> n = 0 \<or> b \<noteq> sb_store (buf h i) \<or> LockCount h b \<noteq> 1)"

lemma fetch_length: "area_ok h a \<Longrightarrow> length (fetch h a) = area_size a"
  by (cases a) (auto simp: area_ok_def)

lemma spaced_fetch: "spaced h i (area_size a) h' \<Longrightarrow> area_ok h a \<Longrightarrow> area_safe h i a \<Longrightarrow> fetch h' a = fetch h a"
  by (cases a) (auto simp: spaced_def area_ok_def area_safe_def)

text \<open>Writing after the content of a buffer that ends the used part of its blob.\<close>

lemma write_end:
  assumes ok: "heap_ok h" "live h i" and fresh: "fresh_end h i (length bs)"
    and k: "k \<le> length bs"
  defines "s \<equiv> buf h i"
  defines "bl \<equiv> (write_mem (sb_off s + sb_len s) bs (blob_of h i))\<lparr>bl_size := sb_off s + sb_len s + length bs\<rparr>"
  shows "wrote h i (content h i @ take k bs) (set_buf i (s\<lparr>sb_len := sb_len s + k\<rparr>) (set_blob (sb_store s) bl h))"
proof -
  note small = sbuf_small [OF ok]
  let ?h1 = "set_blob (sb_store s) bl h" and ?e = "sb_off s + sb_len s"
  have e: "?e = bl_size (blob_of h i)" "?e + length bs \<le> bl_capacity (blob_of h i)" "?e \<le> length (bl_mem (blob_of h i))"
    using fresh small sbuf_exact(2) [OF ok] by (auto simp: fresh_end_def s_def)
  have mem: "bl_mem bl = take ?e (bl_mem (blob_of h i)) @ bs @ drop (?e + length bs) (bl_mem (blob_of h i))"
    "bl_size bl = ?e + length bs" "bl_capacity bl = bl_capacity (blob_of h i)"
    by (simp_all add: bl_def write_mem_def)
  have blok: "blob_ok bl" using e small by (auto simp: blob_ok_def mem)
  have b: "sb_store s < length (hs_blobs h)" "hs_blobs h ! sb_store s = blob_of h i"
    using small(5) by (simp_all add: s_def blob_of_def)
  have h1: "heap_ok ?h1" "strings ?h1 = strings h"
    using set_blob_grow [OF ok(1) b(1) blok] e by (auto simp: b(2) mem)
  have "sbuf_ok (hs_blobs ?h1) (s\<lparr>sb_len := sb_len s + k\<rparr>)"
    using b(1) k by (simp add: sbuf_ok_def hs_blobs_set_blob mem)
  moreover have "slice (hs_blobs ?h1) (s\<lparr>sb_len := sb_len s + k\<rparr>) = content h i @ take k bs"
    using b e k by (simp add: slice_def hs_blobs_set_blob mem content_def s_def [symmetric] drop_take add.commute)
      (simp add: slice_def b add.commute flip: e(1))
  ultimately show ?thesis using set_buf_ok [OF h1(1), of i] ok(2) h1(2) by (auto simp: wrote_def)
qed

lemma append_end:
  assumes ok: "heap_ok h" "live h i" and fresh: "fresh_end h i (length bs)" and bs: "bs \<noteq> []"
  defines "s \<equiv> buf h i"
  shows "\<exists>bl. blob_append bs (blob_of h i) = Inr bl \<and>
    wrote h i (content h i @ bs) (set_buf i (s\<lparr>sb_len := uadd32 (sb_len s) (length bs)\<rparr>) (set_blob (sb_store s) bl h))"
proof -
  let ?bl = "(write_mem (sb_off s + sb_len s) bs (blob_of h i))\<lparr>bl_size := sb_off s + sb_len s + length bs\<rparr>"
  note small = sbuf_small [OF ok]
  have e: "sb_off s + sb_len s = bl_size (blob_of h i)" "sb_off s + sb_len s + length bs \<le> bl_capacity (blob_of h i)"
    "length bs \<le> blob_spaceSize (blob_of h i)"
    using fresh small sbuf_exact(2) [OF ok] by (auto simp: fresh_end_def s_def)
  have add: "uadd32 (bl_size (blob_of h i)) (length bs) = bl_size (blob_of h i) + length bs"
    "uadd32 (sb_len s) (length bs) = sb_len s + length bs"
    using e small by (auto simp: uadd32_exact maxSize_def)
  have "blob_append bs (blob_of h i) = Inr ?bl"
    using bs e by (simp add: blob_append_def Let_def blob_willFit_def must_def add(1) write_mem_def)
  then show ?thesis using write_end [OF ok fresh, of "length bs"] by (simp add: s_def add(2) [unfolded s_def])
qed

lemma lowAppend_ok:
  assumes ok: "heap_ok h" "live h i" and a: "area_ok h a" "area_safe h i a"
  shows "outcome (sb_len (buf h i) + area_size a \<le> maxSize) h i (content h i @ fetch h a) (content h i) (sbuf_lowAppend i a h)"
proof -
  have n: "area_size a + maxSize < npos" using a(1) by (simp add: area_ok_def)
  from rawSpace_ok [OF ok n] obtain r h' where raw: "sbuf_rawSpace i (area_size a) h = (r, h')"
    and res: "if sb_len (buf h i) + area_size a \<le> maxSize then r = Inr () \<and> spaced h i (area_size a) h'
      else (\<exists>t. r = Inl (TextException t)) \<and> same_values h h'" by blast
  show ?thesis
  proof (cases "sb_len (buf h i) + area_size a \<le> maxSize")
    case False
    then show ?thesis using raw res ok(2)
      by (auto simp: outcome_def sbuf_lowAppend_def then_do_def same_values_wrote)
  next
    case True
    then have sp: "r = Inr ()" "spaced h i (area_size a) h'" using res by auto
    then have same: "same_values h h'" "sb_len (buf h' i) = sb_len (buf h i)" by (auto simp: spaced_def)
    then have ok': "heap_ok h'" "live h' i" "content h' i = content h i"
      using ok strings_eq_live [of h' h i] strings_eq_content [of h' h i] by (auto simp: same_values_def)
    have f: "fetch h' a = fetch h a" "length (fetch h a) = area_size a"
      using spaced_fetch [OF sp(2) a] fetch_length [OF a(1)] by auto
    show ?thesis
    proof (cases "area_size a = 0")
      case True
      then have "set_blob (sb_store (buf h' i)) (hs_blobs h' ! sb_store (buf h' i)) h' = h'" by (simp add: set_blob_def)
      then have "sbuf_lowAppend i a h = (Inr (), h')"
        using True raw sp(1) f ok' sbuf_small [OF ok'(1,2)] set_buf_same [OF ok'(2) refl]
        by (simp add: sbuf_lowAppend_def then_do_def update_blob_def blob_append_def uadd32_exact maxSize_def)
      then show ?thesis using True f(2) same(1) ok len_small [OF ok] by (auto simp: outcome_def same_values_wrote)
    next
      case False
      then have "fresh_end h' i (length (fetch h a))" "fetch h a \<noteq> []" using sp(2) f(2) by (auto simp: spaced_def)
      from append_end [OF ok'(1,2) this] raw sp(1) f True show ?thesis
        by (auto simp: outcome_def sbuf_lowAppend_def then_do_def update_blob_def blob_of_def ok'(3) intro: same_wrote [OF same(1)])
    qed
  qed
qed

text \<open>The \<^verbatim>\<open>Locker\<close> makes every argument safe.\<close>

lemma keepers_simps [simp]:
  "live (h\<lparr>hs_keepers := ks\<rparr>) = live h" "buf (h\<lparr>hs_keepers := ks\<rparr>) = buf h" "strings (h\<lparr>hs_keepers := ks\<rparr>) = strings h"
  "content (h\<lparr>hs_keepers := ks\<rparr>) = content h" "fetch (h\<lparr>hs_keepers := ks\<rparr>) = fetch h" "area_ok (h\<lparr>hs_keepers := ks\<rparr>) = area_ok h"
proof -
  show f: "live (h\<lparr>hs_keepers := ks\<rparr>) = live h" "buf (h\<lparr>hs_keepers := ks\<rparr>) = buf h"
    by (simp_all add: fun_eq_iff live_def buf_def)
  show "strings (h\<lparr>hs_keepers := ks\<rparr>) = strings h" "content (h\<lparr>hs_keepers := ks\<rparr>) = content h"
    by (simp_all add: fun_eq_iff strings_def content_def f)
  show "fetch (h\<lparr>hs_keepers := ks\<rparr>) = fetch h"
  proof
    show "fetch (h\<lparr>hs_keepers := ks\<rparr>) a = fetch h a" for a by (cases a) simp_all
  qed
  show "area_ok (h\<lparr>hs_keepers := ks\<rparr>) = area_ok h"
    by (simp add: fun_eq_iff area_ok_def split: area.split)
qed

lemma locked_ok:
  assumes ok: "heap_ok h" "live h i" and a: "area_ok h a"
    and f: "\<And>ks. heap_ok (h\<lparr>hs_keepers := ks\<rparr>) \<Longrightarrow> area_safe (h\<lparr>hs_keepers := ks\<rparr>) i a \<Longrightarrow>
      outcome c (h\<lparr>hs_keepers := ks\<rparr>) i v w (f (h\<lparr>hs_keepers := ks\<rparr>))"
  shows "outcome c h i v w (locked i a f h)"
proof (cases "\<exists>b off n. a = Within b off n \<and> b = sb_store (buf h i) \<and> off < bl_capacity (hs_blobs h ! b)")
  case True
  then obtain b off n where b: "a = Within b off n" "b = sb_store (buf h i)" "off < bl_capacity (hs_blobs h ! b)" by blast
  let ?h = "h\<lparr>hs_keepers := b # hs_keepers h\<rparr>"
  have ok': "heap_ok ?h" using ok a b by (auto simp: heap_ok_def area_ok_def)
  have "LockCount ?h b \<noteq> 1" using only_owner(3) [of ?h i] ok(2) b(2) by auto
  then have "area_safe ?h i a" using b by (simp add: area_safe_def)
  with f ok' have "outcome c ?h i v w (f ?h)" by blast
  moreover have "heap_ok h1 \<Longrightarrow> hs_keepers h1 = b # hs_keepers h \<Longrightarrow>
      heap_ok (h1\<lparr>hs_keepers := hs_keepers h\<rparr>) \<and> strings (h1\<lparr>hs_keepers := hs_keepers h\<rparr>) = strings h1" for h1
    by (auto simp: heap_ok_def)
  ultimately show ?thesis using b
    by (auto simp: outcome_def wrote_def locked_def split: prod.splits)
next
  case False
  then have run: "locked i a f h = f h" by (auto simp: locked_def split: area.splits)
  have "area_safe h i a"
  proof (cases a)
    case (Within b off n)
    with False a have "b = sb_store (buf h i) \<Longrightarrow> n = 0"
      using sbuf_small(6) [OF ok] by (auto simp: area_ok_def blob_of_def)
    then show ?thesis using Within by (auto simp: area_safe_def)
  qed (simp add: area_safe_def)
  then show ?thesis using f [of "hs_keepers h"] ok run by simp
qed

lemma area_of_ok: "heap_ok h \<Longrightarrow> live h S \<Longrightarrow> area_ok h (area_of h S)"
  using sbuf_small [of h S] by (simp add: area_ok_def area_of_def blob_of_def npos_def maxSize_def)

lemma assign_ok:
  assumes "heap_ok h" "live h i" "live h S"
  shows "outcome True h i (content h S) w (sbuf_assign i S h)"
proof (cases "S = i")
  case True
  then show ?thesis using assms by (simp add: outcome_def sbuf_assign_def flip: same_values_wrote) (rule same_values_refl)
next
  case False
  have "sbuf_ok (hs_blobs h) ((buf h i)\<lparr>sb_store := sb_store (buf h S), sb_off := sb_off (buf h S), sb_len := sb_len (buf h S)\<rparr>)"
    using sbuf_okD [OF assms(1,3)] by (simp add: sbuf_ok_def)
  from set_buf_ok [OF assms(1,2) this] False show ?thesis
    by (simp add: outcome_def sbuf_assign_def wrote_def content_def slice_def)
qed

lemma append_area_ok:
  assumes ok: "heap_ok h" "live h i" and a: "area_ok h a"
  shows "outcome (sb_len (buf h i) + area_size a \<le> maxSize) h i (content h i @ fetch h a) (content h i)
    (sbuf_append_area i (Some a) h)"
proof -
  have "outcome (sb_len (buf h i) + area_size a \<le> maxSize) h i (content h i @ fetch h a) (content h i)
      (locked i a (sbuf_lowAppend i a) h)"
  proof (rule locked_ok [OF ok a])
    fix ks let ?h = "h\<lparr>hs_keepers := ks\<rparr>"
    assume "heap_ok ?h" "area_safe ?h i a"
    from lowAppend_ok [OF this(1) _ _ this(2)] ok(2) a
    show "outcome (sb_len (buf h i) + area_size a \<le> maxSize) ?h i (content h i @ fetch h a) (content h i) (sbuf_lowAppend i a ?h)"
      by simp
  qed
  then show ?thesis by (simp add: sbuf_append_area_def)
qed

lemma append_ok:
  assumes ok: "heap_ok h" "live h i" "live h S"
  shows "outcome (sb_len (buf h i) + sb_len (buf h S) \<le> maxSize) h i (content h i @ content h S) (content h i) (sbuf_append i S h)"
proof (cases "sb_len (buf h i) = 0 \<and> sb_store (buf h i) = StorePrototype")
  case True
  then have "content h i = []" using content_length [OF ok(1,2)] by simp
  then show ?thesis using True assign_ok [OF ok] len_small [OF ok(1,3)] by (simp add: sbuf_append_def outcome_def)
next
  case False
  then show ?thesis using append_area_ok [OF ok(1,2) area_of_ok [OF ok(1,3)]]
    by (auto simp: sbuf_append_def sbuf_append_area_def fetch_area_of) (simp_all add: area_of_def)
qed

lemma push_back_ok:
  assumes "heap_ok h" "live h i"
  shows "outcome (sb_len (buf h i) < maxSize) h i (content h i @ [c]) (content h i) (sbuf_push_back i c h)"
proof -
  have "area_ok h (Extern [c])" "area_safe h i (Extern [c])" by (simp_all add: area_ok_def area_safe_def npos_def maxSize_def)
  from lowAppend_ok [OF assms this] show ?thesis by (simp add: sbuf_push_back_def Suc_le_eq)
qed

lemma clear_ok:
  assumes ok: "heap_ok h" "live h i"
  shows "outcome True h i [] w (sbuf_clear i h)"
proof (cases "LockCount h (sb_store (buf h i)) = 1")
  case True
  have "blob_ok (blob_clear (blob_of h i))" using sbuf_small [OF ok] by (auto simp: blob_ok_def blob_clear_def)
  from set_own [OF ok True this, of "(buf h i)\<lparr>sb_len := 0, sb_off := 0\<rparr>"] True show ?thesis
    by (simp add: outcome_def wrote_def sbuf_clear_def Let_def)
next
  case False
  have "sbuf_ok (hs_blobs h) ((buf h i)\<lparr>sb_len := 0, sb_off := 0\<rparr>)" using sbuf_okD [OF ok] by (simp add: sbuf_ok_def)
  from set_buf_ok [OF ok this] False show ?thesis
    by (simp add: outcome_def wrote_def sbuf_clear_def Let_def slice_def)
qed

lemma chop_ok:
  assumes ok: "heap_ok h" "live h i" and n: "n = npos \<or> n + maxSize < npos"
  shows "outcome True h i (sb_chop (content h i) pos n) w (sbuf_chop i pos n h)"
proof -
  let ?len = "sb_len (buf h i)"
  let ?pos = "chop_pos ?len pos"
  let ?n = "chop_len ?len ?pos n"
  have len: "length (content h i) = ?len" using ok by (rule content_length)
  show ?thesis
  proof (cases "?pos = ?len \<or> ?n = 0")
    case True
    then show ?thesis using clear_ok [OF ok, of w] by (auto simp: sbuf_chop_def sb_chop_def len Let_def)
  next
    case False
    note small = sbuf_small [OF ok]
    have p: "?pos \<le> ?len" by (simp add: chop_pos_def)
    have c: "?pos + ?n \<le> ?len"
    proof (cases "n = npos")
      case True
      then show ?thesis using p by (simp add: chop_len_def)
    next
      case n': False
      then have "uadd32 ?pos n = ?pos + n" using n p small by (simp add: uadd32_exact npos_def)
      then show ?thesis using p by (simp add: chop_len_def)
    qed
    have add: "uadd32 (sb_off (buf h i)) ?pos = sb_off (buf h i) + ?pos" using small p by (simp add: uadd32_exact maxSize_def)
    let ?s = "(buf h i)\<lparr>sb_off := sb_off (buf h i) + ?pos, sb_len := ?n\<rparr>"
    have "sbuf_ok (hs_blobs h) ?s" using sbuf_okD [OF ok] c by (simp add: sbuf_ok_def)
    moreover have "sb_chop (content h i) pos n = take ?n (drop ?pos (content h i))"
      using False by (simp add: sb_chop_def len Let_def)
    then have "slice (hs_blobs h) ?s = sb_chop (content h i) pos n"
      using c by (simp add: content_def slice_def drop_take add.commute min_absorb1)
    ultimately show ?thesis using set_buf_ok [OF ok, of ?s] False
      by (simp add: outcome_def wrote_def sbuf_chop_def Let_def add)
  qed
qed

lemma outcome_bind:
  assumes "outcome True h i v w (f h)" and "\<And>h1. f h = (Inr (), h1) \<Longrightarrow> wrote h i v h1 \<Longrightarrow> outcome c h1 i v' w' (g () h1)"
  shows "outcome c h i v' w' (then_do f g h)"
proof -
  obtain h1 where h1: "f h = (Inr (), h1)" "wrote h i v h1" using assms(1) by (cases "f h") (auto simp: outcome_def)
  from assms(2) [OF h1] h1 show ?thesis by (auto simp: then_do_def outcome_def intro: wrote_trans)
qed

lemma clear_fetch:
  assumes "heap_ok h" "live h i"
  shows "fetch (snd (sbuf_clear i h)) a = fetch h a" "area_ok (snd (sbuf_clear i h)) a = area_ok h a"
    "sb_len (buf (snd (sbuf_clear i h)) i) = 0"
proof -
  have mem: "bl_mem (hs_blobs (snd (sbuf_clear i h)) ! b) = bl_mem (hs_blobs h ! b)" for b
    using sbuf_small(5) [OF assms]
    by (cases "b = sb_store (buf h i)") (simp_all add: sbuf_clear_def Let_def hs_blobs_set_blob blob_clear_def blob_of_def)
  have len: "length (hs_blobs (snd (sbuf_clear i h))) = length (hs_blobs h)"
    by (simp add: sbuf_clear_def Let_def hs_blobs_set_blob)
  show "fetch (snd (sbuf_clear i h)) a = fetch h a" by (cases a) (simp_all add: mem)
  show "area_ok (snd (sbuf_clear i h)) a = area_ok h a" by (cases a) (simp_all add: area_ok_def mem len)
  show "sb_len (buf (snd (sbuf_clear i h)) i) = 0" using assms(2) by (auto simp: sbuf_clear_def Let_def buf_set_buf)
qed

lemma assign_area_ok:
  assumes ok: "heap_ok h" "live h i" and a: "area_ok h a"
  shows "outcome (area_size a \<le> maxSize) h i (fetch h a) [] (sbuf_assign_area i (Some a) h)"
proof -
  have "outcome (area_size a \<le> maxSize) g i (fetch g a) [] (then_do (sbuf_clear i) (\<lambda>_. sbuf_append_area i (Some a)) g)"
    if g: "heap_ok g" "live g i" "area_ok g a" for g
  proof (rule outcome_bind)
    show "outcome True g i [] [] (sbuf_clear i g)" by (rule clear_ok [OF g(1,2)])
    fix h1 assume h1: "sbuf_clear i g = (Inr (), h1)" "wrote g i [] h1"
    have "heap_ok h1" "live h1 i" "content h1 i = []" using h1(2) g wrote_live wrote_content by (auto simp: wrote_def)
    then show "outcome (area_size a \<le> maxSize) h1 i (fetch g a) [] (sbuf_append_area i (Some a) h1)"
      using append_area_ok [of h1 i a] clear_fetch(1,2) [OF g(1,2), of a] clear_fetch(3) [OF g(1,2)] g h1(1) by simp
  qed
  note work = this
  show ?thesis unfolding sbuf_assign_area_def Let_def option.case
  proof (rule locked_ok [OF ok a])
    fix ks assume "heap_ok (h\<lparr>hs_keepers := ks\<rparr>)"
    from work [OF this] ok(2) a show "outcome (area_size a \<le> maxSize) (h\<lparr>hs_keepers := ks\<rparr>) i (fetch h a) []
        (then_do (sbuf_clear i) (\<lambda>_. sbuf_append_area i (Some a)) (h\<lparr>hs_keepers := ks\<rparr>))" by simp
  qed
qed

text \<open>The operations that make a buffer.\<close>

definition added :: "sheap \<Rightarrow> bytes \<Rightarrow> sheap \<Rightarrow> bool" where
  "added h v h' \<longleftrightarrow> heap_ok h' \<and> strings h' = strings h @ [Some v]"

lemma added_live: "added h v h' \<Longrightarrow> live h' (length (hs_bufs h)) \<and> content h' (length (hs_bufs h)) = v \<and>
    (live h i \<longrightarrow> live h' i \<and> content h' i = content h i)"
proof -
  assume a: "added h v h'"
  have l: "live g j \<longleftrightarrow> j < length (strings g) \<and> strings g ! j \<noteq> None" for g j by (auto simp: live_def strings_def)
  have n: "strings h' ! length (hs_bufs h) = Some v" "length (strings h') = Suc (length (hs_bufs h))"
    using a by (simp_all only: added_def) (simp_all add: nth_append)
  then have new: "live h' (length (hs_bufs h))" unfolding l n by simp
  moreover have "live h' i \<and> content h' i = content h i" if "live h i"
  proof -
    have "strings h' ! i = strings h ! i" "i < length (strings h)" using a that by (auto simp: added_def l nth_append)
    then show ?thesis using that n l [of h i] l [of h' i] strings_live [of h i] strings_live [of h' i] by simp
  qed
  ultimately show ?thesis using n strings_live [OF new] by simp
qed

lemma push_buf_ok:
  assumes ok: "heap_ok h" "sbuf_ok (hs_blobs h) s"
  shows "added h (slice (hs_blobs h) s) (h\<lparr>hs_bufs := hs_bufs h @ [Some s]\<rparr>)"
proof -
  have "sbuf_ok (hs_blobs h) (buf (h\<lparr>hs_bufs := hs_bufs h @ [Some s]\<rparr>) j)" if "live (h\<lparr>hs_bufs := hs_bufs h @ [Some s]\<rparr>) j" for j
  proof (cases "j < length (hs_bufs h)")
    case True
    then show ?thesis using that sbuf_okD [OF ok(1), of j] by (simp add: live_def buf_def nth_append)
  next
    case False
    then show ?thesis using that ok(2) by (auto simp: live_def buf_def nth_append)
  qed
  then show ?thesis using ok(1) by (auto simp: added_def strings_def heap_ok_def)
qed

lemma copy_ok:
  assumes "heap_ok h" "live h S" shows "\<exists>h'. sbuf_copy S h = (Inr (length (hs_bufs h)), h') \<and> added h (content h S) h'"
  using push_buf_ok [OF assms(1), of "\<lparr>sb_store = sb_store (buf h S), sb_off = sb_off (buf h S), sb_len = sb_len (buf h S)\<rparr>"]
    sbuf_okD [OF assms] by (simp add: sbuf_copy_def content_def slice_def sbuf_ok_def)

lemma new_ok: "heap_ok h \<Longrightarrow> \<exists>h'. sbuf_new h = (Inr (length (hs_bufs h)), h') \<and> added h [] h'"
  using push_buf_ok [of h "\<lparr>sb_store = StorePrototype, sb_off = 0, sb_len = 0\<rparr>"]
  by (auto simp: sbuf_new_def slice_def sbuf_ok_def heap_ok_def StorePrototype_def)

lemma destruct_ok:
  assumes "heap_ok h"
  shows "heap_ok (snd (sbuf_destruct i h)) \<and> strings (snd (sbuf_destruct i h)) = (strings h)[i := None]"
proof -
  have l: "live (snd (sbuf_destruct i h)) j \<longleftrightarrow> live h j \<and> j \<noteq> i" for j
    by (cases "j = i") (auto simp: live_def sbuf_destruct_def nth_list_update)
  moreover have "j \<noteq> i \<Longrightarrow> buf (snd (sbuf_destruct i h)) j = buf h j" for j by (simp add: buf_def sbuf_destruct_def)
  moreover have "hs_blobs (snd (sbuf_destruct i h)) = hs_blobs h" "hs_keepers (snd (sbuf_destruct i h)) = hs_keepers h"
    by (simp_all add: sbuf_destruct_def)
  ultimately show ?thesis using assms by (auto simp: heap_ok_def strings_def) (simp add: sbuf_destruct_def map_update)
qed

lemma substr_ok:
  assumes ok: "heap_ok h" "live h i" and n: "n = npos \<or> n + maxSize < npos"
  shows "\<exists>h'. sbuf_substr i pos n h = (Inr (length (hs_bufs h)), h') \<and> added h (sb_substr (content h i) pos n) h'"
proof -
  obtain h1 where h1: "sbuf_copy i h = (Inr (length (hs_bufs h)), h1)" "added h (content h i) h1" using copy_ok [OF ok] by blast
  let ?k = "length (hs_bufs h)"
  have l: "heap_ok h1" "live h1 ?k" "content h1 ?k = content h i" using added_live [OF h1(2)] h1(2) by (auto simp: added_def)
  have "outcome True h1 ?k (sb_chop (content h i) pos n) [] (sbuf_chop ?k pos n h1)" using chop_ok [OF l(1,2) n] l(3) by simp
  then obtain h2 where h2: "sbuf_chop ?k pos n h1 = (Inr (), h2)" "wrote h1 ?k (sb_chop (content h i) pos n) h2"
    by (cases "sbuf_chop ?k pos n h1") (auto simp: outcome_def)
  have "(strings h @ [Some (content h i)])[?k := Some v] = strings h @ [Some v]" for v
    using list_update_length [of "strings h"] by simp
  then have "added h (sb_substr (content h i) pos n) h2"
    using h1(2) h2(2) by (simp add: added_def wrote_def sb_substr_def)
  then show ?thesis using h1(1) h2(1) by (simp add: sbuf_substr_def then_do_def)
qed

lemma consume_ok:
  assumes ok: "heap_ok h" "live h i" and n: "n = npos \<or> n + maxSize < npos"
  defines "k \<equiv> (if n = npos then sb_len (buf h i) else min n (sb_len (buf h i)))"
  shows "\<exists>h'. sbuf_consume i n h = (Inr (length (hs_bufs h)), h') \<and> heap_ok h' \<and>
    strings h' = (strings h)[i := Some (drop k (content h i))] @ [Some (take k (content h i))]"
proof -
  have k: "k \<le> sb_len (buf h i)" "k + maxSize < npos" using len_small [OF ok] by (auto simp: k_def npos_def maxSize_def)
  have sbok: "sb_ok (content h i)" using content_length [OF ok] len_small [OF ok] by (simp add: sb_ok_def)
  have cut: "sb_substr (content h i) 0 k = take k (content h i)"
    using k content_length [OF ok]
    by (auto simp: sb_substr_def sb_chop_def chop_pos_def chop_len_def Let_def npos_def maxSize_def uadd32_exact)
  obtain h1 where h1: "sbuf_substr i 0 k h = (Inr (length (hs_bufs h)), h1)" "added h (take k (content h i)) h1"
    using substr_ok [OF ok, of k 0] k(2) cut by auto
  have l: "heap_ok h1" "live h1 i" "content h1 i = content h i" using added_live [OF h1(2)] h1(2) ok(2) by (auto simp: added_def)
  have "outcome True h1 i (drop k (content h i)) [] (sbuf_chop i k npos h1)"
    using chop_ok [OF l(1,2), of npos k "[]"] l(3) sb_chop_tail [OF sbok] by simp
  then obtain h2 where h2: "sbuf_chop i k npos h1 = (Inr (), h2)" "wrote h1 i (drop k (content h i)) h2"
    by (cases "sbuf_chop i k npos h1") (auto simp: outcome_def)
  have "i < length (strings h)" using ok(2) by (simp add: live_def)
  then have "strings h2 = (strings h)[i := Some (drop k (content h i))] @ [Some (take k (content h i))]"
    using h1(2) h2(2) by (simp add: added_def wrote_def list_update_append1)
  then show ?thesis using h1(1) h2 by (simp add: sbuf_consume_def then_do_def wrote_def k_def [symmetric])
qed

lemma setAt_ok:
  assumes ok: "heap_ok h" "live h i"
  shows "outcome (pos < sb_len (buf h i)) h i ((content h i)[pos := c]) (content h i) (sbuf_setAt i pos c h)"
proof (cases "pos < sb_len (buf h i)")
  case False
  then show ?thesis using same_values_refl [OF ok(1)] ok(2)
    by (simp add: outcome_def sbuf_setAt_def then_do_def must_def same_values_wrote)
next
  case True
  have "cow_size (sb_len (buf h i)) npos = sb_len (buf h i)" by (simp add: cow_size_def)
  with cow_ok [OF ok refl, of npos] len_small [OF ok] obtain h1 where
    h1: "sbuf_cow i npos h = (Inr (), h1)" "moved h i 0 h1" by auto
  have m: "same_values h h1" "heap_ok h1" "live h1 i" "sb_len (buf h1 i) = sb_len (buf h i)" "content h1 i = content h i"
    "LockCount h1 (sb_store (buf h1 i)) = 1"
    using moved_same [OF h1(2) ok(2)] h1(2) by (auto simp: moved_def)
  let ?s = "buf h1 i"
  let ?bl = "(blob_of h1 i)\<lparr>bl_mem := (bl_mem (blob_of h1 i))[sb_off ?s + pos := c]\<rparr>"
  note small = sbuf_small [OF m(2,3)]
  have "blob_ok ?bl" using small by (auto simp: blob_ok_def)
  moreover have "take (sb_len ?s) (drop (sb_off ?s) (bl_mem ?bl)) = (content h i)[pos := c]"
    using True m(4) unfolding m(5) [symmetric] by (simp add: content_def slice_def blob_of_def drop_update_swap take_update_swap)
  ultimately have "wrote h1 i ((content h i)[pos := c]) (set_buf i ?s (set_blob (sb_store ?s) ?bl h1))"
    using set_own [OF m(2,3,6), of ?bl ?s] small by (simp add: wrote_def)
  moreover have "set_buf i ?s (set_blob (sb_store ?s) ?bl h1) = set_blob (sb_store ?s) ?bl h1"
    using m(3) by (simp add: set_buf_same)
  ultimately show ?thesis using True h1(1) same_wrote [OF m(1)]
    by (simp add: outcome_def sbuf_setAt_def then_do_def must_def Let_def blob_of_def)
qed

lemma case_loop_ok:
  assumes "heap_ok h" "live h i" "j + n = sb_len (buf h i)"
  shows "outcome True h i (take j (content h i) @ map (\<lambda>c. if test c then conv c else c) (drop j (content h i))) w
    (case_loop i test conv j n h)"
  using assms
proof (induction n arbitrary: j h)
  case 0
  then have "length (content h i) \<le> j" using content_length [of h i] by simp
  then show ?case using 0 same_values_refl [of h] by (simp add: outcome_def same_values_wrote)
next
  case (Suc n)
  let ?xs = "content h i"
  have len: "length ?xs = sb_len (buf h i)" using Suc.prems by (simp add: content_length)
  have at: "sbuf_index h i j = ?xs ! j"
    using Suc.prems sbuf_small(1,4) [of h i] by (simp add: sbuf_index_def content_def slice_def blob_of_def)
  let ?c = "if test (?xs ! j) then conv (?xs ! j) else ?xs ! j"
  let ?one = "\<lambda>h. if test (sbuf_index h i j) then sbuf_setAt i j (conv (sbuf_index h i j)) h else (Inr (), h)"
  have one: "outcome True h i (?xs[j := ?c]) w (?one h)"
    using setAt_ok [OF Suc.prems(1,2), of j "conv (?xs ! j)"] Suc.prems same_values_refl [of h]
    by (auto simp: at outcome_def same_values_wrote)
  have "outcome True h i (take j ?xs @ map (\<lambda>c. if test c then conv c else c) (drop j ?xs)) w
      (then_do ?one (\<lambda>_. case_loop i test conv (Suc j) n) h)"
  proof (rule outcome_bind [where v = "?xs[j := ?c]" and w = w])
    show "outcome True h i (?xs[j := ?c]) w (?one h)" by (rule one)
    fix h1 assume h1: "wrote h i (?xs[j := ?c]) h1"
    have ok1: "heap_ok h1" "live h1 i" "content h1 i = ?xs[j := ?c]"
      using h1 Suc.prems wrote_live wrote_content by (auto simp: wrote_def)
    then have "Suc j + n = sb_len (buf h1 i)" using content_length [OF ok1(1,2)] len Suc.prems(3) by simp
    from Suc.IH [OF ok1(1,2) this] ok1(3) len Suc.prems(3)
    show "outcome True h1 i (take j ?xs @ map (\<lambda>c. if test c then conv c else c) (drop j ?xs)) w (case_loop i test conv (Suc j) n h1)"
      by (simp add: take_Suc_conv_app_nth Cons_nth_drop_Suc [symmetric, of j ?xs])
  qed
  then show ?case by simp
qed

lemma convert_ok:
  assumes "heap_ok h" "live h i"
  shows "outcome True h i (map xtolower (content h i)) w (sbuf_toLower i h)"
    "outcome True h i (map xtoupper (content h i)) w (sbuf_toUpper i h)"
proof -
  have "(\<lambda>c. if xisupper c then xtolower c else c) = xtolower" "(\<lambda>c. if xislower c then xtoupper c else c) = xtoupper"
    by (auto simp: fun_eq_iff xtolower_def xtoupper_def)
  then show "outcome True h i (map xtolower (content h i)) w (sbuf_toLower i h)"
    "outcome True h i (map xtoupper (content h i)) w (sbuf_toUpper i h)"
    using case_loop_ok [OF assms, of 0 "sb_len (buf h i)" xisupper xtolower w]
      case_loop_ok [OF assms, of 0 "sb_len (buf h i)" xislower xtoupper w]
    by (simp_all add: sbuf_toLower_def sbuf_toUpper_def)
qed

text \<open>The string that \<^verbatim>\<open>c_str()\<close> gives: the content, followed by a null character.\<close>

lemma c_str_ok:
  assumes ok: "heap_ok h" "live h i"
  shows "outcome (sb_len (buf h i) < maxSize) h i (content h i) (content h i) (sbuf_c_str i h)" (is ?out)
    and "sb_len (buf h i) < maxSize \<Longrightarrow>
      (let h' = snd (sbuf_c_str i h) in take (Suc (sb_len (buf h i))) (drop (sb_off (buf h' i)) (bl_mem (blob_of h' i))) = content h i @ [CHR 0x00])"
proof -
  have "1 + maxSize < npos" by (simp add: npos_def maxSize_def)
  from rawSpace_ok [OF ok this] obtain r h1 where raw: "sbuf_rawSpace i 1 h = (r, h1)"
    and res: "if sb_len (buf h i) + 1 \<le> maxSize then r = Inr () \<and> spaced h i 1 h1
      else (\<exists>t. r = Inl (TextException t)) \<and> same_values h h1" by blast
  have good: "?out \<and> (let h' = snd (sbuf_c_str i h) in
      take (Suc (sb_len (buf h i))) (drop (sb_off (buf h' i)) (bl_mem (blob_of h' i))) = content h i @ [CHR 0x00])"
    if lt: "sb_len (buf h i) < maxSize"
  proof -
    from lt res have sp: "r = Inr ()" "same_values h h1" "sb_len (buf h1 i) = sb_len (buf h i)" "fresh_end h1 i (length [CHR 0x00])"
      by (auto simp: spaced_def)
    have ok1: "heap_ok h1" "live h1 i" "content h1 i = content h i"
      using sp(2) ok strings_eq_live [of h1 h i] strings_eq_content [of h1 h i] by (auto simp: same_values_def)
    let ?s = "buf h1 i" and ?o = "blob_of h1 i"
    let ?bl = "(write_mem (sb_off ?s + sb_len ?s) [CHR 0x00] ?o)\<lparr>bl_size := sb_off ?s + sb_len ?s + length [CHR 0x00]\<rparr>"
    let ?h2 = "set_blob (sb_store ?s) ?bl h1"
    have e: "sb_off ?s + sb_len ?s = bl_size ?o" "bl_size ?o < bl_capacity ?o"
      using sp(4) sbuf_exact(2) [OF ok1(1,2)] by (auto simp: fresh_end_def)
    then have size: "uadd32 (bl_size ?o) 1 = sb_off ?s + sb_len ?s + 1"
      using sbuf_small [OF ok1(1,2)] by (simp add: uadd32_exact maxSize_def)
    have run: "sbuf_c_str i h = (Inr (), ?h2)"
      using raw sp(1) size by (simp add: sbuf_c_str_def then_do_def Let_def blob_of_def write_mem_def)
    have same: "set_buf i (?s\<lparr>sb_len := sb_len ?s + 0\<rparr>) ?h2 = ?h2" using ok1(2) by (simp add: set_buf_same)
    have "wrote h1 i (content h i @ take 0 [CHR 0x00]) ?h2"
      using write_end [OF ok1(1,2) sp(4), of 0] unfolding same ok1(3) by simp
    then have "wrote h i (content h i) ?h2" using same_wrote [OF sp(2)] by simp
    moreover have "take (Suc (sb_len (buf h i))) (drop (sb_off ?s) (bl_mem ?bl)) = content h i @ [CHR 0x00]"
    proof -
      have "take (sb_len ?s) (drop (sb_off ?s) (bl_mem ?o)) = content h i"
        using ok1(3) by (simp add: content_def slice_def blob_of_def)
      moreover have "sb_off ?s + sb_len ?s \<le> length (bl_mem ?o)" using sbuf_small [OF ok1(1,2)] by linarith
      ultimately show ?thesis using content_length [OF ok1(1,2)] ok1(3) by (simp add: write_mem_def sp(3) [symmetric] drop_take add.commute)
    qed
    moreover have "blob_of ?h2 i = ?bl" using sbuf_small(5) [OF ok1(1,2)] by (simp add: blob_of_def hs_blobs_set_blob)
    ultimately show ?thesis using lt run by (simp add: outcome_def Let_def)
  qed
  show ?out
  proof (cases "sb_len (buf h i) < maxSize")
    case True
    then show ?thesis using good by blast
  next
    case False
    then show ?thesis using raw res ok(2)
      by (auto simp: outcome_def sbuf_c_str_def then_do_def same_values_wrote)
  qed
  show "sb_len (buf h i) < maxSize \<Longrightarrow>
      (let h' = snd (sbuf_c_str i h) in take (Suc (sb_len (buf h i))) (drop (sb_off (buf h' i)) (bl_mem (blob_of h' i))) = content h i @ [CHR 0x00])"
    using good by blast
qed

text \<open>Reservations.\<close>

lemma reserveCapacity_ok:
  fixes n :: nat
  assumes ok: "heap_ok h" "live h i"
  defines "n' \<equiv> max (sb_len (buf h i)) n"
  shows "outcome (n \<le> maxSize) h i (content h i) (content h i) (sbuf_reserveCapacity i n h)"
    and "n \<le> maxSize \<Longrightarrow> moved h i (n' - sb_len (buf h i)) (snd (sbuf_reserveCapacity i n h))"
proof -
  have "n \<le> maxSize \<Longrightarrow> cow_size (sb_len (buf h i)) n = n'" by (auto simp: cow_size_def n'_def npos_def maxSize_def)
  with cow_ok [OF ok refl, of n] len_small [OF ok]
  have good: "n \<le> maxSize \<Longrightarrow> \<exists>h'. sbuf_cow i n h = (Inr (), h') \<and> moved h i (n' - sb_len (buf h i)) h'"
    by (auto simp: n'_def)
  then show "outcome (n \<le> maxSize) h i (content h i) (content h i) (sbuf_reserveCapacity i n h)"
    using ok same_values_refl [OF ok(1)] moved_same [OF _ ok(2)]
    by (cases "n \<le> maxSize")
      (auto simp: outcome_def sbuf_reserveCapacity_def then_do_def must_do_def must_def same_values_wrote [symmetric])
  show "n \<le> maxSize \<Longrightarrow> moved h i (n' - sb_len (buf h i)) (snd (sbuf_reserveCapacity i n h))"
    using good by (auto simp: sbuf_reserveCapacity_def then_do_def must_do_def must_def)
qed

lemma reserveSpace_ok:
  assumes ok: "heap_ok h" "live h i"
  shows "outcome (sb_len (buf h i) + n \<le> maxSize) h i (content h i) (content h i) (sbuf_reserveSpace i n h)"
    and "sb_len (buf h i) + n \<le> maxSize \<Longrightarrow> moved h i n (snd (sbuf_reserveSpace i n h))"
proof -
  let ?len = "sb_len (buf h i)"
  have "sbuf_reserveSpace i n h = (if ?len + n \<le> maxSize then sbuf_reserveCapacity i (?len + n) h
      else (Inl (TextException (''check failed: '' @ (if n \<le> maxSize then ''length() <= maxSize - minSpace'' else ''minSpace <= maxSize''))), h))"
    by (auto simp: sbuf_reserveSpace_def then_do_def must_do_def must_def)
  then show "outcome (?len + n \<le> maxSize) h i (content h i) (content h i) (sbuf_reserveSpace i n h)"
    "?len + n \<le> maxSize \<Longrightarrow> moved h i n (snd (sbuf_reserveSpace i n h))"
    using reserveCapacity_ok [OF ok, of "?len + n"] same_values_refl [OF ok(1)] ok(2)
    by (auto simp: outcome_def same_values_wrote [symmetric])
qed

lemma reserve_ok:
  assumes ok: "heap_ok h" "live h i"
  shows "\<exists>k h'. sbuf_reserve i req h = (Inr k, h') \<and> same_values h h' \<and> k = blob_spaceSize (blob_of h' i)"
proof -
  let ?len = "sb_len (buf h i)"
  let ?new = "min (max (rr_minSpace req) (rr_idealSpace req)) (usub32 maxSize ?len)"
  let ?c = "min (uadd32 ?len ?new) (rr_maxCapacity req)"
  have len: "?len \<le> maxSize" using ok by (rule len_small)
  then have "usub32 maxSize ?len = maxSize - ?len" by (simp add: usub32_exact maxSize_def)
  then have "?len + ?new \<le> maxSize" using len by simp
  then have c: "?c \<le> maxSize" by (simp add: uadd32_exact maxSize_def)
  have "\<exists>h'. sbuf_reserveCapacity i ?c h = (Inr (), h') \<and> same_values h h'"
    using reserveCapacity_ok(1) [OF ok, of ?c] c ok(2)
    by (cases "sbuf_reserveCapacity i ?c h") (auto simp: outcome_def same_values_wrote)
  then show ?thesis using same_values_refl [OF ok(1)] by (auto simp: sbuf_reserve_def Let_def then_do_def)
qed

text \<open>Raw appending. The announced size must be positive; see the last section of \<open>SBuf_Isolation\<close>.\<close>

lemma write_mem_simps [simp]:
  "bl_size (write_mem k bs b) = bl_size b" "bl_capacity (write_mem k bs b) = bl_capacity b"
  "blob_spaceSize (write_mem k bs b) = blob_spaceSize b"
  by (simp_all add: write_mem_def blob_spaceSize_def)

lemma set_blob_again: "set_blob b bl (set_buf i s (set_blob b bl0 h)) = set_buf i s (set_blob b bl h)"
  by (simp add: set_blob_def set_buf_def)

lemma rawAppend_ok:
  assumes ok: "heap_ok h" "live h i" and n: "0 < n" "n + maxSize < npos" "length bs \<le> n"
  shows "outcome (sb_len (buf h i) + n \<le> maxSize) h i (content h i @ bs) (content h i) (sbuf_rawAppend i n bs h)"
proof -
  from rawSpace_ok [OF ok n(2)] obtain r h1 where raw: "sbuf_rawSpace i n h = (r, h1)"
    and res: "if sb_len (buf h i) + n \<le> maxSize then r = Inr () \<and> spaced h i n h1
      else (\<exists>t. r = Inl (TextException t)) \<and> same_values h h1" by blast
  show ?thesis
  proof (cases "sb_len (buf h i) + n \<le> maxSize")
    case False
    then show ?thesis using raw res ok(2)
      by (auto simp: outcome_def sbuf_rawAppend_def then_do_def same_values_wrote)
  next
    case True
    with res n have sp: "r = Inr ()" "same_values h h1" "fresh_end h1 i n" by (auto simp: spaced_def)
    have ok1: "heap_ok h1" "live h1 i" "content h1 i = content h i"
      using sp(2) ok strings_eq_live [of h1 h i] strings_eq_content [of h1 h i] by (auto simp: same_values_def)
    let ?s = "buf h1 i" and ?o = "blob_of h1 i"
    note small = sbuf_small [OF ok1(1,2)]
    have e: "sb_off ?s + sb_len ?s = bl_size ?o" "bl_size ?o + length bs \<le> bl_capacity ?o" "length bs \<le> blob_spaceSize ?o"
      using sp(3) n(3) sbuf_exact(2) [OF ok1(1,2)] small(2) by (auto simp: fresh_end_def)
    have fr: "fresh_end h1 i (length bs)" using sp(3) n(3) by (rule fresh_end_mono)
    let ?w = "write_mem (sb_off ?s + sb_len ?s) bs ?o"
    have add: "uadd32 (sb_off ?s) (sb_len ?s) = bl_size ?o" "uadd32 (sb_len ?s) (length bs) = sb_len ?s + length bs"
      "uadd32 (sb_off ?s) (sb_len ?s + length bs) = bl_size ?o + length bs" "usub32 (bl_capacity ?o) (sb_off ?s) = bl_capacity ?o - sb_off ?s"
      using small e by (auto simp: uadd32_exact usub32_exact maxSize_def)
    let ?h2 = "set_blob (sb_store ?s) ?w h1"
    have own: "blob_of (set_blob (sb_store ?s) bl h1) i = bl" for bl using small(5) by (simp add: blob_of_def hs_blobs_set_blob)
    have "sbuf_rawAppendFinish i (sb_store ?s) (sb_off ?s + sb_len ?s) (length bs) ?h2 =
        (Inr (), set_buf i (?s\<lparr>sb_len := sb_len ?s + length bs\<rparr>)
           (set_blob (sb_store ?s) (?w\<lparr>bl_size := sb_off ?s + sb_len ?s + length bs\<rparr>) h1))"
      using e small unfolding sbuf_rawAppendFinish_def then_do_def
      by (simp add: own must_def must_do_def Let_def blob_canAppend_def blob_isAppendOffset_def blob_willFit_def add set_blob_again)
    then have "sbuf_rawAppend i n bs h = (Inr (), set_buf i (?s\<lparr>sb_len := sb_len ?s + length bs\<rparr>)
           (set_blob (sb_store ?s) (?w\<lparr>bl_size := sb_off ?s + sb_len ?s + length bs\<rparr>) h1))"
      using raw sp(1) by (simp add: sbuf_rawAppend_def then_do_def Let_def blob_of_def)
    then show ?thesis using True write_end [OF ok1(1,2) fr, of "length bs"] same_wrote [OF sp(2)]
      by (simp add: outcome_def ok1(3))
  qed
qed

end
