(* ===== verification/Refinement.thy ===== *)
theory Refinement
  imports Main
begin

text \<open>
  Components with a command interface: sequences of commands, and the locale in which a
  component is compared with its specification.
\<close>

text \<open>
  An implementation of a command interface, and the specification it is compared with. Every
  sequence of allowed commands gives the same replies in both.
\<close>

fun run_calls :: "('c \<Rightarrow> 's \<Rightarrow> 'r \<times> 's) \<Rightarrow> 'c list \<Rightarrow> 's \<Rightarrow> 'r list \<times> 's" where
  "run_calls f [] s = ([], s)"
| "run_calls f (c # cs) s = (case f c s of (r, s1) \<Rightarrow> case run_calls f cs s1 of (rs, s2) \<Rightarrow> (r # rs, s2))"

fun all_allowed :: "('c \<Rightarrow> 'a \<Rightarrow> bool) \<Rightarrow> ('c \<Rightarrow> 'a \<Rightarrow> 'r \<times> 'a) \<Rightarrow> 'c list \<Rightarrow> 'a \<Rightarrow> bool" where
  "all_allowed ok f [] a \<longleftrightarrow> True"
| "all_allowed ok f (c # cs) a \<longleftrightarrow> ok c a \<and> all_allowed ok f cs (snd (f c a))"

locale implementation =
  fixes inv :: "'s \<Rightarrow> bool" and value_of :: "'s \<Rightarrow> 'a"
    and legal :: "'c \<Rightarrow> 'a \<Rightarrow> bool" and concrete :: "'c \<Rightarrow> 's \<Rightarrow> 'r \<times> 's" and abstract :: "'c \<Rightarrow> 'a \<Rightarrow> 'r \<times> 'a"
  assumes step_inv: "inv s \<Longrightarrow> legal c (value_of s) \<Longrightarrow> inv (snd (concrete c s))"
    and step_reply: "inv s \<Longrightarrow> legal c (value_of s) \<Longrightarrow> fst (concrete c s) = fst (abstract c (value_of s))"
    and step_value: "inv s \<Longrightarrow> legal c (value_of s) \<Longrightarrow> value_of (snd (concrete c s)) = snd (abstract c (value_of s))"
begin

lemma run_refines:
  "inv s \<Longrightarrow> all_allowed legal abstract cs (value_of s) \<Longrightarrow>
   inv (snd (run_calls concrete cs s)) \<and> fst (run_calls concrete cs s) = fst (run_calls abstract cs (value_of s)) \<and>
   value_of (snd (run_calls concrete cs s)) = snd (run_calls abstract cs (value_of s))"
proof (induction cs arbitrary: s)
  case (Cons c cs)
  obtain r s1 where c: "concrete c s = (r, s1)" by fastforce
  obtain r' a1 where a: "abstract c (value_of s) = (r', a1)" by fastforce
  have l: "legal c (value_of s)" "all_allowed legal abstract cs a1" using Cons.prems(2) a by auto
  have step: "inv s1" "r = r'" "value_of s1 = a1"
    using step_inv [OF Cons.prems(1) l(1)] step_reply [OF Cons.prems(1) l(1)] step_value [OF Cons.prems(1) l(1)] a c by auto
  show ?case using Cons.IH [OF step(1)] l(2) step a c by (auto split: prod.splits)
qed simp

end

end
