(* ===== verification/SBuf_Isolation.thy ===== *)
theory SBuf_Isolation
  imports SBuf_Operations Refinement
begin

text \<open>
  The buffers as independent strings. A command is a call of a public \<^verbatim>\<open>SBuf\<close> method; what it does to
  the strings is written without any memory. The heap implements it: the same reply, the same
  strings, after every sequence of calls, with no other exception than \<^verbatim>\<open>TextException\<close>.
\<close>

section \<open>Commands\<close>

datatype command =
    Make | Copy nat | Destruct nat
  | Assign nat nat | AssignPart nat nat nat nat | AssignBytes nat bytes
  | Append nat nat | AppendPart nat nat nat nat | AppendBytes nat bytes | PushBack nat char | RawAppend nat nat bytes
  | Clear nat | Chop nat nat nat | Substr nat nat nat | Consume nat nat
  | SetAt nat nat char | ToLower nat | ToUpper nat | CStr nat
  | ReserveCapacity nat nat | ReserveSpace nat nat | Reserve nat reservation

datatype reply = Done | Made nat | Threw | Crashed

fun reply_of :: "(nat \<Rightarrow> reply) \<Rightarrow> exn + nat \<Rightarrow> reply" where
  "reply_of f (Inr k) = f k"
| "reply_of f (Inl (TextException t)) = Threw"
| "reply_of f (Inl e) = Crashed"

definition answer :: "(nat \<Rightarrow> reply) \<Rightarrow> (exn + nat) \<times> sheap \<Rightarrow> reply \<times> sheap" where
  "answer f p = (reply_of f (fst p), snd p)"

definition call :: "unit heap_op \<Rightarrow> sheap \<Rightarrow> reply \<times> sheap" where
  "call f h = answer (\<lambda>_. Done) (map_prod (map_sum id (\<lambda>_. 0)) id (f h))"

text \<open>A pointer \<open>pos\<close> bytes into a buffer, and a size.\<close>

definition part :: "sheap \<Rightarrow> nat \<Rightarrow> nat \<Rightarrow> nat \<Rightarrow> area" where
  "part h S pos n = Within (sb_store (buf h S)) (sb_off (buf h S) + pos) n"

fun exec :: "command \<Rightarrow> sheap \<Rightarrow> reply \<times> sheap" where
  "exec Make h = answer Made (sbuf_new h)"
| "exec (Copy S) h = answer Made (sbuf_copy S h)"
| "exec (Destruct i) h = call (sbuf_destruct i) h"
| "exec (Assign i S) h = call (sbuf_assign i S) h"
| "exec (AssignPart i S pos n) h = call (sbuf_assign_area i (Some (part h S pos n))) h"
| "exec (AssignBytes i bs) h = call (sbuf_assign_area i (Some (Extern bs))) h"
| "exec (Append i S) h = call (sbuf_append i S) h"
| "exec (AppendPart i S pos n) h = call (sbuf_append_area i (Some (part h S pos n))) h"
| "exec (AppendBytes i bs) h = call (sbuf_append_area i (Some (Extern bs))) h"
| "exec (PushBack i c) h = call (sbuf_push_back i c) h"
| "exec (RawAppend i n bs) h = call (sbuf_rawAppend i n bs) h"
| "exec (Clear i) h = call (sbuf_clear i) h"
| "exec (Chop i pos n) h = call (sbuf_chop i pos n) h"
| "exec (Substr i pos n) h = answer Made (sbuf_substr i pos n h)"
| "exec (Consume i n) h = answer Made (sbuf_consume i n h)"
| "exec (SetAt i pos c) h = call (sbuf_setAt i pos c) h"
| "exec (ToLower i) h = call (sbuf_toLower i) h"
| "exec (ToUpper i) h = call (sbuf_toUpper i) h"
| "exec (CStr i) h = call (sbuf_c_str i) h"
| "exec (ReserveCapacity i n) h = call (sbuf_reserveCapacity i n) h"
| "exec (ReserveSpace i n) h = call (sbuf_reserveSpace i n) h"
| "exec (Reserve i req) h = answer (\<lambda>_. Done) (sbuf_reserve i req h)"

section \<open>Independent strings\<close>

type_synonym buf_values = "bytes option list"

abbreviation val :: "buf_values \<Rightarrow> nat \<Rightarrow> bytes" where
  "val ss i \<equiv> the (ss ! i)"

definition present :: "buf_values \<Rightarrow> nat \<Rightarrow> bool" where
  "present ss i \<longleftrightarrow> i < length ss \<and> ss ! i \<noteq> None"

text \<open>The string becomes \<open>v\<close> if it is not too long; otherwise the call throws and it is \<open>w\<close>.\<close>

definition put :: "nat \<Rightarrow> bytes \<Rightarrow> bytes \<Rightarrow> buf_values \<Rightarrow> reply \<times> buf_values" where
  "put i v w ss = (if length v \<le> maxSize then (Done, ss[i := Some v]) else (Threw, ss[i := Some w]))"

definition need :: "bool \<Rightarrow> buf_values \<Rightarrow> reply \<times> buf_values" where
  "need c ss = (if c then Done else Threw, ss)"

fun spec :: "command \<Rightarrow> buf_values \<Rightarrow> reply \<times> buf_values" where
  "spec Make ss = (Made (length ss), ss @ [Some []])"
| "spec (Copy S) ss = (Made (length ss), ss @ [Some (val ss S)])"
| "spec (Destruct i) ss = (Done, ss[i := None])"
| "spec (Assign i S) ss = (Done, ss[i := Some (val ss S)])"
| "spec (AssignPart i S pos n) ss = put i (take n (drop pos (val ss S))) [] ss"
| "spec (AssignBytes i bs) ss = put i bs [] ss"
| "spec (Append i S) ss = put i (val ss i @ val ss S) (val ss i) ss"
| "spec (AppendPart i S pos n) ss = put i (val ss i @ take n (drop pos (val ss S))) (val ss i) ss"
| "spec (AppendBytes i bs) ss = put i (val ss i @ bs) (val ss i) ss"
| "spec (PushBack i c) ss = put i (val ss i @ [c]) (val ss i) ss"
| "spec (RawAppend i n bs) ss =
     (if length (val ss i) + n \<le> maxSize then (Done, ss[i := Some (val ss i @ bs)]) else (Threw, ss))"
| "spec (Clear i) ss = (Done, ss[i := Some []])"
| "spec (Chop i pos n) ss = (Done, ss[i := Some (sb_chop (val ss i) pos n)])"
| "spec (Substr i pos n) ss = (Made (length ss), ss @ [Some (sb_chop (val ss i) pos n)])"
| "spec (Consume i n) ss =
     (let k = (if n = npos then length (val ss i) else n)
      in (Made (length ss), ss[i := Some (drop k (val ss i))] @ [Some (take k (val ss i))]))"
| "spec (SetAt i pos c) ss =
     (if pos < length (val ss i) then (Done, ss[i := Some ((val ss i)[pos := c])]) else (Threw, ss))"
| "spec (ToLower i) ss = (Done, ss[i := Some (map xtolower (val ss i))])"
| "spec (ToUpper i) ss = (Done, ss[i := Some (map xtoupper (val ss i))])"
| "spec (CStr i) ss = need (length (val ss i) < maxSize) ss"
| "spec (ReserveCapacity i n) ss = need (n \<le> maxSize) ss"
| "spec (ReserveSpace i n) ss = need (length (val ss i) + n \<le> maxSize) ss"
| "spec (Reserve i req) ss = (Done, ss)"

text \<open>
  The calls that are made: their buffers exist, a size is \<^verbatim>\<open>npos\<close> or leaves room for 32-bit sums, and
  raw appending announces at least one byte and at least those it writes.
\<close>

definition size_arg :: "nat \<Rightarrow> bool" where
  "size_arg n \<longleftrightarrow> n + maxSize < npos"

fun allowed :: "command \<Rightarrow> buf_values \<Rightarrow> bool" where
  "allowed Make ss \<longleftrightarrow> True"
| "allowed (Copy S) ss \<longleftrightarrow> present ss S"
| "allowed (Destruct i) ss \<longleftrightarrow> present ss i"
| "allowed (Assign i S) ss \<longleftrightarrow> present ss i \<and> present ss S"
| "allowed (AssignPart i S pos n) ss \<longleftrightarrow> present ss i \<and> present ss S \<and> pos + n \<le> length (val ss S)"
| "allowed (AssignBytes i bs) ss \<longleftrightarrow> present ss i \<and> size_arg (length bs)"
| "allowed (Append i S) ss \<longleftrightarrow> present ss i \<and> present ss S"
| "allowed (AppendPart i S pos n) ss \<longleftrightarrow> present ss i \<and> present ss S \<and> pos + n \<le> length (val ss S)"
| "allowed (AppendBytes i bs) ss \<longleftrightarrow> present ss i \<and> size_arg (length bs)"
| "allowed (RawAppend i n bs) ss \<longleftrightarrow> present ss i \<and> 0 < n \<and> size_arg n \<and> length bs \<le> n"
| "allowed (Chop i pos n) ss \<longleftrightarrow> present ss i \<and> (n = npos \<or> size_arg n)"
| "allowed (Substr i pos n) ss \<longleftrightarrow> present ss i \<and> (n = npos \<or> size_arg n)"
| "allowed (Consume i n) ss \<longleftrightarrow> present ss i \<and> (n = npos \<or> size_arg n)"
| "allowed (PushBack i c) ss \<longleftrightarrow> present ss i"
| "allowed (Clear i) ss \<longleftrightarrow> present ss i"
| "allowed (SetAt i pos c) ss \<longleftrightarrow> present ss i"
| "allowed (ToLower i) ss \<longleftrightarrow> present ss i"
| "allowed (ToUpper i) ss \<longleftrightarrow> present ss i"
| "allowed (CStr i) ss \<longleftrightarrow> present ss i"
| "allowed (ReserveCapacity i n) ss \<longleftrightarrow> present ss i"
| "allowed (ReserveSpace i n) ss \<longleftrightarrow> present ss i"
| "allowed (Reserve i req) ss \<longleftrightarrow> present ss i"

section \<open>The heap implements the strings\<close>

definition implements :: "reply \<times> buf_values \<Rightarrow> reply \<times> sheap \<Rightarrow> bool" where
  "implements p q \<longleftrightarrow> fst q = fst p \<and> heap_ok (snd q) \<and> strings (snd q) = snd p"

lemma present_live: "present (strings h) i \<longleftrightarrow> live h i"
  by (auto simp: present_def live_def strings_def)

lemma val_strings: "live h i \<Longrightarrow> val (strings h) i = content h i"
  by (simp add: strings_live)

lemma call_outcome:
  assumes "outcome c h i v w (f h)"
  shows "implements (if c then (Done, (strings h)[i := Some v]) else (Threw, (strings h)[i := Some w])) (call f h)"
  using assms by (cases "f h") (auto simp: outcome_def wrote_def implements_def call_def answer_def)

lemma call_put:
  assumes "outcome (length v \<le> maxSize) h i v w (f h)"
  shows "implements (put i v w (strings h)) (call f h)"
  using call_outcome [of _ h i v w f] assms by (simp add: put_def split: if_splits)

lemma call_done:
  assumes "outcome True h i v v (f h)" shows "implements (Done, (strings h)[i := Some v]) (call f h)"
  using call_outcome [of True h i v v f] assms by simp

lemma call_need:
  assumes "outcome c h i (content h i) (content h i) (f h)" "live h i"
  shows "implements (need c (strings h)) (call f h)"
  using call_outcome [of c h i "content h i" "content h i" f] assms strings_same [OF assms(2)] by (simp add: need_def split: if_splits)

lemma answer_made:
  assumes "f h = (Inr (length (hs_bufs h)), h')" "added h v h'"
  shows "implements (Made (length (strings h)), strings h @ [Some v]) (answer Made (f h))"
  using assms by (simp add: implements_def answer_def added_def)

lemma part_ok:
  assumes ok: "heap_ok h" "live h S" and n: "pos + n \<le> length (content h S)"
  shows "area_ok h (part h S pos n)" "fetch h (part h S pos n) = take n (drop pos (content h S))"
proof -
  note small = sbuf_small [OF ok]
  have len: "pos + n \<le> sb_len (buf h S)" using n content_length [OF ok] by simp
  then show "area_ok h (part h S pos n)"
    using small by (simp add: area_ok_def part_def blob_of_def npos_def maxSize_def)
  show "fetch h (part h S pos n) = take n (drop pos (content h S))"
    using len by (simp add: part_def content_def slice_def drop_take min_absorb1 add.commute)
qed

lemma extern_ok: "size_arg (length bs) \<Longrightarrow> area_ok h (Extern bs)"
  by (simp add: area_ok_def size_arg_def)

lemma strings_id: "live h i \<Longrightarrow> (strings h)[i := Some (val (strings h) i)] = strings h"
  by (simp add: val_strings strings_same)

lemma exec_implements:
  assumes ok: "heap_ok h" and c: "allowed c (strings h)"
  shows "implements (spec c (strings h)) (exec c h)"
proof (cases c)
  case Make
  then show ?thesis using new_ok [OF ok] answer_made by auto
next
  case (Copy S)
  then show ?thesis using copy_ok [OF ok, of S] answer_made c by (auto simp: present_live val_strings)
next
  case (Destruct i)
  then show ?thesis using destruct_ok [OF ok, of i]
    by (simp add: implements_def call_def answer_def) (simp add: sbuf_destruct_def)
next
  case (Assign i S)
  then show ?thesis using c call_done [where f = "sbuf_assign i S", OF assign_ok [OF ok, of i S]] by (simp add: present_live val_strings)
next
  case (AssignPart i S pos n)
  then have a: "live h i" "live h S" "pos + n \<le> length (content h S)" using c by (auto simp: present_live val_strings)
  show ?thesis using AssignPart part_ok [OF ok a(2,3)] a assign_area_ok [OF ok a(1) part_ok(1) [OF ok a(2,3)]]
    by (auto simp: val_strings part_def intro!: call_put)
next
  case (AssignBytes i bs)
  then have a: "live h i" "area_ok h (Extern bs)" using c extern_ok by (simp_all add: present_live)
  show ?thesis using AssignBytes assign_area_ok [OF ok a] by (auto intro!: call_put)
next
  case (Append i S)
  then have a: "live h i" "live h S" using c by (simp_all add: present_live)
  show ?thesis using Append a append_ok [OF ok a] ok by (auto simp: val_strings content_length intro!: call_put)
next
  case (AppendPart i S pos n)
  then have a: "live h i" "live h S" "pos + n \<le> length (content h S)" using c by (auto simp: present_live val_strings)
  show ?thesis using AppendPart part_ok [OF ok a(2,3)] a append_area_ok [OF ok a(1) part_ok(1) [OF ok a(2,3)]] ok
    by (auto simp: val_strings part_def content_length intro!: call_put)
next
  case (AppendBytes i bs)
  then have a: "live h i" "area_ok h (Extern bs)" using c extern_ok by (simp_all add: present_live)
  show ?thesis using AppendBytes a(1) ok append_area_ok [OF ok a] by (auto simp: val_strings content_length intro!: call_put)
next
  case (PushBack i b)
  then have "live h i" using c by (simp add: present_live)
  then show ?thesis using PushBack push_back_ok [OF ok, of i b] ok
    by (auto simp: val_strings content_length Suc_le_eq intro!: call_put)
next
  case (RawAppend i n bs)
  then have a: "live h i" "0 < n" "n + maxSize < npos" "length bs \<le> n" using c by (simp_all add: present_live size_arg_def)
  show ?thesis using RawAppend a call_outcome [where f = "sbuf_rawAppend i n bs", OF rawAppend_ok [OF ok a]] ok
    by (simp add: val_strings content_length strings_same split: if_splits)
next
  case (Clear i)
  then show ?thesis using c call_done [where f = "sbuf_clear i", OF clear_ok [OF ok, of i]] by (simp add: present_live)
next
  case (Chop i pos n)
  then have "live h i" "n = npos \<or> n + maxSize < npos" using c by (auto simp: present_live size_arg_def)
  then show ?thesis using Chop call_done [where f = "sbuf_chop i pos n", OF chop_ok [OF ok, of i n pos]] by (simp add: val_strings)
next
  case (Substr i pos n)
  then have a: "live h i" "n = npos \<or> n + maxSize < npos" using c by (auto simp: present_live size_arg_def)
  then show ?thesis using Substr answer_made substr_ok [OF ok a, of pos] by (auto simp: val_strings sb_substr_def)
next
  case (Consume i n)
  then have a: "live h i" "n = npos \<or> n + maxSize < npos" using c by (auto simp: present_live size_arg_def)
  show ?thesis using Consume a(1) consume_ok [OF ok a] content_length [OF ok a(1)]
    by (auto simp: implements_def answer_def val_strings min_def)
next
  case (SetAt i pos b)
  then have a: "live h i" using c by (simp add: present_live)
  show ?thesis using SetAt a call_outcome [where f = "sbuf_setAt i pos b", OF setAt_ok [OF ok a]] ok
    by (simp add: val_strings content_length strings_same split: if_splits)
next
  case (ToLower i)
  then show ?thesis using c call_done [where f = "sbuf_toLower i", OF convert_ok(1) [OF ok, of i]] by (simp add: present_live val_strings)
next
  case (ToUpper i)
  then show ?thesis using c call_done [where f = "sbuf_toUpper i", OF convert_ok(2) [OF ok, of i]] by (simp add: present_live val_strings)
next
  case (CStr i)
  then have a: "live h i" using c by (simp add: present_live)
  show ?thesis using CStr a call_need [where f = "sbuf_c_str i", OF c_str_ok(1) [OF ok a] a] ok by (simp add: val_strings content_length)
next
  case (ReserveCapacity i n)
  then have a: "live h i" using c by (simp add: present_live)
  show ?thesis using ReserveCapacity call_need [where f = "sbuf_reserveCapacity i n", OF reserveCapacity_ok(1) [OF ok a] a] by simp
next
  case (ReserveSpace i n)
  then have a: "live h i" using c by (simp add: present_live)
  show ?thesis using ReserveSpace a call_need [where f = "sbuf_reserveSpace i n", OF reserveSpace_ok(1) [OF ok a] a] ok by (simp add: val_strings content_length)
next
  case (Reserve i req)
  then have a: "live h i" using c by (simp add: present_live)
  from reserve_ok [OF ok a, of req] show ?thesis using Reserve
    by (auto simp: implements_def answer_def same_values_def)
qed

section \<open>Sequences of calls\<close>

interpretation sbufs: implementation heap_ok strings allowed exec spec
  using exec_implements by unfold_locales (auto simp: implements_def)

lemma heap_new_ok: "heap_ok heap_new" "strings heap_new = []"
  by (simp_all add: heap_ok_def heap_new_def live_def blob_ok_def blob_new_def memAllocBuf_small strings_def)

text \<open>C5. Copy-on-write isolation: starting with no buffers, every sequence of allowed \<^verbatim>\<open>SBuf\<close> calls on buffers that
  share memory gives the replies, exceptions included, and leaves the values that the same calls give on
  independent strings; no assertion fails.\<close>

theorem sbuf_isolation:
  assumes "all_allowed allowed spec cs []"
  shows "fst (run_calls exec cs heap_new) = fst (run_calls spec cs []) \<and>
    strings (snd (run_calls exec cs heap_new)) = snd (run_calls spec cs [])"
  using sbufs.run_refines [OF heap_new_ok(1), of cs] assms heap_new_ok(2) by simp

definition sample_calls :: "command list" where
  "sample_calls =
     [Make, AppendBytes 0 ''abc'', Copy 0, AppendBytes 0 ''de'', AppendBytes 1 ''XY'', AppendPart 1 1 1 3,
      Consume 0 2, SetAt 2 0 (CHR ''Q''), Append 0 0, Clear 1, SetAt 1 0 (CHR ''z'')]"

theorem sbuf_isolation_witness:
  "strings (snd (run_calls exec sample_calls heap_new)) = [Some ''cdecde'', Some [], Some ''Qb''] \<and>
   fst (run_calls exec sample_calls heap_new) = [Made 0, Done, Made 1, Done, Done, Done, Made 2, Done, Done, Done, Threw]"
  using sbuf_isolation [of sample_calls]
  by (simp add: sample_calls_def put_def present_def size_arg_def npos_def maxSize_def)

text \<open>Equality of buffers is equality of their values, also for the shortcut on shared memory.\<close>

lemma sbuf_eq_values:
  assumes "heap_ok h" "live h i" "live h S"
  shows "sbuf_eq h i S \<longleftrightarrow> content h i = content h S"
proof -
  have "length (content h i) = sb_len (buf h i)" "length (content h S) = sb_len (buf h S)" using assms by (simp_all add: content_length)
  moreover have "sb_store (buf h i) = sb_store (buf h S) \<Longrightarrow> sb_off (buf h i) = sb_off (buf h S) \<Longrightarrow>
      sb_len (buf h i) = sb_len (buf h S) \<Longrightarrow> content h i = content h S" by (simp add: content_def slice_def)
  ultimately show ?thesis by (auto simp: sbuf_eq_def fetch_area_of memcmp_eq_0)
qed

text \<open>Evaluating calls.\<close>

lemmas heap_eval = answer_def call_def heap_new_def blob_new_def memAllocBuf_def memFindBufSizeType_def
  sbuf_new_def sbuf_copy_def sbuf_append_area_def locked_def sbuf_lowAppend_def then_do_def must_do_def must_def
  sbuf_rawSpace_def sbuf_rawAppend_def sbuf_rawAppendFinish_def write_mem_def sbuf_chop_def chop_pos_def chop_len_def
  set_buf_def set_blob_def update_blob_def blob_append_def blob_canAppend_def blob_isAppendOffset_def blob_willFit_def
  blob_spaceSize_def StorePrototype_def blob_of_def buf_def live_def uadd32_def usub32_def npos_def maxSize_def

definition two_buffers :: sheap where
  "two_buffers = snd (run_calls exec [Make, AppendBytes 0 ''ab'', Copy 0, Chop 1 0 1] heap_new)"

lemma two_buffers_state:
  "two_buffers = \<lparr>hs_blobs = [\<lparr>bl_mem = ''ab'', bl_capacity = 32, bl_size = 2\<rparr>],
     hs_bufs = [Some \<lparr>sb_store = 0, sb_off = 0, sb_len = 2\<rparr>, Some \<lparr>sb_store = 0, sb_off = 0, sb_len = 1\<rparr>], hs_keepers = []\<rparr>"
  by (simp add: two_buffers_def heap_eval Let_def)

lemma two_buffers_ok: "heap_ok two_buffers" "live two_buffers 0" "live two_buffers 1"
    "content two_buffers 0 = ''ab''" "content two_buffers 1 = ''a''" "sb_len (buf two_buffers 1) = 1"
  by (auto simp: two_buffers_state heap_ok_def blob_ok_def sbuf_ok_def live_def buf_def maxSize_def content_def slice_def nth_Cons
      split: nat.splits)

text \<open>\<^verbatim>\<open>c_str()\<close> gives the content followed by a null character, for every string below the size limit,
  and no value changes.\<close>

lemma c_str_terminated:
  assumes "heap_ok h" "live h i" "sb_len (buf h i) < maxSize"
  shows "\<exists>h'. sbuf_c_str i h = (Inr (), h') \<and> strings h' = strings h \<and>
    take (Suc (sb_len (buf h i))) (drop (sb_off (buf h' i)) (bl_mem (blob_of h' i))) = content h i @ [CHR 0x00]"
  using c_str_ok [OF assms(1,2)] assms strings_same [OF assms(2)]
  by (cases "sbuf_c_str i h") (auto simp: outcome_def wrote_def Let_def)


end
