(* ===== verification/Read_Write_Lock.thy ===== *)
theory Read_Write_Lock
  imports Squid_Prelude
begin

text \<open>
  \<^verbatim>\<open>src/ipc/ReadWriteLock\<close>: the shared-memory lock of the Store map entries. Any number of
  processes call its operations at the same time; each operation is a sequence of
  accesses to atomic variables, and between two accesses of one process the others
  may make any number of theirs. An operation is modelled as a function of the program
  point (the access it makes next) and the lock, which returns the next point or the
  result of the call; processes take turns in any order. The counters are 32-bit.
  The accesses are sequentially consistent, the default of \<^verbatim>\<open>std::atomic\<close>.
\<close>

section \<open>The lock\<close>

record rwlock =
  rw_readers :: nat
  rw_writing :: bool
  rw_appending :: bool
  rw_updating :: bool
  rw_readLevel :: nat
  rw_writeLevel :: nat

definition rwlock_new :: rwlock where
  "rwlock_new = \<lparr>rw_readers = 0, rw_writing = False, rw_appending = False, rw_updating = False,
     rw_readLevel = 0, rw_writeLevel = 0\<rparr>"

text \<open>
  One access of an operation: an assertion fails, or the lock changes and the operation
  goes on to its next point (\<open>Inl\<close>) or returns (\<open>Inr\<close>; a void operation returns true).
\<close>

type_synonym 'p access = "exn + ('p + bool) \<times> rwlock"

definition goto :: "'p \<Rightarrow> rwlock \<Rightarrow> 'p access" where
  "goto p l = Inr (Inl p, l)"

definition return :: "bool \<Rightarrow> rwlock \<Rightarrow> 'p access" where
  "return b l = Inr (Inr b, l)"

definition check :: "bool \<Rightarrow> string \<Rightarrow> 'p \<Rightarrow> rwlock \<Rightarrow> 'p access" where
  "check b s p l = (if b then Inr (Inl p, l) else Inl (AssertFailure s))"

text \<open>An access made inside a called operation, and what the caller does with its result.\<close>

definition inside :: "('p \<Rightarrow> 'q) \<Rightarrow> (bool \<Rightarrow> 'q + bool) \<Rightarrow> 'p access \<Rightarrow> 'q access" where
  "inside wrap after r =
     (case r of
        Inl e \<Rightarrow> Inl e
      | Inr (Inl p, l) \<Rightarrow> Inr (Inl (wrap p), l)
      | Inr (Inr b, l) \<Rightarrow> Inr (after b, l))"

lemmas access_defs = goto_def return_def check_def inside_def

section \<open>The operations\<close>

datatype finalize_pt = FX_assertWriteLevel | FX_assertNotAppending | FX_loadReadLevel | FX_setWriting | FX_decWriteLevel

fun finalizeExclusive :: "finalize_pt \<Rightarrow> rwlock \<Rightarrow> finalize_pt access" where
  "finalizeExclusive FX_assertWriteLevel l = check (rw_writeLevel l \<noteq> 0) ''writeLevel'' FX_assertNotAppending l"
| "finalizeExclusive FX_assertNotAppending l = check (\<not> rw_appending l) ''!appending'' FX_loadReadLevel l"
| "finalizeExclusive FX_loadReadLevel l =
     (if rw_readLevel l = 0 then goto FX_setWriting l else goto FX_decWriteLevel l)"
| "finalizeExclusive FX_setWriting l = return True (l\<lparr>rw_writing := True\<rparr>)"
| "finalizeExclusive FX_decWriteLevel l = return False (l\<lparr>rw_writeLevel := usub32 (rw_writeLevel l) 1\<rparr>)"

datatype shared_pt = LS_incReadLevel | LS_loadWriteLevel | LS_loadAppending | LS_incReaders | LS_decReadLevel

fun lockShared :: "shared_pt \<Rightarrow> rwlock \<Rightarrow> shared_pt access" where
  "lockShared LS_incReadLevel l = goto LS_loadWriteLevel (l\<lparr>rw_readLevel := uadd32 (rw_readLevel l) 1\<rparr>)"
| "lockShared LS_loadWriteLevel l =
     (if rw_writeLevel l = 0 then goto LS_incReaders l else goto LS_loadAppending l)"
| "lockShared LS_loadAppending l =
     (if rw_appending l then goto LS_incReaders l else goto LS_decReadLevel l)"
| "lockShared LS_incReaders l = return True (l\<lparr>rw_readers := uadd32 (rw_readers l) 1\<rparr>)"
| "lockShared LS_decReadLevel l = return False (l\<lparr>rw_readLevel := usub32 (rw_readLevel l) 1\<rparr>)"

datatype exclusive_pt = LX_incWriteLevel | LX_finalize finalize_pt | LX_decWriteLevel

fun lockExclusive :: "exclusive_pt \<Rightarrow> rwlock \<Rightarrow> exclusive_pt access" where
  "lockExclusive LX_incWriteLevel l =
     goto (if rw_writeLevel l = 0 then LX_finalize FX_assertWriteLevel else LX_decWriteLevel)
       (l\<lparr>rw_writeLevel := uadd32 (rw_writeLevel l) 1\<rparr>)"
| "lockExclusive (LX_finalize p) l = inside LX_finalize Inr (finalizeExclusive p l)"
| "lockExclusive LX_decWriteLevel l = return False (l\<lparr>rw_writeLevel := usub32 (rw_writeLevel l) 1\<rparr>)"

datatype unlock_pt = US_assertReaders | US_decReaders | US_decReadLevel

fun unlockShared :: "unlock_pt \<Rightarrow> rwlock \<Rightarrow> unlock_pt access" where
  "unlockShared US_assertReaders l = check (rw_readers l > 0) ''readers > 0'' US_decReaders l"
| "unlockShared US_decReaders l = goto US_decReadLevel (l\<lparr>rw_readers := usub32 (rw_readers l) 1\<rparr>)"
| "unlockShared US_decReadLevel l = return True (l\<lparr>rw_readLevel := usub32 (rw_readLevel l) 1\<rparr>)"

datatype headers_pt = LH_lockShared shared_pt | LH_testAndSet | LH_unlockShared unlock_pt

fun lockHeaders :: "headers_pt \<Rightarrow> rwlock \<Rightarrow> headers_pt access" where
  "lockHeaders (LH_lockShared p) l =
     inside LH_lockShared (\<lambda>ok. if ok then Inl LH_testAndSet else Inr False) (lockShared p l)"
| "lockHeaders LH_testAndSet l =
     (if rw_updating l then goto (LH_unlockShared US_assertReaders) l
      else return True (l\<lparr>rw_updating := True\<rparr>))"
| "lockHeaders (LH_unlockShared p) l = inside LH_unlockShared (\<lambda>_. Inr False) (unlockShared p l)"

datatype release_pt = UX_assertWriting | UX_clearAppending | UX_clearWriting | UX_decWriteLevel

fun unlockExclusive :: "release_pt \<Rightarrow> rwlock \<Rightarrow> release_pt access" where
  "unlockExclusive UX_assertWriting l = check (rw_writing l) ''writing'' UX_clearAppending l"
| "unlockExclusive UX_clearAppending l = goto UX_clearWriting (l\<lparr>rw_appending := False\<rparr>)"
| "unlockExclusive UX_clearWriting l = goto UX_decWriteLevel (l\<lparr>rw_writing := False\<rparr>)"
| "unlockExclusive UX_decWriteLevel l = return True (l\<lparr>rw_writeLevel := usub32 (rw_writeLevel l) 1\<rparr>)"

datatype unlockHeaders_pt = UH_assertFlagIsSet | UH_clearFlag | UH_unlockShared unlock_pt

fun unlockHeaders :: "unlockHeaders_pt \<Rightarrow> rwlock \<Rightarrow> unlockHeaders_pt access" where
  "unlockHeaders UH_assertFlagIsSet l =
     check (rw_updating l) ''flag.test_and_set'' UH_clearFlag (l\<lparr>rw_updating := True\<rparr>)"
| "unlockHeaders UH_clearFlag l = goto (UH_unlockShared US_assertReaders) (l\<lparr>rw_updating := False\<rparr>)"
| "unlockHeaders (UH_unlockShared p) l = inside UH_unlockShared Inr (unlockShared p l)"

datatype toShared_pt = SS_assertWriting | SS_incReadLevel | SS_incReaders | SS_unlockExclusive release_pt

fun switchExclusiveToShared :: "toShared_pt \<Rightarrow> rwlock \<Rightarrow> toShared_pt access" where
  "switchExclusiveToShared SS_assertWriting l = check (rw_writing l) ''writing'' SS_incReadLevel l"
| "switchExclusiveToShared SS_incReadLevel l =
     goto SS_incReaders (l\<lparr>rw_readLevel := uadd32 (rw_readLevel l) 1\<rparr>)"
| "switchExclusiveToShared SS_incReaders l =
     goto (SS_unlockExclusive UX_assertWriting) (l\<lparr>rw_readers := uadd32 (rw_readers l) 1\<rparr>)"
| "switchExclusiveToShared (SS_unlockExclusive p) l = inside SS_unlockExclusive Inr (unlockExclusive p l)"

datatype toExclusive_pt =
    SE_assertReaders | SE_incWriteLevel | SE_unlockFirst unlock_pt | SE_finalize finalize_pt
  | SE_unlockOther unlock_pt | SE_decWriteLevel

fun unlockSharedAndSwitchToExclusive :: "toExclusive_pt \<Rightarrow> rwlock \<Rightarrow> toExclusive_pt access" where
  "unlockSharedAndSwitchToExclusive SE_assertReaders l = check (rw_readers l > 0) ''readers > 0'' SE_incWriteLevel l"
| "unlockSharedAndSwitchToExclusive SE_incWriteLevel l =
     goto (if rw_writeLevel l = 0 then SE_unlockFirst US_assertReaders else SE_unlockOther US_assertReaders)
       (l\<lparr>rw_writeLevel := uadd32 (rw_writeLevel l) 1\<rparr>)"
| "unlockSharedAndSwitchToExclusive (SE_unlockFirst p) l =
     inside SE_unlockFirst (\<lambda>_. Inl (SE_finalize FX_assertWriteLevel)) (unlockShared p l)"
| "unlockSharedAndSwitchToExclusive (SE_finalize p) l = inside SE_finalize Inr (finalizeExclusive p l)"
| "unlockSharedAndSwitchToExclusive (SE_unlockOther p) l =
     inside SE_unlockOther (\<lambda>_. Inl SE_decWriteLevel) (unlockShared p l)"
| "unlockSharedAndSwitchToExclusive SE_decWriteLevel l =
     return False (l\<lparr>rw_writeLevel := usub32 (rw_writeLevel l) 1\<rparr>)"

datatype start_pt = SA_assertWriting | SA_setAppending

fun startAppending :: "start_pt \<Rightarrow> rwlock \<Rightarrow> start_pt access" where
  "startAppending SA_assertWriting l = check (rw_writing l) ''writing'' SA_setAppending l"
| "startAppending SA_setAppending l = return True (l\<lparr>rw_appending := True\<rparr>)"

datatype stop_pt = SX_assertWriting | SX_assertAppending | SX_clearAppending | SX_loadReadLevel

fun stopAppendingAndRestoreExclusive :: "stop_pt \<Rightarrow> rwlock \<Rightarrow> stop_pt access" where
  "stopAppendingAndRestoreExclusive SX_assertWriting l = check (rw_writing l) ''writing'' SX_assertAppending l"
| "stopAppendingAndRestoreExclusive SX_assertAppending l = check (rw_appending l) ''appending'' SX_clearAppending l"
| "stopAppendingAndRestoreExclusive SX_clearAppending l = goto SX_loadReadLevel (l\<lparr>rw_appending := False\<rparr>)"
| "stopAppendingAndRestoreExclusive SX_loadReadLevel l = return (rw_readLevel l = 0) l"

record lock_stats =
  ls_count :: int
  ls_readable :: int
  ls_writeable :: int
  ls_idle :: int
  ls_readers :: int
  ls_writers :: int
  ls_appenders :: int

definition updateStats :: "rwlock \<Rightarrow> lock_stats \<Rightarrow> lock_stats" where
  "updateStats l st =
     (let st1 = (if rw_readers l \<noteq> 0
                 then st\<lparr>ls_readable := ls_readable st + 1, ls_readers := ls_readers st + int (rw_readers l)\<rparr>
                 else if rw_writing l
                 then st\<lparr>ls_writeable := ls_writeable st + 1, ls_writers := ls_writers st + 1,
                         ls_appenders := ls_appenders st + (if rw_appending l then 1 else 0)\<rparr>
                 else st\<lparr>ls_idle := ls_idle st + 1\<rparr>)
      in st1\<lparr>ls_count := ls_count st1 + 1\<rparr>)"

section \<open>Processes\<close>

text \<open>
  What a process holds between calls, and the operation it is in. \<open>Contended\<close> is a writer
  whose \<^verbatim>\<open>stopAppendingAndRestoreExclusive()\<close> returned false: it still has the
  write lock, but there may be readers.
\<close>

datatype process =
    Unlocked | Shared | Headers | Exclusive | Appending | Contended
  | LockShared shared_pt | LockExclusive exclusive_pt | LockHeaders headers_pt
  | UnlockShared unlock_pt | UnlockExclusive release_pt | UnlockHeaders unlockHeaders_pt
  | ToShared toShared_pt | ToExclusive toExclusive_pt | StartAppending start_pt | StopAppending stop_pt

text \<open>The operations a caller may start with what it holds.\<close>

fun calls :: "process \<Rightarrow> process list" where
  "calls Unlocked = [LockShared LS_incReadLevel, LockExclusive LX_incWriteLevel, LockHeaders (LH_lockShared LS_incReadLevel)]"
| "calls Shared = [UnlockShared US_assertReaders, ToExclusive SE_assertReaders]"
| "calls Headers = [UnlockHeaders UH_assertFlagIsSet]"
| "calls Exclusive = [UnlockExclusive UX_assertWriting, ToShared SS_assertWriting, StartAppending SA_assertWriting]"
| "calls Appending = [UnlockExclusive UX_assertWriting, ToShared SS_assertWriting, StopAppending SX_assertWriting]"
| "calls Contended = [UnlockExclusive UX_assertWriting, ToShared SS_assertWriting, StartAppending SA_assertWriting]"
| "calls _ = []"

definition proceed :: "('p \<Rightarrow> process) \<Rightarrow> process \<Rightarrow> process \<Rightarrow> 'p access \<Rightarrow> exn + process \<times> rwlock" where
  "proceed wrap yes no r =
     (case r of
        Inl e \<Rightarrow> Inl e
      | Inr (Inl p, l) \<Rightarrow> Inr (wrap p, l)
      | Inr (Inr b, l) \<Rightarrow> Inr (if b then yes else no, l))"

fun run :: "process \<Rightarrow> rwlock \<Rightarrow> exn + process \<times> rwlock" where
  "run (LockShared p) l = proceed LockShared Shared Unlocked (lockShared p l)"
| "run (LockExclusive p) l = proceed LockExclusive Exclusive Unlocked (lockExclusive p l)"
| "run (LockHeaders p) l = proceed LockHeaders Headers Unlocked (lockHeaders p l)"
| "run (UnlockShared p) l = proceed UnlockShared Unlocked Unlocked (unlockShared p l)"
| "run (UnlockExclusive p) l = proceed UnlockExclusive Unlocked Unlocked (unlockExclusive p l)"
| "run (UnlockHeaders p) l = proceed UnlockHeaders Unlocked Unlocked (unlockHeaders p l)"
| "run (ToShared p) l = proceed ToShared Shared Shared (switchExclusiveToShared p l)"
| "run (ToExclusive p) l = proceed ToExclusive Exclusive Unlocked (unlockSharedAndSwitchToExclusive p l)"
| "run (StartAppending p) l = proceed StartAppending Appending Appending (startAppending p l)"
| "run (StopAppending p) l = proceed StopAppending Exclusive Contended (stopAppendingAndRestoreExclusive p l)"
| "run p l = Inr (p, l)"

inductive rw_step :: "rwlock \<times> process list \<Rightarrow> rwlock \<times> process list \<Rightarrow> bool" where
  rw_call: "i < length ps \<Longrightarrow> c \<in> set (calls (ps ! i)) \<Longrightarrow> rw_step (l, ps) (l, ps[i := c])"
| rw_run: "i < length ps \<Longrightarrow> run (ps ! i) l = Inr (p, l') \<Longrightarrow> rw_step (l, ps) (l', ps[i := p])"

inductive rw_reachable :: "nat \<Rightarrow> rwlock \<times> process list \<Rightarrow> bool" for n where
  rw_start: "rw_reachable n (rwlock_new, replicate n Unlocked)"
| rw_next: "rw_reachable n s \<Longrightarrow> rw_step s s' \<Longrightarrow> rw_reachable n s'"

inductive_cases rw_stepE: "rw_step (l, ps) s'"

end
