(* ===== verification/Lock_Exclusion.thy ===== *)
theory Lock_Exclusion
  imports Read_Write_Lock
begin

text \<open>
  What the lock of theory \<open>Read_Write_Lock\<close> guarantees to any number of processes, in every
  interleaving of their accesses: exclusion, no failing assertion, completion of every
  call in a bounded number of its own accesses, and nothing left behind. The counters and flags of
  the lock are the sums of what the processes contribute to them; the bounds between these
  contributions carry the proofs.
\<close>

section \<open>What a process contributes to the lock\<close>

text \<open>How much of each counter, and of the two flags with one owner, is due to a process.\<close>

fun us_rl :: "unlock_pt \<Rightarrow> nat" where "us_rl _ = 1"
fun us_rd :: "unlock_pt \<Rightarrow> nat" where
  "us_rd US_decReadLevel = 0" | "us_rd _ = 1"
fun ls_rl :: "shared_pt \<Rightarrow> nat" where
  "ls_rl LS_incReadLevel = 0" | "ls_rl _ = 1"
fun ux_wr :: "release_pt \<Rightarrow> nat" where
  "ux_wr UX_decWriteLevel = 0" | "ux_wr _ = 1"

fun c_readLevel :: "process \<Rightarrow> nat" where
  "c_readLevel Shared = 1"
| "c_readLevel Headers = 1"
| "c_readLevel (LockShared p) = ls_rl p"
| "c_readLevel (LockHeaders (LH_lockShared p)) = ls_rl p"
| "c_readLevel (LockHeaders _) = 1"
| "c_readLevel (UnlockShared p) = 1"
| "c_readLevel (UnlockHeaders p) = 1"
| "c_readLevel (ToShared SS_assertWriting) = 0"
| "c_readLevel (ToShared SS_incReadLevel) = 0"
| "c_readLevel (ToShared _) = 1"
| "c_readLevel (ToExclusive (SE_finalize _)) = 0"
| "c_readLevel (ToExclusive SE_decWriteLevel) = 0"
| "c_readLevel (ToExclusive _) = 1"
| "c_readLevel _ = 0"

fun c_readers :: "process \<Rightarrow> nat" where
  "c_readers Shared = 1"
| "c_readers Headers = 1"
| "c_readers (LockHeaders LH_testAndSet) = 1"
| "c_readers (LockHeaders (LH_unlockShared p)) = us_rd p"
| "c_readers (UnlockShared p) = us_rd p"
| "c_readers (UnlockHeaders (UH_unlockShared p)) = us_rd p"
| "c_readers (UnlockHeaders _) = 1"
| "c_readers (ToShared (SS_unlockExclusive _)) = 1"
| "c_readers (ToExclusive SE_assertReaders) = 1"
| "c_readers (ToExclusive SE_incWriteLevel) = 1"
| "c_readers (ToExclusive (SE_unlockFirst p)) = us_rd p"
| "c_readers (ToExclusive (SE_unlockOther p)) = us_rd p"
| "c_readers _ = 0"

text \<open>\<open>c_first\<close>: the process that found the write level at zero and has not given up.\<close>

fun c_first :: "process \<Rightarrow> nat" where
  "c_first Exclusive = 1"
| "c_first Appending = 1"
| "c_first Contended = 1"
| "c_first (LockExclusive (LX_finalize _)) = 1"
| "c_first (UnlockExclusive _) = 1"
| "c_first (ToShared _) = 1"
| "c_first (ToExclusive (SE_unlockFirst _)) = 1"
| "c_first (ToExclusive (SE_finalize _)) = 1"
| "c_first (StartAppending _) = 1"
| "c_first (StopAppending _) = 1"
| "c_first _ = 0"

fun c_writeLevel :: "process \<Rightarrow> nat" where
  "c_writeLevel (LockExclusive LX_decWriteLevel) = 1"
| "c_writeLevel (ToExclusive (SE_unlockOther _)) = 1"
| "c_writeLevel (ToExclusive SE_decWriteLevel) = 1"
| "c_writeLevel p = c_first p"

fun c_writing :: "process \<Rightarrow> nat" where
  "c_writing Exclusive = 1"
| "c_writing Appending = 1"
| "c_writing Contended = 1"
| "c_writing (UnlockExclusive p) = ux_wr p"
| "c_writing (ToShared (SS_unlockExclusive p)) = ux_wr p"
| "c_writing (ToShared _) = 1"
| "c_writing (StartAppending _) = 1"
| "c_writing (StopAppending _) = 1"
| "c_writing _ = 0"

fun c_updating :: "process \<Rightarrow> nat" where
  "c_updating Headers = 1"
| "c_updating (UnlockHeaders UH_assertFlagIsSet) = 1"
| "c_updating (UnlockHeaders UH_clearFlag) = 1"
| "c_updating _ = 0"

text \<open>
  Further weights: a process that is sure the lock is marked as appending, one that may have
  left that mark, one that has the object for itself, and one that may read it.
\<close>

fun c_sure :: "process \<Rightarrow> nat" where
  "c_sure Appending = 1"
| "c_sure (StopAppending SX_loadReadLevel) = 0"
| "c_sure (StopAppending _) = 1"
| "c_sure _ = 0"

fun c_append :: "process \<Rightarrow> nat" where
  "c_append (UnlockExclusive UX_assertWriting) = 1"
| "c_append (UnlockExclusive UX_clearAppending) = 1"
| "c_append (ToShared (SS_unlockExclusive UX_clearWriting)) = 0"
| "c_append (ToShared (SS_unlockExclusive UX_decWriteLevel)) = 0"
| "c_append (ToShared _) = 1"
| "c_append p = c_sure p"

fun c_alone :: "process \<Rightarrow> nat" where
  "c_alone Exclusive = 1"
| "c_alone (LockExclusive (LX_finalize FX_setWriting)) = 1"
| "c_alone (ToExclusive (SE_finalize FX_setWriting)) = 1"
| "c_alone _ = 0"

fun c_reading :: "process \<Rightarrow> nat" where
  "c_reading (LockShared LS_incReaders) = 1"
| "c_reading (LockHeaders (LH_lockShared LS_incReaders)) = 1"
| "c_reading p = c_readers p"

definition tally :: "(process \<Rightarrow> nat) \<Rightarrow> process list \<Rightarrow> nat" where
  "tally w ps = sum_list (map w ps)"

lemma tally_Cons [simp]: "tally w (p # ps) = w p + tally w ps"
  by (simp add: tally_def)

lemma tally_mono: "(\<And>p. w p \<le> v p) \<Longrightarrow> tally w ps \<le> tally v ps"
  by (induction ps) (auto simp: tally_def add_mono)

lemma tally_add: "tally w ps + tally v ps = tally (\<lambda>p. w p + v p) ps"
  by (induction ps) (auto simp: tally_def)

definition others :: "nat \<Rightarrow> process list \<Rightarrow> process list" where
  "others i ps = take i ps @ drop (Suc i) ps"

lemma tally_others:
  assumes "i < length ps"
  shows "tally w ps = w (ps ! i) + tally w (others i ps)"
    and "tally w (ps[i := p]) = w p + tally w (others i ps)"
proof -
  have "ps = take i ps @ ps ! i # drop (Suc i) ps" using assms by (rule id_take_nth_drop)
  then have "tally w ps = tally w (take i ps @ ps ! i # drop (Suc i) ps)" by simp
  then show "tally w ps = w (ps ! i) + tally w (others i ps)" by (simp add: tally_def others_def)
  show "tally w (ps[i := p]) = w p + tally w (others i ps)"
    using assms by (simp add: upd_conv_take_nth_drop tally_def others_def)
qed

text \<open>All program points, for case analyses.\<close>

definition all_finalize :: "finalize_pt list" where
  "all_finalize = [FX_assertWriteLevel, FX_assertNotAppending, FX_loadReadLevel, FX_setWriting, FX_decWriteLevel]"

definition all_shared :: "shared_pt list" where
  "all_shared = [LS_incReadLevel, LS_loadWriteLevel, LS_loadAppending, LS_incReaders, LS_decReadLevel]"

definition all_unlock :: "unlock_pt list" where
  "all_unlock = [US_assertReaders, US_decReaders, US_decReadLevel]"

definition all_release :: "release_pt list" where
  "all_release = [UX_assertWriting, UX_clearAppending, UX_clearWriting, UX_decWriteLevel]"

definition all_processes :: "process list" where
  "all_processes =
     [Unlocked, Shared, Headers, Exclusive, Appending, Contended] @ map LockShared all_shared @
     map LockExclusive (LX_incWriteLevel # LX_decWriteLevel # map LX_finalize all_finalize) @
     map LockHeaders (LH_testAndSet # map LH_lockShared all_shared @ map LH_unlockShared all_unlock) @
     map UnlockShared all_unlock @ map UnlockExclusive all_release @
     map UnlockHeaders (UH_assertFlagIsSet # UH_clearFlag # map UH_unlockShared all_unlock) @
     map ToShared (SS_assertWriting # SS_incReadLevel # SS_incReaders # map SS_unlockExclusive all_release) @
     map ToExclusive (SE_assertReaders # SE_incWriteLevel # SE_decWriteLevel # map SE_unlockFirst all_unlock @
       map SE_unlockOther all_unlock @ map SE_finalize all_finalize) @
     map StartAppending [SA_assertWriting, SA_setAppending] @
     map StopAppending [SX_assertWriting, SX_assertAppending, SX_clearAppending, SX_loadReadLevel]"

lemma all_points:
  "f \<in> set all_finalize" "s \<in> set all_shared" "u \<in> set all_unlock" "r \<in> set all_release"
  by ((cases f; simp add: all_finalize_def), (cases s; simp add: all_shared_def),
    (cases u; simp add: all_unlock_def), (cases r; simp add: all_release_def))

lemma all_processes_complete: "p \<in> set all_processes"
proof (cases p)
  case (LockExclusive x) then show ?thesis by (cases x) (simp_all add: all_processes_def all_points)
next
  case (LockHeaders x) then show ?thesis by (cases x) (simp_all add: all_processes_def all_points)
next
  case (UnlockHeaders x) then show ?thesis by (cases x) (simp_all add: all_processes_def all_points)
next
  case (ToShared x) then show ?thesis by (cases x) (simp_all add: all_processes_def all_points)
next
  case (ToExclusive x) then show ?thesis by (cases x) (simp_all add: all_processes_def all_points)
next
  case (StartAppending x) then show ?thesis by (cases x) (simp_all add: all_processes_def)
next
  case (StopAppending x) then show ?thesis by (cases x) (simp_all add: all_processes_def)
qed (simp_all add: all_processes_def all_points)

lemma all_processes_iff: "(\<forall>p. P p) \<longleftrightarrow> list_all P all_processes"
  using all_processes_complete by (auto simp: list_all_iff)

text \<open>Each weight is bounded by another, process by process.\<close>

lemma weights_le:
  "c_readLevel p \<le> 1" "c_readers p \<le> c_readLevel p" "c_reading p \<le> c_readLevel p" "c_writeLevel p \<le> 1"
  "c_first p \<le> c_writeLevel p" "c_writing p \<le> c_first p" "c_sure p \<le> c_append p" "c_append p + c_alone p \<le> c_first p"
proof -
  have "\<forall>p. c_readLevel p \<le> 1 \<and> c_readers p \<le> c_readLevel p \<and> c_reading p \<le> c_readLevel p \<and> c_writeLevel p \<le> 1 \<and>
    c_first p \<le> c_writeLevel p \<and> c_writing p \<le> c_first p \<and> c_sure p \<le> c_append p \<and> c_append p + c_alone p \<le> c_first p"
    unfolding all_processes_iff by code_simp
  then show "c_readLevel p \<le> 1" "c_readers p \<le> c_readLevel p" "c_reading p \<le> c_readLevel p" "c_writeLevel p \<le> 1"
    "c_first p \<le> c_writeLevel p" "c_writing p \<le> c_first p" "c_sure p \<le> c_append p" "c_append p + c_alone p \<le> c_first p"
    by blast+
qed

lemma tallies_le:
  "tally c_readLevel ps \<le> length ps" "tally c_readers ps \<le> tally c_readLevel ps"
  "tally c_reading ps \<le> tally c_readLevel ps" "tally c_writeLevel ps \<le> length ps"
  "tally c_first ps \<le> tally c_writeLevel ps" "tally c_writing ps \<le> tally c_first ps"
  "tally c_sure ps \<le> tally c_append ps" "tally c_append ps + tally c_alone ps \<le> tally c_first ps"
proof -
  have "tally (\<lambda>_. 1) ps = length ps" by (induction ps) (simp_all add: tally_def)
  then show "tally c_readLevel ps \<le> length ps" "tally c_writeLevel ps \<le> length ps"
    using tally_mono [of c_readLevel "\<lambda>_. 1" ps] tally_mono [of c_writeLevel "\<lambda>_. 1" ps] weights_le by simp_all
qed (auto simp: tally_add intro!: tally_mono weights_le)

section \<open>The invariant\<close>

definition rw_inv :: "rwlock \<Rightarrow> process list \<Rightarrow> bool" where
  "rw_inv l ps \<longleftrightarrow>
     rw_readLevel l = tally c_readLevel ps \<and> rw_readers l = tally c_readers ps \<and>
     rw_writeLevel l = tally c_writeLevel ps \<and> tally c_first ps \<le> 1 \<and>
     (rw_writing l \<longleftrightarrow> 0 < tally c_writing ps) \<and>
     (rw_updating l \<longleftrightarrow> 0 < tally c_updating ps) \<and> tally c_updating ps \<le> 1 \<and>
     (rw_appending l \<longrightarrow> 0 < tally c_append ps) \<and> (0 < tally c_sure ps \<longrightarrow> rw_appending l) \<and>
     (tally c_alone ps = 0 \<or> tally c_reading ps = 0)"

text \<open>One access of one process, seen from the lock: no assertion fails, and the invariant is kept.\<close>

lemmas run_defs = access_defs proceed_def uadd32_exact usub32_exact rw_inv_def

lemma run_inv_lockExclusive:
  assumes inv: "rw_inv l (p # ps)" and len: "length ps < 4294967295" and p: "p = LockExclusive x"
  shows "\<exists>p' l'. run p l = Inr (p', l') \<and> rw_inv l' (p' # ps)"
proof -
  note le = tallies_le [of ps]
  have b: "tally c_readLevel ps < 4294967295" "tally c_readers ps < 4294967295" "tally c_writeLevel ps < 4294967295"
    using le len by linarith+
  show ?thesis
  proof (cases x)
    case LX_incWriteLevel
    with p inv b le show ?thesis by (auto simp: run_defs)
  next
    case LX_decWriteLevel
    with p inv b le show ?thesis by (auto simp: run_defs)
  next
    case (LX_finalize y)
    with p inv b le show ?thesis by (cases y; auto simp: run_defs)
  qed
qed

lemma run_inv_lockHeaders:
  assumes inv: "rw_inv l (p # ps)" and len: "length ps < 4294967295" and p: "p = LockHeaders x"
  shows "\<exists>p' l'. run p l = Inr (p', l') \<and> rw_inv l' (p' # ps)"
proof -
  note le = tallies_le [of ps]
  have b: "tally c_readLevel ps < 4294967295" "tally c_readers ps < 4294967295" "tally c_writeLevel ps < 4294967295"
    using le len by linarith+
  show ?thesis
  proof (cases x)
    case LH_testAndSet
    with p inv b le show ?thesis by (auto simp: run_defs)
  next
    case (LH_lockShared y)
    with p inv b le show ?thesis by (cases y; auto simp: run_defs)
  next
    case (LH_unlockShared y)
    with p inv b le show ?thesis by (cases y; auto simp: run_defs)
  qed
qed

lemma run_inv_unlockHeaders:
  assumes inv: "rw_inv l (p # ps)" and len: "length ps < 4294967295" and p: "p = UnlockHeaders x"
  shows "\<exists>p' l'. run p l = Inr (p', l') \<and> rw_inv l' (p' # ps)"
proof -
  note le = tallies_le [of ps]
  have b: "tally c_readLevel ps < 4294967295" "tally c_readers ps < 4294967295" "tally c_writeLevel ps < 4294967295"
    using le len by linarith+
  show ?thesis
  proof (cases x)
    case UH_assertFlagIsSet
    with p inv b le show ?thesis by (auto simp: run_defs)
  next
    case UH_clearFlag
    with p inv b le show ?thesis by (auto simp: run_defs)
  next
    case (UH_unlockShared y)
    with p inv b le show ?thesis by (cases y; auto simp: run_defs)
  qed
qed

lemma run_inv_toShared:
  assumes inv: "rw_inv l (p # ps)" and len: "length ps < 4294967295" and p: "p = ToShared x"
  shows "\<exists>p' l'. run p l = Inr (p', l') \<and> rw_inv l' (p' # ps)"
proof -
  note le = tallies_le [of ps]
  have b: "tally c_readLevel ps < 4294967295" "tally c_readers ps < 4294967295" "tally c_writeLevel ps < 4294967295"
    using le len by linarith+
  show ?thesis
  proof (cases x)
    case SS_assertWriting
    with p inv b le show ?thesis by (auto simp: run_defs)
  next
    case SS_incReadLevel
    with p inv b le show ?thesis by (auto simp: run_defs)
  next
    case SS_incReaders
    with p inv b le show ?thesis by (auto simp: run_defs)
  next
    case (SS_unlockExclusive y)
    with p inv b le show ?thesis by (cases y; auto simp: run_defs)
  qed
qed

lemma run_inv_toExclusive:
  assumes inv: "rw_inv l (p # ps)" and len: "length ps < 4294967295" and p: "p = ToExclusive x"
  shows "\<exists>p' l'. run p l = Inr (p', l') \<and> rw_inv l' (p' # ps)"
proof -
  note le = tallies_le [of ps]
  have b: "tally c_readLevel ps < 4294967295" "tally c_readers ps < 4294967295" "tally c_writeLevel ps < 4294967295"
    using le len by linarith+
  show ?thesis
  proof (cases x)
    case SE_assertReaders
    with p inv b le show ?thesis by (auto simp: run_defs)
  next
    case SE_incWriteLevel
    with p inv b le show ?thesis by (auto simp: run_defs)
  next
    case SE_decWriteLevel
    with p inv b le show ?thesis by (auto simp: run_defs)
  next
    case (SE_unlockFirst y)
    with p inv b le show ?thesis by (cases y; auto simp: run_defs)
  next
    case (SE_finalize y)
    with p inv b le show ?thesis by (cases y; auto simp: run_defs)
  next
    case (SE_unlockOther y)
    with p inv b le show ?thesis by (cases y; auto simp: run_defs)
  qed
qed

lemma run_inv:
  assumes inv: "rw_inv l (p # ps)" and len: "length ps < 4294967295"
  shows "\<exists>p' l'. run p l = Inr (p', l') \<and> rw_inv l' (p' # ps)"
proof -
  note le = tallies_le [of ps]
  have b: "tally c_readLevel ps < 4294967295" "tally c_readers ps < 4294967295" "tally c_writeLevel ps < 4294967295"
    using le len by linarith+
  show ?thesis
  proof (cases p)
    case (LockShared x)
    with inv b le show ?thesis by (cases x; auto simp: run_defs)
  next
    case (UnlockShared x)
    with inv b le show ?thesis by (cases x; auto simp: run_defs)
  next
    case (UnlockExclusive x)
    with inv b le show ?thesis by (cases x; auto simp: run_defs)
  next
    case (StartAppending x)
    with inv b le show ?thesis by (cases x; auto simp: run_defs)
  next
    case (StopAppending x)
    with inv b le show ?thesis by (cases x; auto simp: run_defs)
  next
    case (LockExclusive x)
    then show ?thesis by (rule run_inv_lockExclusive [OF inv len])
  next
    case (LockHeaders x)
    then show ?thesis by (rule run_inv_lockHeaders [OF inv len])
  next
    case (UnlockHeaders x)
    then show ?thesis by (rule run_inv_unlockHeaders [OF inv len])
  next
    case (ToShared x)
    then show ?thesis by (rule run_inv_toShared [OF inv len])
  next
    case (ToExclusive x)
    then show ?thesis by (rule run_inv_toExclusive [OF inv len])
  qed (use inv in simp_all)
qed

lemma calls_inv:
  assumes inv: "rw_inv l (p # ps)" and c: "c \<in> set (calls p)"
  shows "rw_inv l (c # ps)"
proof -
  have "p = Unlocked \<and> c \<in> set (calls Unlocked) \<or> p = Shared \<and> c \<in> set (calls Shared) \<or>
      p = Headers \<and> c \<in> set (calls Headers) \<or> p = Exclusive \<and> c \<in> set (calls Exclusive) \<or>
      p = Appending \<and> c \<in> set (calls Appending) \<or> p = Contended \<and> c \<in> set (calls Contended)"
    using c by (cases p; simp)
  then show ?thesis using inv tallies_le(7) [of ps]
    by (elim disjE conjE) (simp_all only: calls.simps list.set insert_iff empty_iff, elim disjE; simp add: rw_inv_def)+
qed

lemma rw_inv_others:
  assumes "i < length ps"
  shows "rw_inv l ps \<longleftrightarrow> rw_inv l (ps ! i # others i ps)"
    and "rw_inv l (ps[i := p]) \<longleftrightarrow> rw_inv l (p # others i ps)"
  by (simp_all add: rw_inv_def tally_others [OF assms])

lemma length_others: "i < length ps \<Longrightarrow> length (others i ps) = length ps - 1"
  by (simp add: others_def)

lemma rw_step_inv:
  assumes "rw_step (l, ps) (l', ps')" "rw_inv l ps" "length ps < 4294967296"
  shows "rw_inv l' ps' \<and> length ps' = length ps"
  using assms(1)
proof (cases rule: rw_step.cases)
  case (rw_call i c)
  then show ?thesis using assms(2) calls_inv rw_inv_others by auto
next
  case (rw_run i p)
  then have "length (others i ps) < 4294967295" using assms(3) by (simp add: length_others)
  with rw_run show ?thesis using assms(2) run_inv [of l "ps ! i" "others i ps"] rw_inv_others [OF rw_run(2)] by auto
qed

lemma rw_reachable_inv:
  assumes "rw_reachable n s" "n < 4294967296"
  shows "rw_inv (fst s) (snd s) \<and> length (snd s) = n"
  using assms
proof (induction rule: rw_reachable.induct)
  case rw_start
  have "tally w (replicate n Unlocked) = n * w Unlocked" for w by (simp add: tally_def sum_list_replicate)
  then show ?case by (simp add: rw_inv_def rwlock_new_def)
next
  case (rw_next s s')
  then show ?case using rw_step_inv [of "fst s" "snd s" "fst s'" "snd s'"] by simp
qed

section \<open>Bounded calls\<close>

definition resting :: "process \<Rightarrow> bool" where
  "resting p \<longleftrightarrow> p \<in> {Unlocked, Shared, Headers, Exclusive, Appending, Contended}"

text \<open>How many accesses a call still makes at most.\<close>

fun fx_left :: "finalize_pt \<Rightarrow> nat" where
  "fx_left FX_assertWriteLevel = 4" | "fx_left FX_assertNotAppending = 3" | "fx_left FX_loadReadLevel = 2" | "fx_left _ = 1"
fun ls_left :: "shared_pt \<Rightarrow> nat" where
  "ls_left LS_incReadLevel = 4" | "ls_left LS_loadWriteLevel = 3" | "ls_left LS_loadAppending = 2" | "ls_left _ = 1"
fun us_left :: "unlock_pt \<Rightarrow> nat" where
  "us_left US_assertReaders = 3" | "us_left US_decReaders = 2" | "us_left US_decReadLevel = 1"
fun ux_left :: "release_pt \<Rightarrow> nat" where
  "ux_left UX_assertWriting = 4" | "ux_left UX_clearAppending = 3" | "ux_left UX_clearWriting = 2" | "ux_left UX_decWriteLevel = 1"

fun left :: "process \<Rightarrow> nat" where
  "left (LockShared p) = ls_left p"
| "left (LockExclusive LX_incWriteLevel) = 5"
| "left (LockExclusive (LX_finalize p)) = fx_left p"
| "left (LockExclusive LX_decWriteLevel) = 1"
| "left (LockHeaders (LH_lockShared p)) = 4 + ls_left p"
| "left (LockHeaders LH_testAndSet) = 4"
| "left (LockHeaders (LH_unlockShared p)) = us_left p"
| "left (UnlockShared p) = us_left p"
| "left (UnlockExclusive p) = ux_left p"
| "left (UnlockHeaders UH_assertFlagIsSet) = 5"
| "left (UnlockHeaders UH_clearFlag) = 4"
| "left (UnlockHeaders (UH_unlockShared p)) = us_left p"
| "left (ToShared SS_assertWriting) = 7"
| "left (ToShared SS_incReadLevel) = 6"
| "left (ToShared SS_incReaders) = 5"
| "left (ToShared (SS_unlockExclusive p)) = ux_left p"
| "left (ToExclusive SE_assertReaders) = 9"
| "left (ToExclusive SE_incWriteLevel) = 8"
| "left (ToExclusive (SE_unlockFirst p)) = 4 + us_left p"
| "left (ToExclusive (SE_finalize p)) = fx_left p"
| "left (ToExclusive (SE_unlockOther p)) = 1 + us_left p"
| "left (ToExclusive SE_decWriteLevel) = 1"
| "left (StartAppending SA_assertWriting) = 2"
| "left (StartAppending SA_setAppending) = 1"
| "left (StopAppending SX_assertWriting) = 4"
| "left (StopAppending SX_assertAppending) = 3"
| "left (StopAppending SX_clearAppending) = 2"
| "left (StopAppending SX_loadReadLevel) = 1"
| "left _ = 0"

lemma resting_left: "resting p \<longleftrightarrow> left p = 0" "left p \<le> 9"
proof -
  have "\<forall>p. (resting p \<longleftrightarrow> left p = 0) \<and> left p \<le> 9"
    unfolding all_processes_iff by code_simp
  then show "resting p \<longleftrightarrow> left p = 0" "left p \<le> 9" by blast+
qed

lemma run_left:
  assumes "run p l = Inr (p', l')" "0 < left p"
  shows "left p' < left p"
proof -
  have "list_all (\<lambda>p. \<forall>l p' l'. run p l = Inr (p', l') \<longrightarrow> 0 < left p \<longrightarrow> left p' < left p) all_processes"
    by (simp add: all_processes_def all_finalize_def all_shared_def all_unlock_def all_release_def access_defs proceed_def)
  then show ?thesis using assms all_processes_complete [of p] by (auto simp: list_all_iff)
qed

section \<open>Schedules\<close>

text \<open>A schedule names the process that moves next, and the call it starts if it does not go on with one.\<close>

fun play :: "(nat \<times> process option) list \<Rightarrow> rwlock \<times> process list \<Rightarrow> (rwlock \<times> process list) option" where
  "play [] s = Some s"
| "play ((i, Some c) # xs) (l, ps) =
     (if i < length ps \<and> c \<in> set (calls (ps ! i)) then play xs (l, ps[i := c]) else None)"
| "play ((i, None) # xs) (l, ps) =
     (if i < length ps then
        (case run (ps ! i) l of Inl _ \<Rightarrow> None | Inr (p, l') \<Rightarrow> play xs (l', ps[i := p]))
      else None)"

lemma play_reachable: "play xs s = Some s' \<Longrightarrow> rw_reachable n s \<Longrightarrow> rw_reachable n s'"
proof (induction xs s rule: play.induct)
  case (2 i c xs l ps)
  then show ?case by (auto split: if_splits intro: rw_next rw_call)
next
  case (3 i xs l ps)
  then obtain p l' where r: "i < length ps" "run (ps ! i) l = Inr (p, l')" "play xs (l', ps[i := p]) = Some s'"
    by (auto split: if_splits sum.splits prod.splits)
  then have "rw_reachable n (l', ps[i := p])" using 3(3) by (blast intro: rw_next rw_run)
  with 3(1) r show ?case by blast
qed simp

lemma reachable_by_play:
  "play xs (rwlock_new, replicate n Unlocked) = Some s \<Longrightarrow> rw_reachable n s"
  by (rule play_reachable [OF _ rw_start])

lemma tally_two:
  assumes "i < length ps" "j < length ps" "i \<noteq> j"
  shows "w (ps ! i) + w (ps ! j) \<le> tally w ps"
proof -
  have "ps ! j \<in> set (others i ps)"
  proof (cases "j < i")
    case True
    then show ?thesis using assms by (auto simp: others_def in_set_conv_nth intro!: disjI1 exI [of _ j])
  next
    case False
    then have "ps ! j = drop (Suc i) ps ! (j - Suc i)" "j - Suc i < length (drop (Suc i) ps)" using assms by auto
    then show ?thesis unfolding others_def by (metis Un_iff nth_mem set_append)
  qed
  then have "w (ps ! j) \<le> tally w (others i ps)"
    by (auto simp: tally_def intro!: member_le_sum_list)
  then show ?thesis using tally_others(1) [OF assms(1), of w] by linarith
qed

fun follow :: "process \<Rightarrow> rwlock list \<Rightarrow> process option" where
  "follow p [] = Some p"
| "follow p (l # ls) = (case run p l of Inl _ \<Rightarrow> None | Inr (p', _) \<Rightarrow> follow p' ls)"

lemma follow_rests:
  assumes "follow p ls = Some q" "left p \<le> length ls" shows "resting q"
  using assms
proof (induction p ls rule: follow.induct)
  case (1 p)
  then show ?case by (simp add: resting_left)
next
  case (2 p l ls)
  then obtain p' l' where r: "run p l = Inr (p', l')" "follow p' ls = Some q"
    by (auto split: sum.splits prod.splits)
  show ?case
  proof (cases "left p = 0")
    case True
    then have "resting p" by (simp add: resting_left)
    then have "p' = p" using r(1) by (auto simp: resting_def)
    then show ?thesis using 2(1) [OF r(1) refl] r True by simp
  next
    case False
    then show ?thesis using 2 r run_left [OF r(1)] by simp
  qed
qed

fun solo :: "nat \<Rightarrow> process \<Rightarrow> rwlock \<Rightarrow> (process \<times> rwlock) option" where
  "solo 0 p l = Some (p, l)"
| "solo (Suc k) p l = (case run p l of Inl _ \<Rightarrow> None | Inr (p', l') \<Rightarrow> solo k p' l')"

lemma solo_numeral [simp]:
  "solo (numeral v) p l = (case run p l of Inl _ \<Rightarrow> None | Inr (p', l') \<Rightarrow> solo (pred_numeral v) p' l')"
  by (simp add: numeral_eq_Suc)

section \<open>Correctness of the lock\<close>

text \<open>C6. Exclusion, for any number of processes below \<open>2\<^sup>3\<^sup>2\<close> and any interleaving of their accesses: while a
  process holds the lock exclusively, no other process holds it in any mode; there is never more than
  one writer, whether exclusive, appending or contended; and never more than one process updating headers.\<close>

theorem lock_exclusion:
  assumes "rw_reachable n (l, ps)" "n < 4294967296" "i < n" "j < n" "i \<noteq> j"
  shows "(ps ! i = Exclusive \<longrightarrow> ps ! j \<notin> {Shared, Headers, Exclusive, Appending, Contended}) \<and>
    (ps ! i \<in> {Appending, Contended} \<longrightarrow> ps ! j \<notin> {Exclusive, Appending, Contended}) \<and>
    (ps ! i = Headers \<longrightarrow> ps ! j \<noteq> Headers)"
proof -
  have inv: "rw_inv l ps" and n: "length ps = n" using rw_reachable_inv [OF assms(1,2)] by simp_all
  have two: "w (ps ! i) + w (ps ! j) \<le> tally w ps" for w using assms n by (simp add: tally_two)
  have "tally c_first ps \<le> 1" "tally c_updating ps \<le> 1" "tally c_alone ps = 0 \<or> tally c_reading ps = 0"
    using inv by (simp_all add: rw_inv_def)
  then show ?thesis using two [of c_first] two [of c_updating] two [of c_alone] two [of c_reading]
    by (intro conjI impI; elim disjE) auto
qed

theorem lock_exclusion_witness:
  "\<exists>l. rw_reachable 2 (l, [Exclusive, LockShared LS_loadAppending]) \<and>
     LockShared LS_loadAppending \<notin> {Shared, Headers, Exclusive, Appending, Contended}"
proof -
  let ?go = "(0, None)"
  have "play [(0, Some (LockExclusive LX_incWriteLevel)), ?go, ?go, ?go, ?go, ?go,
      (1, Some (LockShared LS_incReadLevel)), (1, None), (1, None)] (rwlock_new, replicate 2 Unlocked) =
    Some (rwlock_new\<lparr>rw_writing := True, rw_readLevel := 1, rw_writeLevel := 1\<rparr>, [Exclusive, LockShared LS_loadAppending])"
    by (simp add: rwlock_new_def access_defs proceed_def uadd32_exact numeral_2_eq_2)
  from reachable_by_play [OF this] show ?thesis
    using lock_exclusion [of 2 _ "[Exclusive, LockShared LS_loadAppending]" 0 1] by auto
qed

text \<open>C21. No assertion of any operation can fail: whatever the other processes do, the next access
  of a process that calls the operations in their documented order is defined, and the 32-bit counters do
  not wrap around.\<close>

theorem lock_assertions_hold:
  assumes "rw_reachable n (l, ps)" "n < 4294967296" "i < n"
  shows "(\<exists>p l'. run (ps ! i) l = Inr (p, l')) \<and> rw_readers l \<le> n \<and> rw_readLevel l \<le> n \<and> rw_writeLevel l \<le> n"
proof -
  have inv: "rw_inv l ps" and n: "length ps = n" using rw_reachable_inv [OF assms(1,2)] by simp_all
  then have "rw_inv l (ps ! i # others i ps)" "length (others i ps) < 4294967295"
    using assms rw_inv_others(1) [of i ps l] by (simp_all add: length_others)
  from run_inv [OF this] have "\<exists>p l'. run (ps ! i) l = Inr (p, l')" by blast
  moreover have "rw_readers l \<le> n \<and> rw_readLevel l \<le> n \<and> rw_writeLevel l \<le> n"
    using inv tallies_le [of ps] n by (auto simp: rw_inv_def)
  ultimately show ?thesis by blast
qed

theorem lock_assertions_hold_witness: "\<exists>p l'. run (replicate 3 Unlocked ! 2) rwlock_new = Inr (p, l')"
  using lock_assertions_hold [OF rw_start, of 3 2] by simp



text \<open>C26. Nothing is left behind, and a caller that is left alone succeeds: when every process has
  returned what it held, the lock is as it was created, and then a process that runs without
  interference gets the exclusive lock in five accesses and the shared lock in three.\<close>

theorem lock_quiescent:
  assumes "rw_reachable n (l, replicate n Unlocked)" "n < 4294967296"
  shows "l = rwlock_new \<and>
    map_option fst (solo 5 (LockExclusive LX_incWriteLevel) l) = Some Exclusive \<and>
    map_option fst (solo 3 (LockShared LS_incReadLevel) l) = Some Shared"
proof -
  have "tally w (replicate n Unlocked) = n * w Unlocked" for w by (simp add: tally_def sum_list_replicate)
  moreover have "rw_inv l (replicate n Unlocked)" using rw_reachable_inv [OF assms] by simp
  ultimately have "l = rwlock_new" by (cases l) (simp add: rw_inv_def rwlock_new_def)
  moreover have "map_option fst (solo 5 (LockExclusive LX_incWriteLevel) rwlock_new) = Some Exclusive"
    "map_option fst (solo 3 (LockShared LS_incReadLevel) rwlock_new) = Some Shared"
    by (simp_all add: rwlock_new_def access_defs proceed_def uadd32_exact)
  ultimately show ?thesis by blast
qed

theorem lock_quiescent_witness:
  "map_option fst (solo 5 (LockExclusive LX_incWriteLevel) rwlock_new) = Some Exclusive"
  using lock_quiescent [OF rw_start, of 4] by simp

end
