(* ===== verification/Binary_Heap.thy ===== *)
theory Binary_Heap
  imports Squid_Prelude
begin

text \<open>
  \<^verbatim>\<open>lib/heap.c\<close>: the priority queue of the heap replacement policies. The heap is an array of
  pointers to nodes, each with a key, the caller's data and its own position in the array, so
  that a caller who keeps the pointer can delete or update the node. Nodes live in an explicit memory;
  address 0 is the null pointer, and a freed address has no node. Keys are of any linear order
  (\<^verbatim>\<open>double\<close> without NaN). Positions and sizes are natural numbers: the casts
  of the code to \<^verbatim>\<open>int\<close> lose nothing below \<open>2\<^sup>3\<^sup>0\<close> nodes. Loops run on fuel; \<open>None\<close> is a loop that
  does not end.
\<close>

section \<open>Nodes and heaps\<close>

record ('k, 'd) heap_node =
  hn_key :: 'k
  hn_id :: nat
  hn_data :: 'd

record ('k, 'd) heap =
  hp_size :: nat
  hp_last :: nat
  hp_gen_key :: "'d \<Rightarrow> 'k \<Rightarrow> 'k"
  hp_age :: 'k
  hp_nodes :: "nat list"
  hp_mem :: "nat \<Rightarrow> ('k, 'd) heap_node option"
  hp_brk :: nat

abbreviation node :: "('k, 'd) heap \<Rightarrow> nat \<Rightarrow> ('k, 'd) heap_node" where
  "node h a \<equiv> the (hp_mem h a)"

definition heap_Left :: "nat \<Rightarrow> nat" where
  "heap_Left x = 2 * x + 1"

definition heap_Right :: "nat \<Rightarrow> nat" where
  "heap_Right x = 2 * x + 2"

text \<open>The cast makes the parent of the root -1 / 2, which is 0.\<close>

definition heap_Parent :: "nat \<Rightarrow> nat" where
  "heap_Parent x = (x - 1) div 2"

text \<open>\<^verbatim>\<open>xcalloc()\<close> fills the array with null pointers.\<close>

definition new_heap :: "int \<Rightarrow> ('d \<Rightarrow> 'k \<Rightarrow> 'k) \<Rightarrow> 'k \<Rightarrow> ('k, 'd) heap" where
  "new_heap initSize gen_key zero =
     (let size = (if initSize \<le> 0 then 32 else nat initSize)
      in \<lparr>hp_size = size, hp_last = 0, hp_gen_key = gen_key, hp_age = zero,
          hp_nodes = replicate size 0, hp_mem = (\<lambda>_. None), hp_brk = 1\<rparr>)"

text \<open>\<^verbatim>\<open>delete_heap()\<close>: what is left of the nodes' memory.\<close>

definition delete_heap :: "('k, 'd) heap \<Rightarrow> nat \<Rightarrow> ('k, 'd) heap_node option" where
  "delete_heap h = fold (\<lambda>i m. m(hp_nodes h ! i := None)) [0..<hp_last h] (hp_mem h)"

definition heap_gen_key :: "('k, 'd) heap \<Rightarrow> 'd \<Rightarrow> 'k" where
  "heap_gen_key h dat = hp_gen_key h dat (hp_age h)"

definition heap_node_exist :: "('k, 'd) heap \<Rightarrow> int \<Rightarrow> bool" where
  "heap_node_exist h i \<longleftrightarrow> \<not> (i \<ge> int (hp_last h) \<or> i < 0 \<or> hp_nodes h ! nat i = 0)"

section \<open>Private functions\<close>

definition set_id :: "nat \<Rightarrow> nat \<Rightarrow> ('k, 'd) heap \<Rightarrow> ('k, 'd) heap" where
  "set_id a i h = h\<lparr>hp_mem := (hp_mem h)(a \<mapsto> (node h a)\<lparr>hn_id := i\<rparr>)\<rparr>"

definition heap_swap_element :: "('k, 'd) heap \<Rightarrow> nat \<Rightarrow> nat \<Rightarrow> ('k, 'd) heap" where
  "heap_swap_element h elm1 elm2 =
     (let elm1Id = hn_id (node h elm1);
          h1 = set_id elm1 (hn_id (node h elm2)) h;
          h2 = set_id elm2 elm1Id h1;
          h3 = h2\<lparr>hp_nodes := (hp_nodes h2)[hn_id (node h2 elm1) := elm1]\<rparr>
      in h3\<lparr>hp_nodes := (hp_nodes h3)[hn_id (node h3 elm2) := elm2]\<rparr>)"

definition heap_should_grow :: "('k, 'd) heap \<Rightarrow> bool" where
  "heap_should_grow h \<longleftrightarrow> hp_size h \<le> hp_last h"

text \<open>
  \<^verbatim>\<open>xrealloc()\<close> keeps the old cells; the content of the new ones is never read, as they are
  beyond \<^verbatim>\<open>last\<close>.
\<close>

definition heap_grow :: "('k, 'd) heap \<Rightarrow> ('k, 'd) heap" where
  "heap_grow h =
     (let newSize = (if hp_size h > 10000 then hp_size h * 3 div 2 else hp_size h * 2)
      in h\<lparr>hp_nodes := take newSize (hp_nodes h) @ replicate (newSize - length (hp_nodes h)) 0, hp_size := newSize\<rparr>)"

fun heap_ify_up :: "nat \<Rightarrow> ('k :: linorder, 'd) heap \<Rightarrow> nat \<Rightarrow> ('k, 'd) heap option" where
  "heap_ify_up 0 h elm = None"
| "heap_ify_up (Suc fuel) h elm =
     (if hn_id (node h elm) > 0 then
        let parentNode = hp_nodes h ! heap_Parent (hn_id (node h elm))
        in if hn_key (node h parentNode) \<le> hn_key (node h elm) then Some h
           else heap_ify_up fuel (heap_swap_element h parentNode elm) elm
      else Some h)"

definition heap_least_kid :: "('k :: linorder, 'd) heap \<Rightarrow> nat \<Rightarrow> nat \<Rightarrow> nat" where
  "heap_least_kid h left right =
     (if \<not> heap_node_exist h (int right) then hp_nodes h ! left
      else if hn_key (node h (hp_nodes h ! right)) < hn_key (node h (hp_nodes h ! left)) then hp_nodes h ! right
      else hp_nodes h ! left)"

fun heap_ify_down :: "nat \<Rightarrow> ('k :: linorder, 'd) heap \<Rightarrow> nat \<Rightarrow> ((exn + unit) \<times> ('k, 'd) heap) option" where
  "heap_ify_down 0 h elm = None"
| "heap_ify_down (Suc fuel) h elm =
     (let left = heap_Left (hn_id (node h elm));
          right = heap_Right (hn_id (node h elm))
      in if \<not> heap_node_exist h (int left) then
           (if \<not> heap_node_exist h (int right) then Some (Inr (), h)
            else Some (Inl (AssertFailure ''!_heap_node_exist(hp, right)''), h))
         else
           let kid = heap_least_kid h left right
           in if hn_key (node h elm) \<le> hn_key (node h kid) then Some (Inr (), h)
              else heap_ify_down fuel (heap_swap_element h kid elm) elm)"

text \<open>Fuel for one loop: more than the length of any path from the root to a leaf.\<close>

definition heap_fuel :: "('k, 'd) heap \<Rightarrow> nat" where
  "heap_fuel h = Suc (hp_last h)"

text \<open>The two loops that the deletion and the update of a node share.\<close>

definition heap_reorder :: "('k :: linorder, 'd) heap \<Rightarrow> nat \<Rightarrow> ((exn + unit) \<times> ('k, 'd) heap) option" where
  "heap_reorder h elm =
     (case (if hn_key (node h elm) < hn_key (node h (hp_nodes h ! heap_Parent (hn_id (node h elm))))
            then heap_ify_up (heap_fuel h) h elm else Some h) of
        None \<Rightarrow> None
      | Some h1 \<Rightarrow> heap_ify_down (heap_fuel h1) h1 elm)"

section \<open>Public functions\<close>

definition heap_insert :: "('k :: linorder, 'd) heap \<Rightarrow> 'd \<Rightarrow> (nat \<times> ('k, 'd) heap) option" where
  "heap_insert h dat =
     (let elm = hp_brk h;
          h1 = h\<lparr>hp_brk := Suc elm,
                 hp_mem := (hp_mem h)(elm \<mapsto> \<lparr>hn_key = heap_gen_key h dat, hn_id = 0, hn_data = dat\<rparr>)\<rparr>;
          h2 = (if heap_should_grow h1 then heap_grow h1 else h1);
          h3 = h2\<lparr>hp_nodes := (hp_nodes h2)[hp_last h2 := elm]\<rparr>;
          h4 = (set_id elm (hp_last h3) h3)\<lparr>hp_last := hp_last h3 + 1\<rparr>
      in case heap_ify_up (heap_fuel h4) h4 elm of
           None \<Rightarrow> None
         | Some h5 \<Rightarrow> Some (elm, h5))"

definition heap_extractlast :: "('k, 'd) heap \<Rightarrow> (exn + 'd) \<times> ('k, 'd) heap" where
  "heap_extractlast h =
     (if heap_node_exist h (int (hp_last h) - 1) then
        let h1 = h\<lparr>hp_last := hp_last h - 1\<rparr>;
            data = hn_data (node h1 (hp_nodes h1 ! hp_last h1))
        in (Inr data, h1\<lparr>hp_mem := (hp_mem h1)(hp_nodes h1 ! hp_last h1 := None)\<rparr>)
      else (Inl (AssertFailure ''_heap_node_exist(hp, hp->last - 1)''), h))"

definition heap_delete :: "('k :: linorder, 'd) heap \<Rightarrow> nat \<Rightarrow> ((exn + 'd) \<times> ('k, 'd) heap) option" where
  "heap_delete h elm =
     (let data = hn_data (node h elm) in
      if heap_node_exist h (int (hp_last h) - 1) then
        let lastNode = hp_nodes h ! (hp_last h - 1)
        in case heap_extractlast (heap_swap_element h lastNode elm) of
             (Inl e, h1) \<Rightarrow> Some (Inl e, h1)
           | (Inr _, h1) \<Rightarrow>
               if elm = lastNode then Some (Inr data, h1)
               else if hp_last h1 > 0 then
                 (case heap_reorder h1 lastNode of
                    None \<Rightarrow> None
                  | Some (Inl e, h2) \<Rightarrow> Some (Inl e, h2)
                  | Some (Inr _, h2) \<Rightarrow> Some (Inr data, h2))
               else Some (Inr data, h1)
      else Some (Inl (AssertFailure ''_heap_node_exist(hp, hp->last - 1)''), h))"

definition heap_extractmin :: "('k :: linorder, 'd) heap \<Rightarrow> ((exn + 'd option) \<times> ('k, 'd) heap) option" where
  "heap_extractmin h =
     (if hp_last h = 0 then Some (Inr None, h)
      else
        let data = hn_data (node h (hp_nodes h ! 0))
        in case heap_delete h (hp_nodes h ! 0) of
             None \<Rightarrow> None
           | Some (Inl e, h1) \<Rightarrow> Some (Inl e, h1)
           | Some (Inr _, h1) \<Rightarrow> Some (Inr (Some data), h1))"

definition heap_update :: "('k :: linorder, 'd) heap \<Rightarrow> nat \<Rightarrow> 'd \<Rightarrow> ((exn + 'd) \<times> ('k, 'd) heap) option" where
  "heap_update h elm dat =
     (let old = hn_data (node h elm);
          ky = heap_gen_key h dat;
          h1 = h\<lparr>hp_mem := (hp_mem h)(elm \<mapsto> (node h elm)\<lparr>hn_key := ky, hn_data := dat\<rparr>)\<rparr>
      in case heap_reorder h1 elm of
           None \<Rightarrow> None
         | Some (Inl e, h2) \<Rightarrow> Some (Inl e, h2)
         | Some (Inr _, h2) \<Rightarrow> Some (Inr old, h2))"

definition heap_peepkey :: "('k, 'd) heap \<Rightarrow> int \<Rightarrow> exn + 'k" where
  "heap_peepkey h n =
     (if heap_node_exist h n then Inr (hn_key (node h (hp_nodes h ! nat n)))
      else Inl (AssertFailure ''_heap_node_exist(hp, n)''))"

definition heap_peep :: "('k, 'd) heap \<Rightarrow> int \<Rightarrow> exn + 'd" where
  "heap_peep h n =
     (if heap_node_exist h n then Inr (hn_data (node h (hp_nodes h ! nat n)))
      else Inl (AssertFailure ''_heap_node_exist(hp, n)''))"

definition heap_peepminkey :: "('k, 'd) heap \<Rightarrow> exn + 'k" where
  "heap_peepminkey h =
     (if heap_node_exist h 0 then Inr (hn_key (node h (hp_nodes h ! 0)))
      else Inl (AssertFailure ''_heap_node_exist(hp, 0)''))"

definition heap_peepmin :: "('k, 'd) heap \<Rightarrow> exn + 'd" where
  "heap_peepmin h =
     (if heap_node_exist h 0 then Inr (hn_data (node h (hp_nodes h ! 0)))
      else Inl (AssertFailure ''_heap_node_exist(hp, 0)''))"

definition heap_nodes :: "('k, 'd) heap \<Rightarrow> nat" where
  "heap_nodes h = hp_last h"

definition heap_empty :: "('k, 'd) heap \<Rightarrow> bool" where
  "heap_empty h \<longleftrightarrow> hp_last h = 0"

text \<open>\<^verbatim>\<open>verify_heap_property()\<close> stops at the first violation.\<close>

definition heap_node_correct :: "('k :: linorder, 'd) heap \<Rightarrow> nat \<Rightarrow> bool" where
  "heap_node_correct h i \<longleftrightarrow>
     \<not> (heap_node_exist h (int (heap_Left i)) \<and> hn_key (node h (hp_nodes h ! i)) > hn_key (node h (hp_nodes h ! heap_Left i))) \<and>
     \<not> (heap_node_exist h (int (heap_Right i)) \<and> hn_key (node h (hp_nodes h ! i)) > hn_key (node h (hp_nodes h ! heap_Right i)))"

definition verify_heap_property :: "('k :: linorder, 'd) heap \<Rightarrow> bool" where
  "verify_heap_property h \<longleftrightarrow> list_all (heap_node_correct h) [0..<hp_last h div 2]"

end
