(* ===== verification/Heap_Order.thy ===== *)
theory Heap_Order
  imports Binary_Heap "HOL-Library.Multiset"
begin

text \<open>
  Correctness of the priority queue. A well-formed heap knows the position of each of its nodes and
  owns exactly the allocated nodes; its value is the finite map from node pointers to
  key and data. Every public function keeps the heap ordered and does to that map what it
  promises, in particular without moving or changing any other node.
\<close>

section \<open>Well-formed heaps\<close>

definition heap_wf :: "('k, 'd) heap \<Rightarrow> bool" where
  "heap_wf h \<longleftrightarrow> 0 < hp_size h \<and> 0 < hp_brk h \<and> hp_last h \<le> hp_size h \<and> length (hp_nodes h) = hp_size h \<and>
     (\<forall>i<hp_last h. \<exists>n. hp_mem h (hp_nodes h ! i) = Some n \<and> hn_id n = i) \<and>
     (\<forall>a. hp_mem h a \<noteq> None \<longrightarrow> 0 < a \<and> a < hp_brk h \<and> a \<in> set (take (hp_last h) (hp_nodes h)))"

definition vals :: "('k, 'd) heap \<Rightarrow> nat \<Rightarrow> ('k \<times> 'd) option" where
  "vals h a = map_option (\<lambda>n. (hn_key n, hn_data n)) (hp_mem h a)"

definition key_at :: "('k, 'd) heap \<Rightarrow> nat \<Rightarrow> 'k" where
  "key_at h i = hn_key (node h (hp_nodes h ! i))"

definition same_value :: "('k, 'd) heap \<Rightarrow> ('k, 'd) heap \<Rightarrow> bool" where
  "same_value h h' \<longleftrightarrow> hp_size h' = hp_size h \<and> hp_last h' = hp_last h \<and> hp_gen_key h' = hp_gen_key h \<and>
     hp_age h' = hp_age h \<and> hp_brk h' = hp_brk h \<and> vals h' = vals h"

lemma vals_dom: "vals h a = None \<longleftrightarrow> hp_mem h a = None"
  by (simp add: vals_def)

lemma same_value_refl: "same_value h h"
  by (simp add: same_value_def)

lemma same_value_trans: "same_value h h1 \<Longrightarrow> same_value h1 h2 \<Longrightarrow> same_value h h2"
  by (simp add: same_value_def)

lemma heap_wf_nodes:
  assumes "heap_wf h" "i < hp_last h"
  shows "hp_mem h (hp_nodes h ! i) \<noteq> None" "hn_id (node h (hp_nodes h ! i)) = i" "hp_nodes h ! i \<noteq> 0"
    "i < length (hp_nodes h)"
  using assms unfolding heap_wf_def by auto

lemma heap_wf_member:
  assumes "heap_wf h" "hp_mem h a \<noteq> None"
  shows "hn_id (node h a) < hp_last h" "hp_nodes h ! hn_id (node h a) = a"
proof -
  have "a \<in> set (take (hp_last h) (hp_nodes h))" using assms by (auto simp: heap_wf_def)
  then obtain i where "i < hp_last h" "hp_nodes h ! i = a" by (auto simp: in_set_conv_nth)
  then show "hn_id (node h a) < hp_last h" "hp_nodes h ! hn_id (node h a) = a" using heap_wf_nodes [OF assms(1)] by auto
qed

lemma heap_wf_inj: "heap_wf h \<Longrightarrow> i < hp_last h \<Longrightarrow> j < hp_last h \<Longrightarrow> hp_nodes h ! i = hp_nodes h ! j \<Longrightarrow> i = j"
  using heap_wf_nodes(2) by metis

lemma node_exist: "heap_wf h \<Longrightarrow> heap_node_exist h (int i) \<longleftrightarrow> i < hp_last h"
  using heap_wf_nodes(3) by (auto simp: heap_node_exist_def)

lemma node_exist_last: "heap_wf h \<Longrightarrow> 0 < hp_last h \<Longrightarrow> heap_node_exist h (int (hp_last h) - 1)"
  using node_exist [of h "hp_last h - 1"] by (simp add: of_nat_diff)

text \<open>Swapping two nodes.\<close>

lemma swap_wf:
  assumes wf: "heap_wf h" and i: "i < hp_last h" and j: "j < hp_last h"
  defines "h' \<equiv> heap_swap_element h (hp_nodes h ! i) (hp_nodes h ! j)"
  shows "heap_wf h' \<and> same_value h h' \<and> hp_nodes h' = (hp_nodes h)[j := hp_nodes h ! i, i := hp_nodes h ! j] \<and>
    (\<forall>k<hp_last h. key_at h' k = key_at h (if k = i then j else if k = j then i else k))"
proof -
  let ?a = "hp_nodes h ! i" and ?b = "hp_nodes h ! j"
  note wi = heap_wf_nodes [OF wf i] and wj = heap_wf_nodes [OF wf j]
  obtain na nb where n: "hp_mem h ?a = Some na" "hp_mem h ?b = Some nb" "hn_id na = i" "hn_id nb = j"
    using wi wj by auto
  have ab: "?a = ?b \<longleftrightarrow> i = j" using heap_wf_inj [OF wf i j] by auto
  have h': "h' = h\<lparr>hp_nodes := (hp_nodes h)[j := ?a, i := ?b],
      hp_mem := (hp_mem h)(?a \<mapsto> na\<lparr>hn_id := j\<rparr>, ?b \<mapsto> nb\<lparr>hn_id := i\<rparr>)\<rparr>"
    using n ab by (cases "i = j") (auto simp: h'_def heap_swap_element_def set_id_def Let_def)
  have nodes: "hp_nodes h' ! k = hp_nodes h ! (if k = i then j else if k = j then i else k)" if "k < hp_last h" for k
    using wi(4) wj(4) by (auto simp: h' nth_list_update)
  have mem: "hp_mem h' x = (if x = ?b then Some (nb\<lparr>hn_id := i\<rparr>) else if x = ?a then Some (na\<lparr>hn_id := j\<rparr>) else hp_mem h x)" for x
    by (auto simp: h')
  have vals: "vals h' = vals h" using n by (auto simp: vals_def mem fun_eq_iff)
  have same: "same_value h h'" using vals by (simp add: same_value_def) (simp add: h')
  have "\<exists>n. hp_mem h' (hp_nodes h' ! k) = Some n \<and> hn_id n = k" if k: "k < hp_last h" for k
  proof -
    consider "k = i" | "k = j" "k \<noteq> i" | "k \<noteq> i" "k \<noteq> j" by blast
    then show ?thesis
    proof cases
      case 3
      then have "hp_nodes h ! k \<noteq> ?a" "hp_nodes h ! k \<noteq> ?b" using heap_wf_inj [OF wf k i] heap_wf_inj [OF wf k j] by blast+
      then show ?thesis using 3 heap_wf_nodes(1,2) [OF wf k] unfolding nodes [OF k] mem by auto
    qed (use ab nodes [OF k] in \<open>simp_all add: mem\<close>)
  qed
  moreover have "set (take (hp_last h) (hp_nodes h')) = set (take (hp_last h) (hp_nodes h))"
  proof -
    have "take (hp_last h) (hp_nodes h') = (take (hp_last h) (hp_nodes h))[j := take (hp_last h) (hp_nodes h) ! i, i := take (hp_last h) (hp_nodes h) ! j]"
      using i j by (simp add: h' take_update_swap)
    also have "set \<dots> = set (take (hp_last h) (hp_nodes h))" using i j wi(4) wj(4) by (intro set_swap) simp_all
    finally show ?thesis .
  qed
  moreover have "hp_mem h' x = None \<longleftrightarrow> hp_mem h x = None" for x using n by (auto simp: mem)
  ultimately have "heap_wf h'" using wf by (simp add: heap_wf_def) (simp add: h')
  moreover have "key_at h' k = key_at h (if k = i then j else if k = j then i else k)" if "k < hp_last h" for k
    using n ab unfolding key_at_def nodes [OF that] mem by simp
  ultimately show ?thesis using same by (auto simp: h')
qed

section \<open>Order\<close>

definition heap_ordered :: "('k :: linorder, 'd) heap \<Rightarrow> bool" where
  "heap_ordered h \<longleftrightarrow> (\<forall>i<hp_last h. 0 < i \<longrightarrow> key_at h (heap_Parent i) \<le> key_at h i)"

text \<open>
  Ordered but for the node at \<open>p\<close>, which may be too small for its parent or too large for its
  children; the parent of \<open>p\<close> is in order with the children of \<open>p\<close>.
\<close>

definition ordered_around :: "('k :: linorder, 'd) heap \<Rightarrow> nat \<Rightarrow> bool" where
  "ordered_around h p \<longleftrightarrow>
     (\<forall>i<hp_last h. 0 < i \<longrightarrow> i \<noteq> p \<longrightarrow> heap_Parent i \<noteq> p \<longrightarrow> key_at h (heap_Parent i) \<le> key_at h i) \<and>
     (\<forall>i<hp_last h. 0 < i \<longrightarrow> heap_Parent i = p \<longrightarrow> 0 < p \<longrightarrow> key_at h (heap_Parent p) \<le> key_at h i)"

definition above_kids :: "('k :: linorder, 'd) heap \<Rightarrow> nat \<Rightarrow> bool" where
  "above_kids h p \<longleftrightarrow> (\<forall>i<hp_last h. 0 < i \<longrightarrow> heap_Parent i = p \<longrightarrow> key_at h p \<le> key_at h i)"

lemma parent_less: "0 < i \<Longrightarrow> heap_Parent i < i"
  by (simp add: heap_Parent_def)

lemma parent_kids: "heap_Parent (heap_Left p) = p" "heap_Parent (heap_Right p) = p"
  by (simp_all add: heap_Parent_def heap_Left_def heap_Right_def)

lemma kid_cases: "0 < i \<Longrightarrow> heap_Parent i = p \<Longrightarrow> i = heap_Left p \<or> i = heap_Right p"
  unfolding heap_Parent_def heap_Left_def heap_Right_def by linarith

lemma ordered_all:
  assumes "ordered_around h p" "above_kids h p" "p = 0 \<or> key_at h (heap_Parent p) \<le> key_at h p"
  shows "heap_ordered h"
  unfolding heap_ordered_def
proof (intro allI impI)
  fix i assume i: "i < hp_last h" "0 < i"
  show "key_at h (heap_Parent i) \<le> key_at h i"
    using assms i by (cases "i = p"; cases "heap_Parent i = p") (auto simp: ordered_around_def above_kids_def)
qed

lemma ordered_around_any:
  assumes "heap_ordered h" "p < hp_last h" shows "ordered_around h p" "above_kids h p"
  using assms unfolding heap_ordered_def ordered_around_def above_kids_def by (auto intro: order_trans)

lemma root_least:
  assumes "heap_ordered h" "i < hp_last h" shows "key_at h 0 \<le> key_at h i"
  using assms(2)
proof (induction i rule: less_induct)
  case (less i)
  show ?case
  proof (cases "i = 0")
    case False
    then have "heap_Parent i < i" by (simp add: parent_less)
    with less have "key_at h 0 \<le> key_at h (heap_Parent i)" by simp
    also have "\<dots> \<le> key_at h i" using assms(1) less.prems False by (simp add: heap_ordered_def)
    finally show ?thesis .
  qed simp
qed

text \<open>One step of either loop.\<close>

lemma up_step:
  assumes wf: "heap_wf h" and p: "p < hp_last h" "0 < p" and around: "ordered_around h p" "above_kids h p"
    and less: "key_at h p < key_at h (heap_Parent p)"
  defines "h' \<equiv> heap_swap_element h (hp_nodes h ! heap_Parent p) (hp_nodes h ! p)"
  shows "heap_wf h' \<and> same_value h h' \<and> hp_nodes h' ! heap_Parent p = hp_nodes h ! p \<and>
    ordered_around h' (heap_Parent p) \<and> above_kids h' (heap_Parent p)"
proof -
  let ?q = "heap_Parent p"
  have q: "?q < hp_last h" "?q \<noteq> p" using parent_less [OF p(2)] p(1) by simp_all
  note sw = swap_wf [OF wf q(1) p(1), folded h'_def]
  have last: "hp_last h' = hp_last h" using sw by (simp add: same_value_def)
  have key: "k < hp_last h \<Longrightarrow> key_at h' k = key_at h (if k = ?q then p else if k = p then ?q else k)" for k using sw by blast
  have par: "i < hp_last h \<Longrightarrow> 0 < i \<Longrightarrow> heap_Parent i < hp_last h" for i using parent_less [of i] by simp
  have up: "i < hp_last h \<Longrightarrow> 0 < i \<Longrightarrow> i \<noteq> p \<Longrightarrow> heap_Parent i \<noteq> p \<Longrightarrow> key_at h (heap_Parent i) \<le> key_at h i" for i
    using around(1) by (simp add: ordered_around_def)
  have kids: "i < hp_last h \<Longrightarrow> 0 < i \<Longrightarrow> heap_Parent i = p \<Longrightarrow> key_at h ?q \<le> key_at h i" for i
    using around(1) p(2) by (simp add: ordered_around_def)
  have "key_at h' (heap_Parent i) \<le> key_at h' i" if i: "i < hp_last h" "0 < i" "i \<noteq> ?q" for i
  proof -
    consider "i = p" | "heap_Parent i = p" "i \<noteq> p" | "heap_Parent i = ?q" "i \<noteq> p" | "heap_Parent i \<noteq> p" "heap_Parent i \<noteq> ?q" "i \<noteq> p" by blast
    then show ?thesis
    proof cases
      case 1
      then show ?thesis using less q p key [OF p(1)] key [OF q(1)] by simp
    next
      case 2
      then show ?thesis using kids [OF i(1,2)] i(3) key [OF i(1)] key [OF p(1)] q(2) by simp
    next
      case 3
      then have "key_at h ?q \<le> key_at h i" using up [OF i(1,2)] q(2) by simp
      then show ?thesis using 3 less i(3) key [OF i(1)] key [OF q(1)] by simp
    next
      case 4
      then show ?thesis using up [OF i(1,2)] i(3) key [OF i(1)] key [OF par [OF i(1,2)]] by simp
    qed
  qed
  note all = this
  have "key_at h' (heap_Parent ?q) \<le> key_at h' i" if i: "i < hp_last h" "0 < i" "heap_Parent i = ?q" "0 < ?q" for i
  proof -
    have iq: "i \<noteq> ?q" using i parent_less [of i] by auto
    have top: "key_at h (heap_Parent ?q) \<le> key_at h ?q" using up [OF q(1) i(4) q(2)] parent_less [OF i(4)] parent_less [OF p(2)] by simp
    have pq: "heap_Parent ?q \<noteq> ?q" "heap_Parent ?q \<noteq> p" using parent_less [OF i(4)] parent_less [OF p(2)] by simp_all
    show ?thesis
    proof (cases "i = p")
      case True
      then show ?thesis using top key [OF p(1)] key [OF par [OF q(1) i(4)]] pq q(2) by simp
    next
      case False
      then have "key_at h ?q \<le> key_at h i" using up [OF i(1,2)] i(3) q(2) by simp
      then show ?thesis using top False iq key [OF i(1)] key [OF par [OF q(1) i(4)]] pq by simp
    qed
  qed
  then have "ordered_around h' ?q" using all by (simp add: ordered_around_def last)
  moreover have "above_kids h' ?q" using all p(2) parent_less unfolding above_kids_def last by (metis less_irrefl)
  moreover have "hp_nodes h' ! ?q = hp_nodes h ! p" using sw heap_wf_nodes(4) [OF wf q(1)] by simp
  ultimately show ?thesis using sw by blast
qed

lemma down_step:
  assumes wf: "heap_wf h" and p: "p < hp_last h" and around: "ordered_around h p"
    and c: "0 < c" "c < hp_last h" "heap_Parent c = p" and less: "key_at h c < key_at h p"
    and least: "\<And>i. i < hp_last h \<Longrightarrow> 0 < i \<Longrightarrow> heap_Parent i = p \<Longrightarrow> key_at h c \<le> key_at h i"
  defines "h' \<equiv> heap_swap_element h (hp_nodes h ! c) (hp_nodes h ! p)"
  shows "heap_wf h' \<and> same_value h h' \<and> hp_nodes h' ! c = hp_nodes h ! p \<and>
    ordered_around h' c \<and> key_at h' (heap_Parent c) \<le> key_at h' c"
proof -
  note sw = swap_wf [OF wf c(2) p, folded h'_def]
  have last: "hp_last h' = hp_last h" using sw by (simp add: same_value_def)
  have key: "k < hp_last h \<Longrightarrow> key_at h' k = key_at h (if k = c then p else if k = p then c else k)" for k using sw by blast
  have pc: "p < c" using parent_less [OF c(1)] c(3) by simp
  have par: "i < hp_last h \<Longrightarrow> 0 < i \<Longrightarrow> heap_Parent i < hp_last h" for i using parent_less [of i] by simp
  have up: "i < hp_last h \<Longrightarrow> 0 < i \<Longrightarrow> i \<noteq> p \<Longrightarrow> heap_Parent i \<noteq> p \<Longrightarrow> key_at h (heap_Parent i) \<le> key_at h i" for i
    using around by (simp add: ordered_around_def)
  have top: "0 < p \<Longrightarrow> key_at h (heap_Parent p) \<le> key_at h c" using around c by (auto simp: ordered_around_def)
  have "key_at h' (heap_Parent i) \<le> key_at h' i" if i: "i < hp_last h" "0 < i" "i \<noteq> c" "heap_Parent i \<noteq> c" for i
  proof -
    consider "heap_Parent i = p" | "i = p" "heap_Parent i \<noteq> p" | "heap_Parent i \<noteq> p" "i \<noteq> p" by blast
    then show ?thesis
    proof cases
      case 1
      then have "i \<noteq> p" using parent_less [OF i(2)] by auto
      then show ?thesis using 1 least [OF i(1,2)] i(3) key [OF i(1)] key [OF p] pc by simp
    next
      case 2
      then show ?thesis using top i key [OF p] key [OF par [OF i(1,2)]] pc by simp
    next
      case 3
      then show ?thesis using up [OF i(1,2)] i key [OF i(1)] key [OF par [OF i(1,2)]] by simp
    qed
  qed
  moreover have "key_at h' (heap_Parent c) \<le> key_at h' i" if i: "i < hp_last h" "0 < i" "heap_Parent i = c" for i
  proof -
    have "i \<noteq> p" "i \<noteq> c" "c \<noteq> p" using parent_less [OF i(2)] i(3) pc by auto
    then show ?thesis using up [OF i(1,2)] i(3) c(3) key [OF i(1)] key [OF p] by simp
  qed
  ultimately have "ordered_around h' c" by (simp add: ordered_around_def last)
  moreover have "key_at h' (heap_Parent c) \<le> key_at h' c" using less c(3) key [OF p] key [OF c(2)] pc by simp
  moreover have "hp_nodes h' ! c = hp_nodes h ! p" using sw heap_wf_nodes(4) [OF wf c(2)] by simp
  ultimately show ?thesis using sw by blast
qed

section \<open>The loops\<close>

definition sorted_again :: "('k :: linorder, 'd) heap \<Rightarrow> ('k, 'd) heap \<Rightarrow> bool" where
  "sorted_again h h' \<longleftrightarrow> heap_wf h' \<and> heap_ordered h' \<and> same_value h h'"

lemma ify_up_sorts:
  assumes "heap_wf h" "p < hp_last h" "ordered_around h p" "above_kids h p" "p < fuel"
  shows "\<exists>h'. heap_ify_up fuel h (hp_nodes h ! p) = Some h' \<and> sorted_again h h'"
  using assms
proof (induction fuel arbitrary: h p)
  case (Suc fuel)
  let ?e = "hp_nodes h ! p"
  note id = heap_wf_nodes(2) [OF Suc.prems(1,2)]
  show ?case
  proof (cases "0 < p \<and> key_at h p < key_at h (heap_Parent p)")
    case False
    then have stop: "heap_ify_up (Suc fuel) h ?e = Some h" using id by (auto simp: Let_def key_at_def)
    have "heap_ordered h" using False Suc.prems(3,4) by (intro ordered_all [of h p]) auto
    then show ?thesis using stop Suc.prems(1) by (simp add: sorted_again_def same_value_refl)
  next
    case True
    let ?h = "heap_swap_element h (hp_nodes h ! heap_Parent p) ?e"
    have step: "heap_wf ?h" "same_value h ?h" "hp_nodes ?h ! heap_Parent p = ?e" "ordered_around ?h (heap_Parent p)"
      "above_kids ?h (heap_Parent p)"
      using up_step [OF Suc.prems(1,2) _ Suc.prems(3,4)] True by blast+
    have "heap_Parent p < p" using True by (simp add: parent_less)
    then have "heap_Parent p < hp_last ?h" "heap_Parent p < fuel" using step(2) Suc.prems(2,5) by (simp_all add: same_value_def)
    from Suc.IH [OF step(1) this(1) step(4,5) this(2)] obtain h' where
      h': "heap_ify_up fuel ?h ?e = Some h'" "sorted_again ?h h'" unfolding step(3) by blast
    have "heap_ify_up (Suc fuel) h ?e = Some h'" using True id h'(1) by (auto simp: Let_def key_at_def)
    moreover have "sorted_again h h'" using h'(2) same_value_trans [OF step(2)] by (auto simp: sorted_again_def)
    ultimately show ?thesis by blast
  qed
qed simp

lemma least_kid:
  assumes wf: "heap_wf h" and l: "heap_Left p < hp_last h"
  shows "\<exists>c. heap_least_kid h (heap_Left p) (heap_Right p) = hp_nodes h ! c \<and> 0 < c \<and> c < hp_last h \<and> heap_Parent c = p \<and>
    (\<forall>i<hp_last h. 0 < i \<longrightarrow> heap_Parent i = p \<longrightarrow> key_at h c \<le> key_at h i)"
proof -
  have kid: "0 < i \<Longrightarrow> heap_Parent i = p \<Longrightarrow> i = heap_Left p \<or> i = heap_Right p" for i by (rule kid_cases)
  have pos: "0 < heap_Left p" "0 < heap_Right p" by (simp_all add: heap_Left_def heap_Right_def)
  let ?right = "heap_Right p < hp_last h \<and> key_at h (heap_Right p) < key_at h (heap_Left p)"
  let ?c = "if ?right then heap_Right p else heap_Left p"
  have "heap_least_kid h (heap_Left p) (heap_Right p) = hp_nodes h ! ?c"
    using node_exist [OF wf, of "heap_Right p"] by (auto simp: heap_least_kid_def key_at_def)
  moreover have "\<forall>i<hp_last h. 0 < i \<longrightarrow> heap_Parent i = p \<longrightarrow> key_at h ?c \<le> key_at h i"
  proof (intro allI impI)
    fix i assume i: "i < hp_last h" "0 < i" "heap_Parent i = p"
    from kid [OF i(2,3)] show "key_at h ?c \<le> key_at h i" using i(1) by (elim disjE) (auto simp: not_less intro: less_imp_le)
  qed
  ultimately show ?thesis using pos l parent_kids [of p] by (intro exI [of _ ?c]) auto
qed

lemma ify_down_sorts:
  assumes "heap_wf h" "p < hp_last h" "ordered_around h p" "p = 0 \<or> key_at h (heap_Parent p) \<le> key_at h p" "hp_last h \<le> fuel + p"
  shows "\<exists>h'. heap_ify_down (Suc fuel) h (hp_nodes h ! p) = Some (Inr (), h') \<and> sorted_again h h'"
  using assms
proof (induction fuel arbitrary: h p)
  case 0
  then have False by linarith
  then show ?case ..
next
  case (Suc fuel)
  let ?e = "hp_nodes h ! p"
  note id = heap_wf_nodes(2) [OF Suc.prems(1,2)]
  note ex = node_exist [OF Suc.prems(1)]
  have lr: "heap_Left p < heap_Right p" "p < heap_Left p" by (simp_all add: heap_Left_def heap_Right_def)
  show ?case
  proof (cases "heap_Left p < hp_last h")
    case False
    have "above_kids h p" unfolding above_kids_def
    proof (intro allI impI)
      fix i assume i: "i < hp_last h" "0 < i" "heap_Parent i = p"
      then have "i = heap_Left p \<or> i = heap_Right p" by (intro kid_cases)
      then show "key_at h p \<le> key_at h i" using i(1) False lr by linarith
    qed
    then have "heap_ordered h" by (rule ordered_all [OF Suc.prems(3) _ Suc.prems(4)])
    moreover have "heap_ify_down (Suc (Suc fuel)) h ?e = Some (Inr (), h)"
      unfolding heap_ify_down.simps(2) [of "Suc fuel"] Let_def id ex using False lr by simp
    ultimately show ?thesis using Suc.prems(1) by (simp add: sorted_again_def same_value_refl del: heap_ify_down.simps)
  next
    case left: True
    then obtain c where c: "heap_least_kid h (heap_Left p) (heap_Right p) = hp_nodes h ! c" "0 < c" "c < hp_last h" "heap_Parent c = p"
      "\<And>i. i < hp_last h \<Longrightarrow> 0 < i \<Longrightarrow> heap_Parent i = p \<Longrightarrow> key_at h c \<le> key_at h i"
      using least_kid [OF Suc.prems(1) left] by blast
    show ?thesis
    proof (cases "key_at h p \<le> key_at h c")
      case True
      then have "above_kids h p" using c(5) by (auto simp: above_kids_def intro: order_trans)
      then have "heap_ordered h" by (rule ordered_all [OF Suc.prems(3) _ Suc.prems(4)])
      moreover have "heap_ify_down (Suc (Suc fuel)) h ?e = Some (Inr (), h)"
        unfolding heap_ify_down.simps(2) [of "Suc fuel"] Let_def id ex c(1) using True left by (simp add: key_at_def)
      ultimately show ?thesis using Suc.prems(1) by (simp add: sorted_again_def same_value_refl del: heap_ify_down.simps)
    next
      case False
      let ?h = "heap_swap_element h (hp_nodes h ! c) ?e"
      have lt: "key_at h c < key_at h p" using False by simp
      note st = down_step [OF Suc.prems(1,2,3) c(2,3,4) lt c(5)]
      have step: "heap_wf ?h" "same_value h ?h" "hp_nodes ?h ! c = ?e" "ordered_around ?h c"
        "key_at ?h (heap_Parent c) \<le> key_at ?h c" using st by blast+
      have "p < c" using parent_less [OF c(2)] c(4) by simp
      then have "c < hp_last ?h" "hp_last ?h \<le> fuel + c" using step(2) Suc.prems(5) c(3) by (simp_all add: same_value_def)
      from Suc.IH [OF step(1) this(1) step(4) disjI2 [OF step(5)] this(2)] obtain h' where
        h': "heap_ify_down (Suc fuel) ?h ?e = Some (Inr (), h')" "sorted_again ?h h'" unfolding step(3) by blast
      have "heap_ify_down (Suc (Suc fuel)) h ?e = heap_ify_down (Suc fuel) ?h ?e"
        unfolding heap_ify_down.simps(2) [of "Suc fuel"] Let_def id ex c(1) using False left by (simp add: key_at_def del: heap_ify_down.simps)
      moreover have "sorted_again h h'" using h'(2) same_value_trans [OF step(2)] by (auto simp: sorted_again_def)
      ultimately show ?thesis unfolding h'(1) by blast
    qed
  qed
qed

lemma reorder_sorts:
  assumes wf: "heap_wf h" and p: "p < hp_last h" and around: "ordered_around h p"
  shows "\<exists>h'. heap_reorder h (hp_nodes h ! p) = Some (Inr (), h') \<and> sorted_again h h'"
proof -
  let ?e = "hp_nodes h ! p"
  have id: "hn_id (node h ?e) = p" using heap_wf_nodes(2) [OF wf p] .
  show ?thesis
  proof (cases "key_at h p < key_at h (heap_Parent p)")
    case True
    then have pos: "0 < p" by (cases p) (auto simp: heap_Parent_def)
    have "above_kids h p" using around True pos by (auto simp: ordered_around_def above_kids_def intro: less_imp_le order_trans)
    moreover have "p < heap_fuel h" using p by (simp add: heap_fuel_def)
    ultimately obtain h1 where h1: "heap_ify_up (heap_fuel h) h ?e = Some h1" "sorted_again h h1"
      using ify_up_sorts [OF wf p around] by blast
    have wf1: "heap_wf h1" "heap_ordered h1" "hp_last h1 = hp_last h" using h1(2) by (auto simp: sorted_again_def same_value_def)
    have "vals h1 = vals h" using h1(2) by (simp add: sorted_again_def same_value_def)
    then have "hp_mem h1 ?e \<noteq> None" using heap_wf_nodes(1) [OF wf p] by (simp flip: vals_dom)
    from heap_wf_member [OF wf1(1) this] obtain q where q: "q < hp_last h1" "hp_nodes h1 ! q = ?e" by blast
    have "q = 0 \<or> key_at h1 (heap_Parent q) \<le> key_at h1 q" using wf1(2) q(1) by (auto simp: heap_ordered_def)
    from ify_down_sorts [OF wf1(1) q(1) ordered_around_any(1) [OF wf1(2) q(1)] this le_add1] obtain h2 where
      h2: "heap_ify_down (heap_fuel h1) h1 ?e = Some (Inr (), h2)" "sorted_again h1 h2" unfolding heap_fuel_def q(2) by blast
    have "heap_reorder h ?e = Some (Inr (), h2)" using True h1(1) h2(1) id by (simp add: heap_reorder_def key_at_def)
    moreover have "sorted_again h h2" using h1(2) h2(2) by (auto simp: sorted_again_def intro: same_value_trans)
    ultimately show ?thesis by blast
  next
    case False
    then have "heap_reorder h ?e = heap_ify_down (Suc (hp_last h)) h ?e" using id by (simp add: heap_reorder_def key_at_def heap_fuel_def)
    moreover have "key_at h (heap_Parent p) \<le> key_at h p" using False by simp
    ultimately show ?thesis using ify_down_sorts [OF wf p around disjI2 le_add1] by metis
  qed
qed

section \<open>The public functions\<close>

definition heap_good :: "('k :: linorder, 'd) heap \<Rightarrow> bool" where
  "heap_good h \<longleftrightarrow> heap_wf h \<and> heap_ordered h"

text \<open>What an operation may not touch.\<close>

definition same_policy :: "('k, 'd) heap \<Rightarrow> ('k, 'd) heap \<Rightarrow> bool" where
  "same_policy h h' \<longleftrightarrow> hp_gen_key h' = hp_gen_key h \<and> hp_age h' = hp_age h"

lemma new_heap_good: "heap_good (new_heap n gen zero)" "vals (new_heap n gen zero) = (\<lambda>_. None)"
  by (simp_all add: heap_good_def heap_wf_def heap_ordered_def new_heap_def vals_def Let_def fun_eq_iff)

lemma grow_wf:
  assumes "heap_wf h"
  defines "h' \<equiv> (if heap_should_grow h then heap_grow h else h)"
  shows "heap_wf h' \<and> hp_last h' < hp_size h' \<and> hp_last h' = hp_last h \<and> hp_mem h' = hp_mem h \<and> hp_brk h' = hp_brk h \<and>
    same_policy h h' \<and> take (hp_last h) (hp_nodes h') = take (hp_last h) (hp_nodes h)"
proof (cases "heap_should_grow h")
  case True
  let ?n = "if hp_size h > 10000 then hp_size h * 3 div 2 else hp_size h * 2"
  have last: "hp_last h = hp_size h" "0 < hp_size h" "length (hp_nodes h) = hp_size h"
    using True assms by (auto simp: heap_should_grow_def heap_wf_def)
  then have n: "hp_size h < ?n" by auto
  have h': "h' = h\<lparr>hp_nodes := hp_nodes h @ replicate (?n - hp_size h) 0, hp_size := ?n\<rparr>"
    using True n last(3) by (simp add: h'_def heap_grow_def Let_def)
  have "take (hp_last h) (hp_nodes h') = take (hp_last h) (hp_nodes h)" using last by (simp add: h')
  moreover have "hp_nodes h' ! i = hp_nodes h ! i" if "i < hp_last h" for i using that last by (simp add: h' nth_append)
  ultimately show ?thesis using assms(1) n last by (auto simp: heap_wf_def same_policy_def) (auto simp: h')
next
  case False
  then show ?thesis using assms by (auto simp: heap_should_grow_def same_policy_def)
qed

lemma insert_ok:
  assumes good: "heap_good h"
  shows "\<exists>a h'. heap_insert h dat = Some (a, h') \<and> heap_good h' \<and> vals h a = None \<and>
    vals h' = (vals h)(a \<mapsto> (heap_gen_key h dat, dat)) \<and> same_policy h h'"
proof -
  have wf: "heap_wf h" and ord: "heap_ordered h" using good by (auto simp: heap_good_def)
  let ?a = "hp_brk h" and ?n = "hp_last h"
  let ?new = "\<lparr>hn_key = heap_gen_key h dat, hn_id = 0, hn_data = dat\<rparr>"
  define h1 where "h1 = h\<lparr>hp_brk := Suc ?a, hp_mem := (hp_mem h)(?a \<mapsto> ?new)\<rparr>"
  define g where "g = (if heap_should_grow h then heap_grow h else h)"
  define h2 where "h2 = (if heap_should_grow h1 then heap_grow h1 else h1)"
  have grow: "h2 = g\<lparr>hp_brk := Suc ?a, hp_mem := (hp_mem h)(?a \<mapsto> ?new)\<rparr>"
    by (simp add: g_def h1_def h2_def heap_should_grow_def heap_grow_def Let_def)
  note gw = grow_wf [OF wf, folded g_def]
  have g: "heap_wf g" "?n < hp_size g" "hp_last g = ?n" "hp_mem g = hp_mem h" "hp_brk g = ?a" "same_policy h g"
    "take ?n (hp_nodes g) = take ?n (hp_nodes h)" using gw by simp_all
  define h4 where "h4 = g\<lparr>hp_brk := Suc ?a, hp_nodes := (hp_nodes g)[?n := ?a],
    hp_mem := (hp_mem h)(?a \<mapsto> ?new\<lparr>hn_id := ?n\<rparr>), hp_last := Suc ?n\<rparr>"
  have run: "heap_insert h dat = (case heap_ify_up (heap_fuel h4) h4 ?a of None \<Rightarrow> None | Some h5 \<Rightarrow> Some (?a, h5))"
    unfolding heap_insert_def Let_def h1_def [symmetric] h2_def [symmetric]
    by (simp add: grow set_id_def g(3) h4_def)
  have fresh: "hp_mem h ?a = None" using wf by (fastforce simp: heap_wf_def)
  have len: "length (hp_nodes g) = hp_size g" using g(1) by (simp add: heap_wf_def)
  have at: "i < ?n \<Longrightarrow> hp_nodes g ! i = hp_nodes h ! i" for i using g(7) by (metis nth_take)
  have old: "i < ?n \<Longrightarrow> hp_nodes h ! i \<noteq> ?a" for i using heap_wf_nodes(1) [OF wf, of i] fresh by metis
  have pos: "0 < ?a" using wf by (simp add: heap_wf_def)
  have nodes: "hp_nodes h4 ! i = (if i = ?n then ?a else hp_nodes h ! i)" if "i \<le> ?n" for i
    using that at len g(2) by (auto simp: h4_def)
  have last4: "hp_last h4 = Suc ?n" by (simp add: h4_def)
  have mem4: "hp_mem h4 = (hp_mem h)(?a \<mapsto> ?new\<lparr>hn_id := ?n\<rparr>)" by (simp add: h4_def)
  have wf4: "heap_wf h4"
  proof -
    have "\<exists>n. hp_mem h4 (hp_nodes h4 ! i) = Some n \<and> hn_id n = i" if "i \<le> ?n" for i
      using that heap_wf_nodes(1,2) [OF wf, of i] old [of i] unfolding nodes [OF that] mem4 by auto
    moreover have "take (Suc ?n) (hp_nodes h4) = take ?n (hp_nodes h) @ [?a]"
      using len g(2,7) by (simp add: h4_def take_Suc_conv_app_nth)
    then have "0 < x \<and> x < Suc ?a \<and> x \<in> set (take (Suc ?n) (hp_nodes h4))" if "hp_mem h4 x \<noteq> None" for x
      using that wf pos by (cases "x = ?a") (fastforce simp: heap_wf_def mem4)+
    moreover have "hp_last h4 = Suc ?n" "hp_size h4 = hp_size g" "hp_brk h4 = Suc ?a" "length (hp_nodes h4) = hp_size g"
      using len by (simp_all add: h4_def)
    ultimately show ?thesis using g(2) unfolding heap_wf_def by (simp add: less_Suc_eq_le)
  qed
  have key: "i < ?n \<Longrightarrow> key_at h4 i = key_at h i" for i using old [of i] by (simp add: key_at_def nodes) (simp add: h4_def)
  have up: "ordered_around h4 ?n" "above_kids h4 ?n"
  proof -
    have par: "heap_Parent i < ?n" if "0 < i" "i < hp_last h4" for i using that parent_less [of i] last4 by simp
    have ltn: "i < ?n" if "i < hp_last h4" "i \<noteq> ?n" for i using that last4 by simp
    show "above_kids h4 ?n" using par unfolding above_kids_def by (metis less_irrefl)
    have "key_at h4 (heap_Parent i) \<le> key_at h4 i" if i: "i < hp_last h4" "0 < i" "i \<noteq> ?n" for i
      using ord ltn [OF i(1,3)] i(2) key [OF ltn [OF i(1,3)]] key [OF par [OF i(2,1)]] by (simp add: heap_ordered_def)
    then show "ordered_around h4 ?n" using par unfolding ordered_around_def by (metis less_irrefl)
  qed
  have "?n < hp_last h4" "?n < heap_fuel h4" "hp_nodes h4 ! ?n = ?a" using nodes [of ?n] by (simp_all add: h4_def heap_fuel_def)
  with ify_up_sorts [OF wf4 _ up] obtain h5 where h5: "heap_ify_up (heap_fuel h4) h4 ?a = Some h5" "sorted_again h4 h5" by metis
  have "vals h4 = (vals h)(?a \<mapsto> (heap_gen_key h dat, dat))" by (auto simp: vals_def h4_def fun_eq_iff)
  then show ?thesis using run h5 fresh g(6)
    by (auto simp: sorted_again_def heap_good_def same_value_def same_policy_def vals_dom) (auto simp: h4_def)
qed

lemma extractlast_ok:
  assumes wf: "heap_wf h" and last: "0 < hp_last h"
  defines "q \<equiv> hp_last h - 1"
  shows "\<exists>h'. heap_extractlast h = (Inr (hn_data (node h (hp_nodes h ! q))), h') \<and> heap_wf h' \<and> hp_last h' = q \<and>
    hp_nodes h' = hp_nodes h \<and> vals h' = (vals h)(hp_nodes h ! q := None) \<and> same_policy h h' \<and>
    (\<forall>i<q. key_at h' i = key_at h i)"
proof -
  let ?e = "hp_nodes h ! q"
  let ?h = "h\<lparr>hp_last := q, hp_mem := (hp_mem h)(?e := None)\<rparr>"
  have q: "q < hp_last h" "hp_last h = Suc q" using last by (simp_all add: q_def)
  have run: "heap_extractlast h = (Inr (hn_data (node h ?e)), ?h)"
    using node_exist_last [OF wf last] by (simp add: heap_extractlast_def Let_def q_def)
  have other: "i < q \<Longrightarrow> hp_nodes h ! i \<noteq> ?e" for i using heap_wf_inj [OF wf _ q(1), of i] q by auto
  have "x \<in> set (take q (hp_nodes h))" if "hp_mem h x \<noteq> None" "x \<noteq> ?e" for x
  proof -
    have "x \<in> set (take (Suc q) (hp_nodes h))" using wf that(1) by (auto simp: heap_wf_def q(2))
    moreover have "take (Suc q) (hp_nodes h) = take q (hp_nodes h) @ [?e]"
      using heap_wf_nodes(4) [OF wf q(1)] by (simp add: take_Suc_conv_app_nth)
    ultimately show ?thesis using that(2) by simp
  qed
  then have "heap_wf ?h" using wf other q by (fastforce simp: heap_wf_def)
  then show ?thesis using run other by (intro exI [of _ ?h]) (auto simp: same_policy_def vals_def key_at_def fun_eq_iff)
qed

lemma delete_ok:
  assumes good: "heap_good h" and e: "vals h e = Some (k, d)"
  shows "\<exists>h'. heap_delete h e = Some (Inr d, h') \<and> heap_good h' \<and> vals h' = (vals h)(e := None) \<and> same_policy h h'"
proof -
  have wf: "heap_wf h" and ord: "heap_ordered h" using good by (auto simp: heap_good_def)
  have mem: "hp_mem h e \<noteq> None" "hn_data (node h e) = d" using e by (auto simp: vals_def)
  define p where "p = hn_id (node h e)"
  define q where "q = hp_last h - 1"
  have p: "p < hp_last h" "hp_nodes h ! p = e" using heap_wf_member [OF wf mem(1)] by (simp_all add: p_def)
  have q: "q < hp_last h" "p \<le> q" using p(1) by (simp_all add: q_def)
  let ?h1 = "heap_swap_element h (hp_nodes h ! q) e"
  note sw = swap_wf [OF wf q(1) p(1), unfolded p(2)]
  have h1: "heap_wf ?h1" "hp_last ?h1 = hp_last h" "vals ?h1 = vals h" "same_policy h ?h1"
    using sw by (simp_all add: same_value_def same_policy_def)
  have nodes1: "hp_nodes ?h1 ! q = e" "hp_nodes ?h1 ! p = hp_nodes h ! q"
    using sw p heap_wf_nodes(4) [OF wf p(1)] heap_wf_nodes(4) [OF wf q(1)] by (auto simp: nth_list_update)
  have "0 < hp_last ?h1" using p(1) h1(2) by simp
  from extractlast_ok [OF h1(1) this] obtain h2 d' where h2: "heap_extractlast ?h1 = (Inr d', h2)" "heap_wf h2" "hp_last h2 = q"
    "hp_nodes h2 = hp_nodes ?h1" "vals h2 = (vals h)(e := None)" "same_policy ?h1 h2" "\<And>i. i < q \<Longrightarrow> key_at h2 i = key_at ?h1 i"
    unfolding h1(2) q_def [symmetric] nodes1(1) h1(3) by blast
  have key: "key_at h2 i = key_at h (if i = p then q else i)" if "i < q" for i using h2(7) [OF that] sw that q(1) by simp
  have pol: "same_policy h h2" using h1(4) h2(6) by (simp add: same_policy_def)
  have ex: "heap_node_exist h (int (hp_last h) - 1)" using node_exist_last [OF wf] p(1) by simp
  have le: "i < hp_last h \<Longrightarrow> 0 < i \<Longrightarrow> key_at h (heap_Parent i) \<le> key_at h i" for i using ord by (simp add: heap_ordered_def)
  have par: "i < q \<Longrightarrow> 0 < i \<Longrightarrow> heap_Parent i < q" for i using parent_less [of i] by simp
  show ?thesis
  proof (cases "p = q")
    case True
    have "key_at h2 (heap_Parent i) \<le> key_at h2 i" if "i < q" "0 < i" for i
      using le [of i] key [OF that(1)] key [OF par [OF that]] that q(1) par [OF that] True by simp
    then have "heap_good h2" using h2(2,3) by (simp add: heap_good_def heap_ordered_def)
    moreover have "heap_delete h e = Some (Inr d, h2)"
      using ex h2(1) mem(2) p(2) True by (simp add: heap_delete_def Let_def q_def)
    ultimately show ?thesis using h2(5) pol by blast
  next
    case False
    then have pq: "p < q" using q(2) by simp
    have "key_at h2 (heap_Parent i) \<le> key_at h2 i" if "i < q" "0 < i" "i \<noteq> p" "heap_Parent i \<noteq> p" for i
      using le [of i] key [OF that(1)] key [OF par [OF that(1,2)]] that q(1) by simp
    moreover have "key_at h2 (heap_Parent p) \<le> key_at h2 i" if i: "i < q" "0 < i" "heap_Parent i = p" "0 < p" for i
    proof -
      have ip: "i \<noteq> p" using parent_less [OF i(2)] i(3) by simp
      have "key_at h (heap_Parent p) \<le> key_at h p" using le p(1) i(4) by simp
      also have "\<dots> \<le> key_at h i" using le [of i] i q(1) by simp
      finally show ?thesis using key [OF i(1)] key [OF par [OF pq i(4)]] ip parent_less [OF i(4)] by simp
    qed
    ultimately have "ordered_around h2 p" by (simp add: ordered_around_def h2(3))
    moreover have "p < hp_last h2" using pq h2(3) by simp
    ultimately obtain h3 where h3: "heap_reorder h2 (hp_nodes h ! q) = Some (Inr (), h3)" "sorted_again h2 h3"
      using reorder_sorts [OF h2(2)] nodes1(2) h2(4) by metis
    have "hp_nodes h ! q \<noteq> e" using heap_wf_inj [OF wf q(1) p(1)] p(2) False by auto
    then have "heap_delete h e = Some (Inr d, h3)"
      using ex h2(1,3) h3(1) mem(2) pq by (simp add: heap_delete_def Let_def q_def)
    then show ?thesis using h3(2) h2(5) pol by (auto simp: sorted_again_def heap_good_def same_value_def same_policy_def)
  qed
qed

lemma update_ok:
  assumes good: "heap_good h" and e: "vals h e = Some (k, d)"
  shows "\<exists>h'. heap_update h e dat = Some (Inr d, h') \<and> heap_good h' \<and>
    vals h' = (vals h)(e \<mapsto> (heap_gen_key h dat, dat)) \<and> same_policy h h'"
proof -
  have wf: "heap_wf h" and ord: "heap_ordered h" using good by (auto simp: heap_good_def)
  have mem: "hp_mem h e \<noteq> None" "hn_data (node h e) = d" using e by (auto simp: vals_def)
  define p where "p = hn_id (node h e)"
  have p: "p < hp_last h" "hp_nodes h ! p = e" using heap_wf_member [OF wf mem(1)] by (simp_all add: p_def)
  define h1 where "h1 = h\<lparr>hp_mem := (hp_mem h)(e \<mapsto> (node h e)\<lparr>hn_key := heap_gen_key h dat, hn_data := dat\<rparr>)\<rparr>"
  have wf1: "heap_wf h1" using wf mem(1) by (auto simp: heap_wf_def h1_def)
  have key: "key_at h1 i = key_at h i" if "i < hp_last h" "i \<noteq> p" for i
    using heap_wf_inj [OF wf that(1) p(1)] that p(2) by (auto simp: key_at_def h1_def)
  have le: "i < hp_last h \<Longrightarrow> 0 < i \<Longrightarrow> key_at h (heap_Parent i) \<le> key_at h i" for i using ord by (simp add: heap_ordered_def)
  have par: "i < hp_last h \<Longrightarrow> 0 < i \<Longrightarrow> heap_Parent i < hp_last h" for i using parent_less [of i] by simp
  have last: "hp_last h1 = hp_last h" "hp_nodes h1 = hp_nodes h" by (simp_all add: h1_def)
  have "ordered_around h1 p"
    using ordered_around_any(1) [OF ord p(1)] unfolding ordered_around_def last
    by (metis key par parent_less less_irrefl)
  with reorder_sorts [OF wf1 _ this] p obtain h2 where h2: "heap_reorder h1 e = Some (Inr (), h2)" "sorted_again h1 h2"
    unfolding last by blast
  have "heap_update h e dat = Some (Inr d, h2)" using h2(1) mem(2) by (simp add: heap_update_def Let_def h1_def)
  moreover have "vals h1 = (vals h)(e \<mapsto> (heap_gen_key h dat, dat))" by (auto simp: vals_def h1_def fun_eq_iff)
  ultimately show ?thesis using h2(2)
    by (auto simp: sorted_again_def heap_good_def same_value_def same_policy_def) (auto simp: h1_def)
qed

lemma extractmin_ok:
  assumes good: "heap_good h"
  shows "(hp_last h = 0 \<and> vals h = (\<lambda>_. None) \<and> heap_extractmin h = Some (Inr None, h)) \<or>
    (\<exists>e k d h'. hp_nodes h ! 0 = e \<and> 0 < hp_last h \<and> vals h e = Some (k, d) \<and> (\<forall>e' k' d'. vals h e' = Some (k', d') \<longrightarrow> k \<le> k') \<and>
      heap_extractmin h = Some (Inr (Some d), h') \<and> heap_good h' \<and> vals h' = (vals h)(e := None) \<and> same_policy h h')"
proof -
  have wf: "heap_wf h" and ord: "heap_ordered h" using good by (auto simp: heap_good_def)
  show ?thesis
  proof (cases "hp_last h = 0")
    case True
    then have "hp_mem h a = None" for a using wf by (auto simp: heap_wf_def)
    then show ?thesis using True by (simp add: heap_extractmin_def vals_def fun_eq_iff)
  next
    case False
    let ?e = "hp_nodes h ! 0"
    obtain n where n: "hp_mem h ?e = Some n" using heap_wf_nodes(1) [OF wf, of 0] False by auto
    then have e: "vals h ?e = Some (hn_key n, hn_data n)" by (simp add: vals_def)
    from delete_ok [OF good e] obtain h' where h': "heap_delete h ?e = Some (Inr (hn_data n), h')" "heap_good h'"
      "vals h' = (vals h)(?e := None)" "same_policy h h'" by blast
    have "hn_key n \<le> k'" if "vals h e' = Some (k', d')" for e' k' d'
    proof -
      have m: "hp_mem h e' \<noteq> None" "hn_key (node h e') = k'" using that by (auto simp: vals_def)
      from heap_wf_member [OF wf m(1)] root_least [OF ord, of "hn_id (node h e')"] show ?thesis using m(2) n by (simp add: key_at_def)
    qed
    moreover have "heap_extractmin h = Some (Inr (Some (hn_data n)), h')" using h'(1) n False by (simp add: heap_extractmin_def Let_def)
    ultimately show ?thesis using e h'(2-) False by blast
  qed
qed

section \<open>A priority queue\<close>

text \<open>
  The queue that the replacement policies use: entries go in, and come out in the order of their
  keys. Filling a queue and emptying it sorts.
\<close>

fun push_all :: "('d \<Rightarrow> 'q \<Rightarrow> 'q option) \<Rightarrow> 'd list \<Rightarrow> 'q \<Rightarrow> 'q option" where
  "push_all push [] q = Some q"
| "push_all push (d # ds) q = (case push d q of None \<Rightarrow> None | Some q1 \<Rightarrow> push_all push ds q1)"

fun pop_all :: "('q \<Rightarrow> ('d option \<times> 'q) option) \<Rightarrow> nat \<Rightarrow> 'q \<Rightarrow> 'd list option" where
  "pop_all pop 0 q = (case pop q of Some (None, _) \<Rightarrow> Some [] | _ \<Rightarrow> None)"
| "pop_all pop (Suc n) q =
     (case pop q of Some (Some d, q1) \<Rightarrow> map_option (Cons d) (pop_all pop n q1) | _ \<Rightarrow> None)"

locale priority_queue =
  fixes good :: "'q \<Rightarrow> bool" and bag :: "'q \<Rightarrow> 'd multiset" and key :: "'d \<Rightarrow> 'k :: linorder"
    and push :: "'d \<Rightarrow> 'q \<Rightarrow> 'q option" and pop :: "'q \<Rightarrow> ('d option \<times> 'q) option"
  assumes push_adds: "good q \<Longrightarrow> \<exists>q'. push d q = Some q' \<and> good q' \<and> bag q' = add_mset d (bag q)"
    and pop_empty: "good q \<Longrightarrow> bag q = {#} \<Longrightarrow> \<exists>q'. pop q = Some (None, q')"
    and pop_least: "good q \<Longrightarrow> bag q \<noteq> {#} \<Longrightarrow>
      \<exists>d q'. pop q = Some (Some d, q') \<and> good q' \<and> bag q = add_mset d (bag q') \<and> (\<forall>x\<in>#bag q'. key d \<le> key x)"
begin

lemma push_all_adds: "good q \<Longrightarrow> \<exists>q'. push_all push ds q = Some q' \<and> good q' \<and> bag q' = mset ds + bag q"
proof (induction ds arbitrary: q)
  case (Cons d ds)
  from push_adds [OF Cons.prems, of d] obtain q1 where q1: "push d q = Some q1" "good q1" "bag q1 = add_mset d (bag q)" by blast
  from Cons.IH [OF q1(2)] q1 show ?case by auto
qed simp

lemma pop_all_sorts:
  "good q \<Longrightarrow> size (bag q) = n \<Longrightarrow> \<exists>ds. pop_all pop n q = Some ds \<and> mset ds = bag q \<and> sorted (map key ds)"
proof (induction n arbitrary: q)
  case 0
  then show ?case using pop_empty [of q] by auto
next
  case (Suc n)
  then have "bag q \<noteq> {#}" by auto
  with pop_least [OF Suc.prems(1)] obtain d q1 where q1: "pop q = Some (Some d, q1)" "good q1" "bag q = add_mset d (bag q1)"
    "\<forall>x\<in>#bag q1. key d \<le> key x" by blast
  from Suc.IH [OF q1(2)] q1(3) Suc.prems(2) obtain ds where ds: "pop_all pop n q1 = Some ds" "mset ds = bag q1" "sorted (map key ds)"
    by auto
  have "\<forall>x\<in>set ds. key d \<le> key x" using q1(4) ds(2) by (metis set_mset_mset)
  then show ?case using q1(1,3) ds by simp
qed

end

definition heap_push :: "'d \<Rightarrow> ('k :: linorder, 'd) heap \<Rightarrow> ('k, 'd) heap option" where
  "heap_push d h = map_option snd (heap_insert h d)"

definition heap_pop :: "('k :: linorder, 'd) heap \<Rightarrow> ('d option \<times> ('k, 'd) heap) option" where
  "heap_pop h = (case heap_extractmin h of Some (Inr x, h') \<Rightarrow> Some (x, h') | _ \<Rightarrow> None)"

text \<open>The data of the nodes, and heaps whose keys are those of the data.\<close>

definition heap_bag :: "('k, 'd) heap \<Rightarrow> 'd multiset" where
  "heap_bag h = image_mset (\<lambda>a. snd (the (vals h a))) (mset_set (dom (vals h)))"

definition keyed_heap :: "('d \<Rightarrow> 'k) \<Rightarrow> ('k :: linorder, 'd) heap \<Rightarrow> bool" where
  "keyed_heap key h \<longleftrightarrow> heap_good h \<and> heap_gen_key h = key \<and> (\<forall>a k d. vals h a = Some (k, d) \<longrightarrow> k = key d)"

lemma heap_finite: "heap_good h \<Longrightarrow> finite (dom (vals h))"
proof -
  assume "heap_good h"
  then have "dom (vals h) \<subseteq> set (hp_nodes h)"
    by (auto simp: heap_good_def heap_wf_def vals_def dom_def dest: in_set_takeD)
  then show ?thesis by (rule finite_subset) simp
qed

lemma bag_insert:
  assumes "finite (dom (vals h))" "vals h a = None" "vals h' = (vals h)(a \<mapsto> (k, d))"
  shows "heap_bag h' = add_mset d (heap_bag h)"
proof -
  have "a \<notin> dom (vals h)" using assms(2) by auto
  moreover have "image_mset (\<lambda>b. snd (the (((vals h)(a \<mapsto> (k, d))) b))) (mset_set (dom (vals h))) =
      image_mset (\<lambda>b. snd (the (vals h b))) (mset_set (dom (vals h)))"
    using assms(1) \<open>a \<notin> dom (vals h)\<close> by (intro image_mset_cong) auto
  ultimately show ?thesis using assms(1) by (simp add: heap_bag_def assms(3))
qed

lemma bag_delete:
  assumes "finite (dom (vals h))" "vals h a = Some (k, d)" "vals h' = (vals h)(a := None)"
  shows "heap_bag h = add_mset d (heap_bag h')"
proof (rule bag_insert)
  show "finite (dom (vals h'))" "vals h' a = None" using assms(1,3) by simp_all
  show "vals h = (vals h')(a \<mapsto> (k, d))" using assms(2,3) by (auto simp: fun_eq_iff)
qed

lemma same_policy_key: "same_policy h h' \<Longrightarrow> heap_gen_key h' = heap_gen_key h"
  by (simp add: same_policy_def heap_gen_key_def fun_eq_iff)

interpretation heap_queue: priority_queue "keyed_heap key" heap_bag key heap_push heap_pop for key :: "'d \<Rightarrow> 'k :: linorder"
proof
  fix q :: "('k, 'd) heap" assume q: "keyed_heap key q"
  then have good: "heap_good q" and gen: "heap_gen_key q = key" and keys: "\<And>a k d. vals q a = Some (k, d) \<Longrightarrow> k = key d"
    by (auto simp: keyed_heap_def)
  note fin = heap_finite [OF good]
  show "\<exists>q'. heap_push d q = Some q' \<and> keyed_heap key q' \<and> heap_bag q' = add_mset d (heap_bag q)" for d
  proof -
    from insert_ok [OF good, of d] obtain a q' where a: "heap_insert q d = Some (a, q')" "heap_good q'" "vals q a = None"
      "vals q' = (vals q)(a \<mapsto> (key d, d))" "same_policy q q'" using gen by auto
    have "keyed_heap key q'" using a keys gen by (auto simp: keyed_heap_def same_policy_key split: if_splits)
    then show ?thesis using bag_insert [OF fin a(3,4)] a(1) by (simp add: heap_push_def)
  qed
  show "\<exists>q'. heap_pop q = Some (None, q')" if "heap_bag q = {#}"
  proof -
    have "dom (vals q) = {}" using that fin by (simp add: heap_bag_def mset_set_empty_iff)
    then show ?thesis using extractmin_ok [OF good] by (fastforce simp: heap_pop_def)
  qed
  show "\<exists>d q'. heap_pop q = Some (Some d, q') \<and> keyed_heap key q' \<and> heap_bag q = add_mset d (heap_bag q') \<and>
      (\<forall>x\<in>#heap_bag q'. key d \<le> key x)" if "heap_bag q \<noteq> {#}"
  proof -
    have "vals q \<noteq> (\<lambda>_. None)" using that by (auto simp: heap_bag_def)
    with extractmin_ok [OF good] obtain e k d q' where e: "vals q e = Some (k, d)" "\<forall>e' k' d'. vals q e' = Some (k', d') \<longrightarrow> k \<le> k'"
      "heap_extractmin q = Some (Inr (Some d), q')" "heap_good q'" "vals q' = (vals q)(e := None)" "same_policy q q'" by blast
    have "keyed_heap key q'" using e keys gen by (auto simp: keyed_heap_def same_policy_key split: if_splits)
    moreover have "key d \<le> key x" if x: "x \<in># heap_bag q'" for x
    proof -
      obtain b where b: "b \<in> dom (vals q')" "x = snd (the (vals q' b))" using x heap_finite [OF e(4)] by (auto simp: heap_bag_def)
      then obtain kb where "vals q b = Some (kb, x)" using e(5) by (cases "b = e") auto
      then show ?thesis using e(1,2) keys by metis
    qed
    ultimately show ?thesis using e(3) bag_delete [OF fin e(1,5)] by (simp add: heap_pop_def)
  qed
qed

section \<open>Correctness of the heap\<close>

lemma new_heap_keyed: "keyed_heap (\<lambda>d. gen d zero) (new_heap n gen zero)" "heap_bag (new_heap n gen zero) = {#}"
  using new_heap_good [of n gen zero]
  by (auto simp: keyed_heap_def heap_bag_def) (simp add: heap_gen_key_def new_heap_def Let_def fun_eq_iff)

lemma fold_free: "fold (\<lambda>i m. m(f i := None)) xs m a = (if a \<in> f ` set xs then None else m a)"
  by (induction xs arbitrary: m) auto

lemma delete_heap_frees: "heap_wf h \<Longrightarrow> delete_heap h = (\<lambda>_. None)"
proof
  fix a assume wf: "heap_wf h"
  have "set (take (hp_last h) (hp_nodes h)) = (\<lambda>i. hp_nodes h ! i) ` {0..<hp_last h}"
    using wf by (simp add: heap_wf_def nth_image)
  then show "delete_heap h a = None" using wf by (auto simp: delete_heap_def fold_free heap_wf_def)
qed



definition sample_heap :: "(nat, nat) heap" where
  "sample_heap = new_heap 4 (\<lambda>d a. d + a) 0"


text \<open>The minimum: extracting from a well-formed heap returns nothing if it is empty, and else the data of a node of
  least key, which alone is removed; peeking shows the least key; and the heap's self-check agrees.\<close>

lemma heap_minimum:
  assumes "heap_good h"
  shows "verify_heap_property h \<and>
    (if heap_empty h then vals h = (\<lambda>_. None) \<and> heap_extractmin h = Some (Inr None, h)
     else \<exists>e k d h'. vals h e = Some (k, d) \<and> (\<forall>e' k' d'. vals h e' = Some (k', d') \<longrightarrow> k \<le> k') \<and>
       heap_peepminkey h = Inr k \<and> heap_peepmin h = Inr d \<and>
       heap_extractmin h = Some (Inr (Some d), h') \<and> heap_good h' \<and> vals h' = (vals h)(e := None))"
proof -
  have wf: "heap_wf h" and ord: "heap_ordered h" using assms by (auto simp: heap_good_def)
  have "key_at h (heap_Parent i) \<le> key_at h i" if "i < hp_last h" "0 < i" for i using ord that by (simp add: heap_ordered_def)
  note le = this
  have "heap_node_correct h i" for i
  proof -
    have "0 < heap_Left i" "0 < heap_Right i" by (simp_all add: heap_Left_def heap_Right_def)
    then show ?thesis using le [of "heap_Left i"] le [of "heap_Right i"]
      by (simp add: heap_node_correct_def node_exist [OF wf] parent_kids key_at_def) (meson not_less)
  qed
  then have verify: "verify_heap_property h" by (simp add: verify_heap_property_def list_all_iff)
  from extractmin_ok [OF assms] show ?thesis
  proof (elim disjE exE conjE)
    fix e k d h' assume *: "hp_nodes h ! 0 = e" "0 < hp_last h" "vals h e = Some (k, d)" "\<forall>e' k' d'. vals h e' = Some (k', d') \<longrightarrow> k \<le> k'"
      "heap_extractmin h = Some (Inr (Some d), h')" "heap_good h'" "vals h' = (vals h)(e := None)"
    then have "heap_peepminkey h = Inr k" "heap_peepmin h = Inr d"
      using node_exist [OF wf, of 0] by (auto simp: heap_peepminkey_def heap_peepmin_def vals_def)
    then show ?thesis using verify * by (auto simp: heap_empty_def)
  qed (use verify in \<open>simp add: heap_empty_def\<close>)
qed

end
