(* ===== verification/Safe_Math.thy ===== *)
theory Safe_Math
  imports Squid_Prelude
begin

text \<open>
  \<^verbatim>\<open>src/SquidMath.h\<close>: sums of integers of any types that detect overflow. A C++ integer type is its
  width and signedness; integer promotion, the usual arithmetic conversions and conversion to a type are written
  out, and a value is an integer in the range of its type.
\<close>

section \<open>Integer types\<close>

datatype int_type = IntType (it_bits: nat) (it_signed: bool)

definition type_max :: "int_type \<Rightarrow> int" where
  "type_max t = (if it_signed t then 2 ^ (it_bits t - 1) - 1 else 2 ^ it_bits t - 1)"

definition type_min :: "int_type \<Rightarrow> int" where
  "type_min t = (if it_signed t then - (2 ^ (it_bits t - 1)) else 0)"

definition in_type :: "int_type \<Rightarrow> int \<Rightarrow> bool" where
  "in_type t x \<longleftrightarrow> type_min t \<le> x \<and> x \<le> type_max t"

definition is_type :: "int_type \<Rightarrow> bool" where
  "is_type t \<longleftrightarrow> it_bits t \<in> {8, 16, 32, 64}"

text \<open>Integer promotion: narrow types become \<^verbatim>\<open>int\<close>.\<close>

definition promote :: "int_type \<Rightarrow> int_type" where
  "promote t = (if it_bits t < 32 then IntType 32 True else t)"

text \<open>\<^verbatim>\<open>std::common_type\<close> of promoted types.\<close>

definition common_type :: "int_type \<Rightarrow> int_type \<Rightarrow> int_type" where
  "common_type a b =
     (if it_signed a = it_signed b then (if it_bits a < it_bits b then b else a)
      else
        let u = (if it_signed a then b else a);
            s = (if it_signed a then a else b)
        in if it_bits s \<le> it_bits u then u else s)"

definition convert :: "int_type \<Rightarrow> int \<Rightarrow> int" where
  "convert t x =
     (let y = x mod 2 ^ it_bits t
      in if it_signed t \<and> type_max t < y then y - 2 ^ it_bits t else y)"

section \<open>Sums\<close>

definition math_Less :: "int_type \<Rightarrow> int_type \<Rightarrow> int \<Rightarrow> int \<Rightarrow> bool" where
  "math_Less A B a b \<longleftrightarrow>
     (let AB = common_type A B in
      if a \<ge> 0 \<and> b < 0 then False
      else if a < 0 \<and> b \<ge> 0 then True
      else convert AB a < convert AB b)"

text \<open>The overload for two unsigned types.\<close>

definition IncreaseSumUnsigned :: "int_type \<Rightarrow> int_type \<Rightarrow> int_type \<Rightarrow> int \<Rightarrow> int \<Rightarrow> int option" where
  "IncreaseSumUnsigned S A B a b =
     (let AB = common_type A B;
          sum = convert AB (convert AB a + convert AB b)
      in if sum \<ge> convert AB a \<and> sum \<le> type_max S then Some sum else None)"

text \<open>The overload for the other types.\<close>

definition IncreaseSumSigned :: "int_type \<Rightarrow> int_type \<Rightarrow> int_type \<Rightarrow> int \<Rightarrow> int \<Rightarrow> int option" where
  "IncreaseSumSigned S A B a b =
     (if a < 0 \<or> b < 0 then None
      else if math_Less A B (type_max S - a) b then None
      else Some (convert S (a + b)))"

definition IncreaseSumInternal :: "int_type \<Rightarrow> int_type \<Rightarrow> int_type \<Rightarrow> int \<Rightarrow> int \<Rightarrow> int option" where
  "IncreaseSumInternal S A B a b =
     (if \<not> it_signed A \<and> \<not> it_signed B then IncreaseSumUnsigned S A B a b else IncreaseSumSigned S A B a b)"

fun IncreaseSum :: "int_type \<Rightarrow> int \<Rightarrow> (int_type \<times> int) list \<Rightarrow> int option" where
  "IncreaseSum S s [] = Some s"
| "IncreaseSum S s ((T, t) # args) =
     (case IncreaseSumInternal S (promote S) (promote T) s t of
        Some head \<Rightarrow> IncreaseSum S head args
      | None \<Rightarrow> None)"

definition NaturalSum :: "int_type \<Rightarrow> (int_type \<times> int) list \<Rightarrow> int option" where
  "NaturalSum S args = IncreaseSum S 0 args"

definition SetToNaturalSumOrMax :: "int_type \<Rightarrow> (int_type \<times> int) list \<Rightarrow> int" where
  "SetToNaturalSumOrMax S args = (case NaturalSum S args of Some s \<Rightarrow> s | None \<Rightarrow> type_max S)"

text \<open>\<^verbatim>\<open>std::optional::value()\<close> throws when there is no value.\<close>

definition NaturalCast :: "int_type \<Rightarrow> int_type \<times> int \<Rightarrow> exn + int" where
  "NaturalCast Result s =
     (case NaturalSum Result [s] of Some r \<Rightarrow> Inr r | None \<Rightarrow> Inl (TextException ''bad_optional_access''))"

section \<open>Exactness\<close>

lemma convert_natural:
  assumes "0 \<le> x" "x \<le> type_max t" "0 < it_bits t" shows "convert t x = x"
proof -
  have "type_max t < 2 ^ it_bits t"
  proof (cases "it_signed t")
    case True
    have "(2 :: int) ^ (it_bits t - 1) \<le> 2 ^ it_bits t" by (rule power_increasing) simp_all
    moreover have "type_max t = 2 ^ (it_bits t - 1) - 1" using True by (simp add: type_max_def)
    ultimately show ?thesis by linarith
  qed (simp add: type_max_def)
  then have "x mod 2 ^ it_bits t = x" using assms by simp
  then show ?thesis using assms(2) by (auto simp: convert_def Let_def)
qed

lemma type_cases:
  assumes "is_type t" obtains n where "t = IntType n (it_signed t)" "n \<in> {8, 16, 32, 64}"
  using assms by (cases t) (auto simp: is_type_def)

lemma promote_max: "is_type t \<Longrightarrow> type_max t \<le> type_max (promote t) \<and> is_type (promote t) \<and> it_bits (promote t) \<in> {32, 64}"
  by (cases t) (auto simp: is_type_def promote_def type_max_def)

text \<open>The common type of two promoted types has room for the natural numbers of either.\<close>

lemma common_max:
  assumes "it_bits A \<in> {32, 64}" "it_bits B \<in> {32, 64}"
  shows "type_max A \<le> type_max (common_type A B)" "type_max B \<le> type_max (common_type A B)" "0 < it_bits (common_type A B)"
  using assms by (cases A; cases B; auto simp: common_type_def type_max_def Let_def)+

lemma sum_unsigned:
  assumes S: "is_type S" and B: "is_type B" and u: "\<not> it_signed (promote S)" "\<not> it_signed (promote B)"
    and a: "0 \<le> a" "a \<le> type_max S" and b: "0 \<le> b" "b \<le> type_max (promote B)"
  shows "IncreaseSumUnsigned S (promote S) (promote B) a b = (if a + b \<le> type_max S then Some (a + b) else None)"
proof -
  let ?AB = "common_type (promote S) (promote B)"
  have S': "promote S = S" "it_bits S \<in> {32, 64}" "\<not> it_signed S" using S u(1) by (auto simp: promote_def is_type_def split: if_splits)
  have B': "it_bits (promote B) \<in> {32, 64}" using promote_max [OF B] by simp
  note room = common_max [OF S'(2) B']
  have unsigned: "\<not> it_signed ?AB" using S' u by (auto simp: common_type_def)
  have ca: "convert ?AB a = a" "convert ?AB b = b" using room a b by (simp_all add: convert_natural S'(1))
  let ?m = "2 ^ it_bits ?AB :: int"
  have max: "type_max ?AB = ?m - 1" using unsigned by (simp add: type_max_def)
  have le: "a < ?m" "b < ?m" "type_max S < ?m" using room a b max by (simp_all add: S'(1))
  have sum: "convert ?AB (a + b) = (a + b) mod ?m" using unsigned by (simp add: convert_def Let_def)
  show ?thesis
  proof (cases "a + b < ?m")
    case True
    then show ?thesis using sum ca a b by (simp add: IncreaseSumUnsigned_def Let_def)
  next
    case False
    have "(a + b) mod ?m = (a + b - ?m) mod ?m" by simp
    also have "\<dots> = a + b - ?m" using False le by (intro mod_pos_pos_trivial) simp_all
    finally have "(a + b) mod ?m = a + b - ?m" .
    then show ?thesis using sum ca False le by (simp add: IncreaseSumUnsigned_def Let_def)
  qed
qed

lemma sum_signed:
  assumes S: "is_type S" and B: "is_type B" and a: "0 \<le> a" "a \<le> type_max S" and b: "b \<le> type_max (promote B)"
  shows "IncreaseSumSigned S (promote S) (promote B) a b = (if 0 \<le> b \<and> a + b \<le> type_max S then Some (a + b) else None)"
proof (cases "b < 0")
  case False
  let ?AB = "common_type (promote S) (promote B)"
  have "it_bits (promote S) \<in> {32, 64}" "it_bits (promote B) \<in> {32, 64}" "type_max S \<le> type_max (promote S)"
    using promote_max [OF S] promote_max [OF B] by simp_all
  note room = common_max [OF this(1,2)] this(3)
  have "convert ?AB (type_max S - a) = type_max S - a" "convert ?AB b = b"
    using room a b False by (simp_all add: convert_natural)
  then have "math_Less (promote S) (promote B) (type_max S - a) b \<longleftrightarrow> type_max S - a < b"
    using a False by (simp add: math_Less_def Let_def)
  moreover have "a + b \<le> type_max S \<Longrightarrow> convert S (a + b) = a + b"
    using a False S by (intro convert_natural) (auto simp: is_type_def)
  ultimately show ?thesis using a False by (auto simp: IncreaseSumSigned_def)
qed (simp add: IncreaseSumSigned_def)

definition typed :: "int_type \<times> int \<Rightarrow> bool" where
  "typed arg \<longleftrightarrow> is_type (fst arg) \<and> in_type (fst arg) (snd arg)"

lemma sum_internal:
  assumes S: "is_type S" and T: "typed (T, t)" and s: "0 \<le> s" "s \<le> type_max S"
  shows "IncreaseSumInternal S (promote S) (promote T) s t = (if 0 \<le> t \<and> s + t \<le> type_max S then Some (s + t) else None)"
proof -
  have T': "is_type T" "t \<le> type_max (promote T)" "type_min T \<le> t"
    using T promote_max [of T] by (auto simp: typed_def in_type_def)
  have "0 \<le> t" if "\<not> it_signed (promote T)"
    using that T'(3) by (auto simp: promote_def type_min_def split: if_splits)
  then show ?thesis using sum_unsigned [OF S T'(1) _ _ s _ T'(2)] sum_signed [OF S T'(1) s T'(2)]
    by (auto simp: IncreaseSumInternal_def)
qed

lemma increase_sum:
  assumes "is_type S" "list_all typed args" "0 \<le> s" "s \<le> type_max S"
  shows "IncreaseSum S s args =
    (if list_all (\<lambda>arg. 0 \<le> snd arg) args \<and> s + sum_list (map snd args) \<le> type_max S
     then Some (s + sum_list (map snd args)) else None)"
  using assms(2-)
proof (induction args arbitrary: s)
  case (Cons arg args)
  obtain T t where arg: "arg = (T, t)" by fastforce
  have nn: "list_all (\<lambda>arg. 0 \<le> snd arg) args \<Longrightarrow> 0 \<le> sum_list (map snd args)"
    by (intro sum_list_nonneg) (auto simp: list_all_iff)
  note one = sum_internal [OF assms(1), of T t s]
  show ?case
  proof (cases "0 \<le> t \<and> s + t \<le> type_max S")
    case True
    then show ?thesis using Cons arg one by (simp add: add.assoc)
  next
    case False
    then show ?thesis using Cons.prems arg one nn by auto
  qed
qed (use assms in simp)

text \<open>C29. Exact sums: for arguments of any integer types, the sum in a given type is the mathematical sum if no
  argument is negative and the sum fits the type, and nothing otherwise.\<close>

theorem natural_sum_exact:
  assumes "is_type S" "list_all typed args"
  shows "NaturalSum S args =
    (if list_all (\<lambda>arg. 0 \<le> snd arg) args \<and> sum_list (map snd args) \<le> type_max S then Some (sum_list (map snd args)) else None)"
proof -
  have "0 \<le> type_max S" using assms(1) by (cases S) (auto simp: is_type_def type_max_def)
  then show ?thesis using increase_sum [OF assms, of 0] by (simp add: NaturalSum_def)
qed

theorem natural_sum_exact_witness:
  "NaturalSum (IntType 8 False) [(IntType 64 False, 200), (IntType 16 True, 55)] = Some 255 \<and>
   NaturalSum (IntType 8 False) [(IntType 64 False, 200), (IntType 16 True, 56)] = None"
  using natural_sum_exact [of "IntType 8 False" "[(IntType 64 False, 200), (IntType 16 True, 55)]"]
    natural_sum_exact [of "IntType 8 False" "[(IntType 64 False, 200), (IntType 16 True, 56)]"]
  by (simp add: is_type_def typed_def in_type_def type_max_def type_min_def)

end
