(* ===== verification/Clp_Map.thy ===== *)
theory Clp_Map
  imports Safe_Math
begin

text \<open>
  \<^verbatim>\<open>src/base/ClpMap.h\<close>: the cache with a memory limit, a lifetime for each entry, and purging of the least
  recently used entries. The entries are the nodes of a list, and an index maps each key to its node; a list
  iterator is the address of a node, and nodes live in an explicit memory. The sizes of a key, a value and
  the fixed parts of the containers, which depend on the template arguments and the compiler,
  are parameters. The current time \<^verbatim>\<open>squid_curtime\<close> is an argument. Memory counters are
  64-bit. The purging loop runs on fuel; \<open>None\<close> is a loop that does not end.
\<close>

definition wrap64 :: "int \<Rightarrow> nat" where
  "wrap64 x = nat (x mod 18446744073709551616)"

abbreviation u64 :: int_type where
  "u64 \<equiv> IntType 64 False"

abbreviation i64 :: int_type where
  "i64 \<equiv> IntType 64 True"

abbreviation i32 :: int_type where
  "i32 \<equiv> IntType 32 True"

record ('k, 'v) clp_sizes =
  sz_key :: "'k \<Rightarrow> nat"
  sz_value :: "'v \<Rightarrow> nat"
  sz_entry :: nat
  sz_index :: nat

record ('k, 'v) clp_entry =
  ce_key :: 'k
  ce_value :: 'v
  ce_expires :: int
  ce_memCounted :: nat

record ('k, 'v) clp_map =
  clp_entries :: "nat list"
  clp_index :: "'k \<Rightarrow> nat option"
  clp_defaultTtl :: int
  clp_memLimit :: nat
  clp_memUsed :: nat
  clp_node :: "nat \<Rightarrow> ('k, 'v) clp_entry option"
  clp_fresh :: nat

abbreviation entry_at :: "('k, 'v) clp_map \<Rightarrow> nat \<Rightarrow> ('k, 'v) clp_entry" where
  "entry_at m a \<equiv> the (clp_node m a)"

definition clp_entry_new :: "int \<Rightarrow> 'k \<Rightarrow> 'v \<Rightarrow> int \<Rightarrow> ('k, 'v) clp_entry" where
  "clp_entry_new now aKey v ttl =
     \<lparr>ce_key = aKey, ce_value = v, ce_expires = SetToNaturalSumOrMax i64 [(i64, now), (i32, ttl)], ce_memCounted = 0\<rparr>"

definition clp_expired :: "int \<Rightarrow> ('k, 'v) clp_entry \<Rightarrow> bool" where
  "clp_expired now e \<longleftrightarrow> ce_expires e < now"

definition clp_freeMem :: "('k, 'v) clp_map \<Rightarrow> nat" where
  "clp_freeMem m = wrap64 (int (clp_memLimit m) - int (clp_memUsed m))"

definition clp_MemoryCountedFor :: "('k, 'v) clp_sizes \<Rightarrow> 'k \<Rightarrow> 'v \<Rightarrow> nat option" where
  "clp_MemoryCountedFor sz k v =
     map_option nat (NaturalSum u64
       [(u64, int (sz_key sz k)), (u64, int (sz_entry sz)), (u64, int (sz_value sz v)), (u64, int (sz_index sz))])"

text \<open>\<^verbatim>\<open>erase()\<close> of the index item of a key, or of the end of the index.\<close>

definition clp_erase :: "'k option \<Rightarrow> ('k, 'v) clp_map \<Rightarrow> (exn + unit) \<times> ('k, 'v) clp_map" where
  "clp_erase i m =
     (case Option.bind i (\<lambda>k. map_option (Pair k) (clp_index m k)) of
        None \<Rightarrow> (Inl (AssertFailure ''i != index_.end()''), m)
      | Some (k, pos) \<Rightarrow>
          if pos \<notin> set (clp_entries m) then (Inl (AssertFailure ''entryPosition != entries_.end()''), m)
          else
            let sz = ce_memCounted (entry_at m pos)
            in if \<not> clp_memUsed m \<ge> sz then (Inl (AssertFailure ''memUsed_ >= sz''), m)
               else (Inr (), m\<lparr>clp_memUsed := clp_memUsed m - sz, clp_index := (clp_index m)(k := None),
                              clp_entries := remove1 pos (clp_entries m), clp_node := (clp_node m)(pos := None)\<rparr>))"

text \<open>\<^verbatim>\<open>find()\<close> returns the position in the index: the key, or nothing for the end.\<close>

definition clp_find :: "int \<Rightarrow> 'k \<Rightarrow> ('k, 'v) clp_map \<Rightarrow> (exn + 'k option) \<times> ('k, 'v) clp_map" where
  "clp_find now key m =
     (case clp_index m key of
        None \<Rightarrow> (Inr None, m)
      | Some pos \<Rightarrow>
          if \<not> clp_expired now (entry_at m pos) then
            (Inr (Some key),
             if hd (clp_entries m) \<noteq> pos then m\<lparr>clp_entries := pos # remove1 pos (clp_entries m)\<rparr> else m)
          else
            (case clp_erase (Some key) m of
               (Inl e, m1) \<Rightarrow> (Inl e, m1)
             | (Inr _, m1) \<Rightarrow> (Inr None, m1)))"

definition clp_get :: "int \<Rightarrow> 'k \<Rightarrow> ('k, 'v) clp_map \<Rightarrow> (exn + 'v option) \<times> ('k, 'v) clp_map" where
  "clp_get now key m =
     (case clp_find now key m of
        (Inl e, m1) \<Rightarrow> (Inl e, m1)
      | (Inr None, m1) \<Rightarrow> (Inr None, m1)
      | (Inr (Some k), m1) \<Rightarrow> (Inr (Some (ce_value (entry_at m1 (the (clp_index m1 k))))), m1))"

definition clp_del :: "int \<Rightarrow> 'k \<Rightarrow> ('k, 'v) clp_map \<Rightarrow> (exn + unit) \<times> ('k, 'v) clp_map" where
  "clp_del now key m =
     (case clp_find now key m of
        (Inl e, m1) \<Rightarrow> (Inl e, m1)
      | (Inr None, m1) \<Rightarrow> (Inr (), m1)
      | (Inr (Some k), m1) \<Rightarrow> clp_erase (Some k) m1)"

fun clp_trim_loop :: "nat \<Rightarrow> int \<Rightarrow> nat \<Rightarrow> ('k, 'v) clp_map \<Rightarrow> ((exn + unit) \<times> ('k, 'v) clp_map) option" where
  "clp_trim_loop 0 now wantSpace m = None"
| "clp_trim_loop (Suc fuel) now wantSpace m =
     (if clp_freeMem m < wantSpace then
        (if clp_entries m = [] then Some (Inl (AssertFailure ''!entries_.empty()''), m)
         else
           case clp_del now (ce_key (entry_at m (last (clp_entries m)))) m of
             (Inl e, m1) \<Rightarrow> Some (Inl e, m1)
           | (Inr _, m1) \<Rightarrow> clp_trim_loop fuel now wantSpace m1)
      else Some (Inr (), m))"

text \<open>Fuel for purging: one round for each entry, and the last test.\<close>

definition clp_trim :: "int \<Rightarrow> nat \<Rightarrow> ('k, 'v) clp_map \<Rightarrow> ((exn + unit) \<times> ('k, 'v) clp_map) option" where
  "clp_trim now wantSpace m =
     (if wantSpace \<le> clp_memLimit m then clp_trim_loop (Suc (length (clp_entries m))) now wantSpace m
      else Some (Inl (AssertFailure ''wantSpace <= memLimit()''), m))"

definition clp_setMemLimit :: "int \<Rightarrow> nat \<Rightarrow> ('k, 'v) clp_map \<Rightarrow> ((exn + unit) \<times> ('k, 'v) clp_map) option" where
  "clp_setMemLimit now newLimit m =
     (case (if clp_memUsed m > newLimit then clp_trim now (wrap64 (int (clp_memLimit m) - int newLimit)) m
            else Some (Inr (), m)) of
        None \<Rightarrow> None
      | Some (Inl e, m1) \<Rightarrow> Some (Inl e, m1)
      | Some (Inr _, m1) \<Rightarrow> Some (Inr (), m1\<lparr>clp_memLimit := newLimit\<rparr>))"

text \<open>The two constructors; without a default lifetime it is the largest \<^verbatim>\<open>int\<close>.\<close>

definition clp_empty :: "int \<Rightarrow> ('k, 'v) clp_map" where
  "clp_empty ttl = \<lparr>clp_entries = [], clp_index = (\<lambda>_. None), clp_defaultTtl = ttl, clp_memLimit = 0, clp_memUsed = 0,
     clp_node = (\<lambda>_. None), clp_fresh = 0\<rparr>"

definition clp_new :: "int \<Rightarrow> nat \<Rightarrow> int option \<Rightarrow> ((exn + unit) \<times> ('k, 'v) clp_map) option" where
  "clp_new now capacity defaultTtl =
     (case defaultTtl of
        None \<Rightarrow> clp_setMemLimit now capacity (clp_empty (type_max i32))
      | Some ttl \<Rightarrow>
          if ttl \<ge> 0 then clp_setMemLimit now capacity (clp_empty ttl)
          else Some (Inl (AssertFailure ''defaultTtl >= 0''), clp_empty ttl))"

definition clp_add :: "('k, 'v) clp_sizes \<Rightarrow> int \<Rightarrow> 'k \<Rightarrow> 'v \<Rightarrow> int \<Rightarrow> ('k, 'v) clp_map \<Rightarrow>
    ((exn + bool) \<times> ('k, 'v) clp_map) option" where
  "clp_add sz now key v ttl m =
     (if clp_memLimit m = 0 then Some (Inr False, m)
      else
        case clp_del now key m of
          (Inl e, m1) \<Rightarrow> Some (Inl e, m1)
        | (Inr _, m1) \<Rightarrow>
            if ttl < 0 then Some (Inr False, m1)
            else
              case clp_MemoryCountedFor sz key v of
                None \<Rightarrow> Some (Inr False, m1)
              | Some wantSpace \<Rightarrow>
                  if wantSpace > clp_memLimit m1 \<or> wantSpace = 0 then Some (Inr False, m1)
                  else
                    case clp_trim now wantSpace m1 of
                      None \<Rightarrow> None
                    | Some (Inl e, m2) \<Rightarrow> Some (Inl e, m2)
                    | Some (Inr _, m2) \<Rightarrow>
                        let a = clp_fresh m2;
                            m3 = m2\<lparr>clp_entries := a # clp_entries m2,
                                    clp_index := (if clp_index m2 key = None then (clp_index m2)(key \<mapsto> a) else clp_index m2),
                                    clp_node := (clp_node m2)(a \<mapsto> (clp_entry_new now key v ttl)\<lparr>ce_memCounted := wantSpace\<rparr>),
                                    clp_memUsed := wrap64 (int (clp_memUsed m2) + int wantSpace),
                                    clp_fresh := Suc a\<rparr>
                        in if clp_memUsed m3 \<ge> wantSpace then Some (Inr True, m3)
                           else Some (Inl (AssertFailure ''memUsed_ >= wantSpace''), m3))"

text \<open>\<^verbatim>\<open>add()\<close> without a lifetime, and the observers.\<close>

definition clp_add_default :: "('k, 'v) clp_sizes \<Rightarrow> int \<Rightarrow> 'k \<Rightarrow> 'v \<Rightarrow> ('k, 'v) clp_map \<Rightarrow>
    ((exn + bool) \<times> ('k, 'v) clp_map) option" where
  "clp_add_default sz now key v m = clp_add sz now key v (clp_defaultTtl m) m"

definition clp_traverse :: "('k, 'v) clp_map \<Rightarrow> ('k, 'v) clp_entry list" where
  "clp_traverse m = map (entry_at m) (clp_entries m)"

end
