(* ===== verification/Clp_Cache.thy ===== *)
theory Clp_Cache
  imports Clp_Map Refinement
begin

text \<open>
  The cache as its entries in the order of their last use, without an index and without nodes. The map implements
  it: entries are found, refreshed, replaced, expired and purged as in that list, the
  memory counter is the sum of the entries' sizes and stays within the limit, and no
  assertion fails.
\<close>

section \<open>The invariant\<close>

definition used_by :: "('k, 'v) clp_entry list \<Rightarrow> nat" where
  "used_by es = sum_list (map ce_memCounted es)"

definition clp_ok :: "('k, 'v) clp_map \<Rightarrow> bool" where
  "clp_ok m \<longleftrightarrow> distinct (clp_entries m) \<and>
     (\<forall>a. clp_node m a \<noteq> None \<longleftrightarrow> a \<in> set (clp_entries m)) \<and> (\<forall>a\<in>set (clp_entries m). a < clp_fresh m) \<and>
     (\<forall>k a. clp_index m k = Some a \<longleftrightarrow> a \<in> set (clp_entries m) \<and> ce_key (entry_at m a) = k) \<and>
     clp_memUsed m = used_by (clp_traverse m) \<and> clp_memUsed m \<le> clp_memLimit m \<and> clp_memLimit m < 18446744073709551616"

definition lookup :: "'k \<Rightarrow> ('k, 'v) clp_entry list \<Rightarrow> ('k, 'v) clp_entry option" where
  "lookup k es = find (\<lambda>e. ce_key e = k) es"

definition without :: "'k \<Rightarrow> ('k, 'v) clp_entry list \<Rightarrow> ('k, 'v) clp_entry list" where
  "without k es = filter (\<lambda>e. ce_key e \<noteq> k) es"

lemma wrap64_id: "x < 18446744073709551616 \<Longrightarrow> wrap64 (int x) = x"
  by (simp add: wrap64_def)

lemma wrap64_diff: "y \<le> x \<Longrightarrow> x < 18446744073709551616 \<Longrightarrow> wrap64 (int x - int y) = x - y"
  by (simp add: wrap64_def nat_diff_distrib flip: of_nat_diff)

lemma clp_keys_distinct: "clp_ok m \<Longrightarrow> distinct (map ce_key (clp_traverse m))"
proof -
  assume ok: "clp_ok m"
  have "inj_on (\<lambda>a. ce_key (entry_at m a)) (set (clp_entries m))"
    using ok by (intro inj_onI) (metis clp_ok_def option.inject)
  then show ?thesis using ok by (simp add: clp_traverse_def distinct_map comp_def clp_ok_def)
qed

text \<open>The index finds the entry of a key, and where it is in the list.\<close>

lemma index_split:
  assumes ok: "clp_ok m" and i: "clp_index m k = Some a"
  obtains xs ys where "clp_entries m = xs @ a # ys" "a \<notin> set xs" "a \<notin> set ys" "ce_key (entry_at m a) = k"
    "lookup k (clp_traverse m) = Some (entry_at m a)"
    "without k (clp_traverse m) = map (entry_at m) (xs @ ys)"
proof -
  have a: "a \<in> set (clp_entries m)" "ce_key (entry_at m a) = k" using ok i by (auto simp: clp_ok_def)
  then obtain xs ys where e: "clp_entries m = xs @ a # ys" by (meson split_list)
  have d: "a \<notin> set xs" "a \<notin> set ys" using ok e by (auto simp: clp_ok_def)
  have other: "ce_key (entry_at m b) \<noteq> k" if "b \<in> set xs \<union> set ys" for b
  proof
    assume "ce_key (entry_at m b) = k"
    then have "clp_index m k = Some b" using ok that e by (auto simp: clp_ok_def)
    then show False using i d that by auto
  qed
  have "find (\<lambda>e. ce_key e = k) (map (entry_at m) xs @ zs) = find (\<lambda>e. ce_key e = k) zs" for zs
    using other by (induction xs) auto
  then have "lookup k (clp_traverse m) = Some (entry_at m a)" using a(2) by (simp add: lookup_def clp_traverse_def e)
  moreover have "without k (clp_traverse m) = map (entry_at m) (xs @ ys)"
  proof -
    have "filter (\<lambda>e. ce_key e \<noteq> k) (map (entry_at m) zs) = map (entry_at m) zs" if "set zs \<subseteq> set xs \<union> set ys" for zs
      using other that by (auto simp: filter_id_conv)
    then show ?thesis using a(2) by (simp add: without_def clp_traverse_def e)
  qed
  ultimately show ?thesis using that e d a(2) by blast
qed

lemma index_none:
  assumes ok: "clp_ok m" and i: "clp_index m k = None"
  shows "lookup k (clp_traverse m) = None" "without k (clp_traverse m) = clp_traverse m"
proof -
  have "ce_key e \<noteq> k" if "e \<in> set (clp_traverse m)" for e
  proof
    assume "ce_key e = k"
    with that obtain a where "a \<in> set (clp_entries m)" "ce_key (entry_at m a) = k" by (auto simp: clp_traverse_def)
    then have "clp_index m k = Some a" using ok by (auto simp: clp_ok_def)
    then show False using i by simp
  qed
  then show "lookup k (clp_traverse m) = None" "without k (clp_traverse m) = clp_traverse m"
    by (auto simp: lookup_def without_def find_None_iff filter_id_conv)
qed

section \<open>The operations\<close>

definition keeps :: "('k, 'v) clp_map \<Rightarrow> ('k, 'v) clp_entry list \<Rightarrow> ('k, 'v) clp_map \<Rightarrow> bool" where
  "keeps m es m' \<longleftrightarrow> clp_ok m' \<and> clp_traverse m' = es \<and> clp_memLimit m' = clp_memLimit m \<and> clp_defaultTtl m' = clp_defaultTtl m"

lemma keeps_trans: "keeps m es m1 \<Longrightarrow> keeps m1 es' m2 \<Longrightarrow> keeps m es' m2"
  by (simp add: keeps_def)

lemma erase_ok:
  assumes ok: "clp_ok m" and i: "clp_index m k = Some a"
  shows "\<exists>m'. clp_erase (Some k) m = (Inr (), m') \<and> keeps m (without k (clp_traverse m)) m'"
proof -
  obtain xs ys where e: "clp_entries m = xs @ a # ys" "a \<notin> set xs" "a \<notin> set ys" "ce_key (entry_at m a) = k"
    "without k (clp_traverse m) = map (entry_at m) (xs @ ys)" using index_split [OF ok i] by metis
  let ?sz = "ce_memCounted (entry_at m a)"
  have used: "clp_memUsed m = used_by (map (entry_at m) (xs @ ys)) + ?sz" using ok e(1) by (simp add: clp_ok_def used_by_def clp_traverse_def)
  let ?m = "m\<lparr>clp_memUsed := clp_memUsed m - ?sz, clp_index := (clp_index m)(k := None), clp_entries := xs @ ys,
    clp_node := (clp_node m)(a := None)\<rparr>"
  have "remove1 a (clp_entries m) = xs @ ys" using e by (simp add: remove1_append)
  then have run: "clp_erase (Some k) m = (Inr (), ?m)" using i e(1) used by (simp add: clp_erase_def Let_def)
  have same: "map (entry_at ?m) (xs @ ys) = map (entry_at m) (xs @ ys)" using e(2,3) by auto
  then have tr: "clp_traverse ?m = without k (clp_traverse m)" using e(5) by (simp add: clp_traverse_def)
  have "clp_ok ?m"
  proof -
    have "clp_index ?m x = Some b \<longleftrightarrow> b \<in> set (clp_entries ?m) \<and> ce_key (entry_at ?m b) = x" for x b
    proof -
      have idx: "clp_index m y = Some b \<longleftrightarrow> b \<in> set (clp_entries m) \<and> ce_key (entry_at m b) = y" for y using ok by (simp add: clp_ok_def)
      show ?thesis using idx [of x] idx [of k] i e(1-4) by (cases "b = a"; cases "x = k") auto
    qed
    moreover have "clp_memUsed ?m = used_by (clp_traverse ?m)" using used tr e(5) by simp
    ultimately show ?thesis using ok e(1-3) by (auto simp: clp_ok_def)
  qed
  then show ?thesis using run tr by (simp add: keeps_def)
qed

lemma find_ok:
  assumes ok: "clp_ok m"
  shows "case lookup k (clp_traverse m) of
      None \<Rightarrow> clp_find now k m = (Inr None, m) \<and> without k (clp_traverse m) = clp_traverse m
    | Some e \<Rightarrow>
        if clp_expired now e then \<exists>m'. clp_find now k m = (Inr None, m') \<and> keeps m (without k (clp_traverse m)) m'
        else \<exists>m' a. clp_find now k m = (Inr (Some k), m') \<and> keeps m (e # without k (clp_traverse m)) m' \<and>
          clp_index m' k = Some a \<and> entry_at m' a = e"
proof (cases "clp_index m k")
  case None
  then show ?thesis using index_none [OF ok None] by (simp add: clp_find_def)
next
  case (Some a)
  obtain xs ys where e: "clp_entries m = xs @ a # ys" "a \<notin> set xs" "a \<notin> set ys" "ce_key (entry_at m a) = k"
    "lookup k (clp_traverse m) = Some (entry_at m a)" "without k (clp_traverse m) = map (entry_at m) (xs @ ys)"
    using index_split [OF ok Some] by metis
  show ?thesis
  proof (cases "clp_expired now (entry_at m a)")
    case True
    then show ?thesis using erase_ok [OF ok Some] Some e(5) by (auto simp: clp_find_def)
  next
    case False
    let ?m = "m\<lparr>clp_entries := a # xs @ ys\<rparr>"
    have "(if hd (clp_entries m) \<noteq> a then m\<lparr>clp_entries := a # remove1 a (clp_entries m)\<rparr> else m) = ?m"
      using e(1-3) by (cases xs) (auto simp: remove1_append)
    then have run: "clp_find now k m = (Inr (Some k), ?m)" using Some False by (simp add: clp_find_def)
    have "clp_ok ?m" using ok e(1-3) by (auto simp: clp_ok_def used_by_def clp_traverse_def)
    then show ?thesis using run False e Some by (simp add: keeps_def clp_traverse_def)
  qed
qed

lemma get_ok:
  assumes ok: "clp_ok m"
  shows "\<exists>m'. (case lookup k (clp_traverse m) of
      None \<Rightarrow> clp_get now k m = (Inr None, m') \<and> keeps m (clp_traverse m) m'
    | Some e \<Rightarrow>
        if clp_expired now e then clp_get now k m = (Inr None, m') \<and> keeps m (without k (clp_traverse m)) m'
        else clp_get now k m = (Inr (Some (ce_value e)), m') \<and> keeps m (e # without k (clp_traverse m)) m')"
  using find_ok [OF ok, of now k] ok
  by (cases "lookup k (clp_traverse m)") (fastforce simp: clp_get_def keeps_def split: if_splits)+

lemma without_idem: "without k (e # without k es) = without k (e # es)" "without k (without k es) = without k es"
  by (simp_all add: without_def)

lemma lookup_key: "lookup k es = Some e \<Longrightarrow> ce_key e = k"
  by (auto simp: lookup_def find_Some_iff)

lemma del_ok:
  assumes ok: "clp_ok m"
  shows "\<exists>m'. clp_del now k m = (Inr (), m') \<and> keeps m (without k (clp_traverse m)) m'"
proof (cases "lookup k (clp_traverse m)")
  case None
  then show ?thesis using find_ok [OF ok, of now k] ok by (simp add: clp_del_def keeps_def)
next
  case (Some e)
  show ?thesis
  proof (cases "clp_expired now e")
    case True
    then show ?thesis using find_ok [OF ok, of now k] Some by (auto simp: clp_del_def)
  next
    case False
    with find_ok [OF ok, of now k] Some obtain m1 a where m1: "clp_find now k m = (Inr (Some k), m1)"
      "keeps m (e # without k (clp_traverse m)) m1" "clp_index m1 k = Some a" by auto
    have "clp_ok m1" using m1(2) by (simp add: keeps_def)
    from erase_ok [OF this m1(3)] m1 lookup_key [OF Some] show ?thesis
      by (auto simp: clp_del_def keeps_def without_idem) (simp add: without_def)
  qed
qed

section \<open>Purging\<close>

text \<open>The entries, from the last used on, that fit in \<open>n\<close> bytes.\<close>

fun fit :: "nat \<Rightarrow> ('k, 'v) clp_entry list \<Rightarrow> ('k, 'v) clp_entry list" where
  "fit n [] = []"
| "fit n (e # es) = (if ce_memCounted e \<le> n then e # fit (n - ce_memCounted e) es else [])"

lemma used_by_simps [simp]: "used_by [] = 0" "used_by (e # es) = ce_memCounted e + used_by es" "used_by (es @ es') = used_by es + used_by es'"
  by (simp_all add: used_by_def)

lemma fit_all: "used_by es \<le> n \<Longrightarrow> fit n es = es"
  by (induction es arbitrary: n) auto

lemma fit_used: "used_by (fit n es) \<le> n"
proof (induction es arbitrary: n)
  case (Cons e es)
  from Cons.IH [of "n - ce_memCounted e"] show ?case by auto
qed simp

lemma fit_butlast: "n < used_by es \<Longrightarrow> fit n (butlast es) = fit n es"
proof (induction es arbitrary: n)
  case (Cons e es)
  then show ?case by (cases es) auto
qed simp

lemma without_last:
  assumes "distinct (map ce_key es)" "es \<noteq> []" shows "without (ce_key (last es)) es = butlast es"
proof -
  have "distinct (map ce_key (butlast es @ [last es]))" using assms by simp
  then have "\<forall>e\<in>set (butlast es). ce_key e \<noteq> ce_key (last es)" by (simp, metis imageI)
  then have "without (ce_key (last es)) (butlast es @ [last es]) = butlast es" by (simp add: without_def filter_id_conv)
  then show ?thesis using assms(2) by simp
qed

lemma trim_loop_ok:
  assumes "clp_ok m" "want \<le> clp_memLimit m" "length (clp_entries m) < fuel"
  shows "\<exists>m'. clp_trim_loop fuel now want m = Some (Inr (), m') \<and> keeps m (fit (clp_memLimit m - want) (clp_traverse m)) m'"
  using assms
proof (induction fuel arbitrary: m)
  case (Suc fuel)
  let ?es = "clp_traverse m"
  have used: "clp_memUsed m = used_by ?es" "clp_memUsed m \<le> clp_memLimit m" "clp_memLimit m < 18446744073709551616"
    using Suc.prems(1) by (simp_all add: clp_ok_def)
  have free: "clp_freeMem m = clp_memLimit m - used_by ?es" using used by (simp add: clp_freeMem_def wrap64_diff)
  show ?case
  proof (cases "clp_freeMem m < want")
    case False
    then have "fit (clp_memLimit m - want) ?es = ?es" using free used Suc.prems(2) by (intro fit_all) simp
    then show ?thesis using False Suc.prems(1) by (simp add: keeps_def)
  next
    case True
    then have over: "clp_memLimit m - want < used_by ?es" using free used Suc.prems(2) by simp
    then have ne: "?es \<noteq> []" "clp_entries m \<noteq> []" by (auto simp: clp_traverse_def)
    have key: "ce_key (entry_at m (last (clp_entries m))) = ce_key (last ?es)" using ne by (simp add: clp_traverse_def last_map)
    obtain m1 where m1: "clp_del now (ce_key (last ?es)) m = (Inr (), m1)" "keeps m (butlast ?es) m1"
      using del_ok [OF Suc.prems(1), of now "ce_key (last ?es)"] without_last [OF clp_keys_distinct [OF Suc.prems(1)] ne(1)] by auto
    have "length (clp_entries m1) = length (clp_traverse m1)" "length (clp_entries m) = length ?es" by (simp_all add: clp_traverse_def)
    moreover obtain x xs where "?es = x # xs" using ne(1) by (cases ?es) auto
    ultimately have "clp_ok m1" "want \<le> clp_memLimit m1" "length (clp_entries m1) < fuel"
      using m1(2) Suc.prems(2,3) by (simp_all add: keeps_def)
    from Suc.IH [OF this] True ne key m1 fit_butlast [OF over] show ?thesis by (auto simp: keeps_def)
  qed
qed simp

lemma trim_ok:
  assumes "clp_ok m" "want \<le> clp_memLimit m"
  shows "\<exists>m'. clp_trim now want m = Some (Inr (), m') \<and> keeps m (fit (clp_memLimit m - want) (clp_traverse m)) m'"
  using trim_loop_ok [OF assms lessI] assms(2) by (simp add: clp_trim_def del: clp_trim_loop.simps)

lemma clp_ok_limit: "clp_ok m \<Longrightarrow> clp_memUsed m \<le> n \<Longrightarrow> n < 18446744073709551616 \<Longrightarrow> clp_ok (m\<lparr>clp_memLimit := n\<rparr>)"
  by (simp add: clp_ok_def clp_traverse_def)

lemma setMemLimit_ok:
  assumes ok: "clp_ok m" and n: "n < 18446744073709551616"
  shows "\<exists>m'. clp_setMemLimit now n m = Some (Inr (), m') \<and> clp_ok m' \<and> clp_traverse m' = fit n (clp_traverse m) \<and>
    clp_memLimit m' = n \<and> clp_defaultTtl m' = clp_defaultTtl m"
proof (cases "clp_memUsed m > n")
  case True
  then have "n < clp_memLimit m" "clp_memLimit m < 18446744073709551616" using ok by (simp_all add: clp_ok_def)
  then have w: "wrap64 (int (clp_memLimit m) - int n) = clp_memLimit m - n" "clp_memLimit m - (clp_memLimit m - n) = n"
    by (simp_all add: wrap64_diff)
  obtain m1 where m1: "clp_trim now (clp_memLimit m - n) m = Some (Inr (), m1)" "keeps m (fit n (clp_traverse m)) m1"
    using trim_ok [OF ok, of "clp_memLimit m - n" now] w(2) by auto
  have "clp_memUsed m1 \<le> n" using m1(2) fit_used [of n "clp_traverse m"] by (auto simp: keeps_def clp_ok_def)
  then show ?thesis using True w(1) m1 clp_ok_limit [OF _ _ n, of m1]
    by (auto simp: clp_setMemLimit_def keeps_def) (simp add: clp_traverse_def)
next
  case False
  then have "used_by (clp_traverse m) \<le> n" using ok by (simp add: clp_ok_def)
  then show ?thesis using False clp_ok_limit [OF ok _ n] by (simp add: clp_setMemLimit_def fit_all) (simp add: clp_traverse_def)
qed

section \<open>Adding\<close>

text \<open>The memory an entry counts for, and the time after which it is stale.\<close>

definition cost :: "('k, 'v) clp_sizes \<Rightarrow> 'k \<Rightarrow> 'v \<Rightarrow> nat" where
  "cost sz k v = sz_key sz k + sz_entry sz + sz_value sz v + sz_index sz"

definition stale_after :: "int \<Rightarrow> int \<Rightarrow> int" where
  "stale_after now ttl = min (now + ttl) 9223372036854775807"

definition sizes_ok :: "('k, 'v) clp_sizes \<Rightarrow> 'k \<Rightarrow> 'v \<Rightarrow> bool" where
  "sizes_ok sz k v \<longleftrightarrow> list_all (\<lambda>n. n < 18446744073709551616) [sz_key sz k, sz_entry sz, sz_value sz v, sz_index sz]"

definition time_ok :: "int \<Rightarrow> bool" where
  "time_ok now \<longleftrightarrow> 0 \<le> now \<and> now \<le> 9223372036854775807"

definition ttl_ok :: "int \<Rightarrow> bool" where
  "ttl_ok ttl \<longleftrightarrow> - 2147483648 \<le> ttl \<and> ttl \<le> 2147483647"

lemma counted: "sizes_ok sz k v \<Longrightarrow> clp_MemoryCountedFor sz k v = (if cost sz k v < 18446744073709551616 then Some (cost sz k v) else None)"
proof -
  assume sz: "sizes_ok sz k v"
  let ?args = "[(u64, int (sz_key sz k)), (u64, int (sz_entry sz)), (u64, int (sz_value sz v)), (u64, int (sz_index sz))]"
  have "list_all typed ?args" "is_type u64"
    using sz by (auto simp: typed_def is_type_def in_type_def type_min_def type_max_def sizes_ok_def)
  from increase_sum [OF this(2,1), of 0] have "NaturalSum u64 ?args = (if int (cost sz k v) \<le> 18446744073709551615 then Some (int (cost sz k v)) else None)"
    by (simp add: NaturalSum_def type_max_def cost_def add.assoc)
  then show ?thesis by (simp add: clp_MemoryCountedFor_def)
qed

lemma entry_new: "time_ok now \<Longrightarrow> ttl_ok ttl \<Longrightarrow> 0 \<le> ttl \<Longrightarrow> ce_expires (clp_entry_new now k v ttl) = stale_after now ttl"
proof -
  assume t: "time_ok now" "ttl_ok ttl" "0 \<le> ttl"
  have "list_all typed [(i64, now), (i32, ttl)]" "is_type i64"
    using t by (auto simp: typed_def is_type_def in_type_def type_min_def type_max_def time_ok_def ttl_ok_def)
  from increase_sum [OF this(2,1), of 0] show ?thesis
    using t by (simp add: clp_entry_new_def SetToNaturalSumOrMax_def NaturalSum_def type_max_def time_ok_def stale_after_def min_def)
qed

definition added_entry :: "('k, 'v) clp_sizes \<Rightarrow> int \<Rightarrow> 'k \<Rightarrow> 'v \<Rightarrow> int \<Rightarrow> ('k, 'v) clp_entry" where
  "added_entry sz now k v ttl = \<lparr>ce_key = k, ce_value = v, ce_expires = stale_after now ttl, ce_memCounted = cost sz k v\<rparr>"

lemma lookup_without: "lookup k (fit n (without k es)) = None"
proof -
  have "set (fit n es) \<subseteq> set es" for es :: "('a, 'b) clp_entry list" by (induction es arbitrary: n) auto
  then have "set (fit n (without k es)) \<subseteq> set (without k es)" by blast
  then show ?thesis by (auto simp: lookup_def find_None_iff without_def)
qed

lemma push_ok:
  assumes ok: "clp_ok m" and new: "lookup (ce_key e) (clp_traverse m) = None"
    and room: "clp_memUsed m + ce_memCounted e \<le> clp_memLimit m"
  defines "m' \<equiv> m\<lparr>clp_entries := clp_fresh m # clp_entries m,
    clp_index := (if clp_index m (ce_key e) = None then (clp_index m)(ce_key e \<mapsto> clp_fresh m) else clp_index m),
    clp_node := (clp_node m)(clp_fresh m \<mapsto> e), clp_memUsed := clp_memUsed m + ce_memCounted e, clp_fresh := Suc (clp_fresh m)\<rparr>"
  shows "keeps m (e # clp_traverse m) m'"
proof -
  let ?a = "clp_fresh m" and ?k = "ce_key e"
  have fresh: "?a \<notin> set (clp_entries m)" using ok by (auto simp: clp_ok_def)
  have none: "clp_index m ?k = None"
  proof (rule ccontr)
    assume "clp_index m ?k \<noteq> None"
    then show False using new index_split [OF ok] by (metis not_None_eq)
  qed
  have idx: "clp_index m k = Some a \<longleftrightarrow> a \<in> set (clp_entries m) \<and> ce_key (entry_at m a) = k" for k a using ok by (simp add: clp_ok_def)
  have tr: "clp_traverse m' = e # clp_traverse m" using fresh by (auto simp: m'_def clp_traverse_def)
  have "clp_index m' k = Some a \<longleftrightarrow> a \<in> set (clp_entries m') \<and> ce_key (entry_at m' a) = k" for k a
    using idx [of k a] idx [of ?k a] none fresh by (cases "a = ?a"; cases "k = ?k") (auto simp: m'_def)
  moreover have "clp_memUsed m' = used_by (clp_traverse m')" using ok tr by (simp add: m'_def clp_ok_def)
  ultimately have "clp_ok m'" using ok fresh room
    by (auto simp: clp_ok_def m'_def)
  then show ?thesis using tr by (simp add: keeps_def) (simp add: m'_def)
qed

lemma add_ok:
  assumes ok: "clp_ok m" and args: "sizes_ok sz k v" "time_ok now" "ttl_ok ttl"
  defines "fits \<equiv> 0 \<le> ttl \<and> 0 < cost sz k v \<and> cost sz k v \<le> clp_memLimit m"
  shows "\<exists>m'. clp_add sz now k v ttl m = Some (Inr (clp_memLimit m \<noteq> 0 \<and> fits), m') \<and>
    keeps m (if clp_memLimit m = 0 then clp_traverse m
             else if fits then added_entry sz now k v ttl # fit (clp_memLimit m - cost sz k v) (without k (clp_traverse m))
             else without k (clp_traverse m)) m'"
proof (cases "clp_memLimit m = 0")
  case True
  then show ?thesis using ok by (simp add: clp_add_def keeps_def)
next
  case False
  let ?w = "cost sz k v"
  obtain m1 where m1: "clp_del now k m = (Inr (), m1)" "keeps m (without k (clp_traverse m)) m1" using del_ok [OF ok] by blast
  have lim: "clp_memLimit m1 = clp_memLimit m" "clp_memLimit m < 18446744073709551616" "clp_ok m1"
    using m1(2) ok unfolding keeps_def clp_ok_def by blast+
  show ?thesis
  proof (cases fits)
    case f: False
    then show ?thesis using False m1 lim counted [OF args(1)] by (auto simp: clp_add_def fits_def)
  next
    case True
    then have w: "0 \<le> ttl" "0 < ?w" "?w \<le> clp_memLimit m1" "?w < 18446744073709551616" using lim by (simp_all add: fits_def)
    obtain m2 where m2: "clp_trim now ?w m1 = Some (Inr (), m2)"
      "keeps m1 (fit (clp_memLimit m - ?w) (without k (clp_traverse m))) m2"
      using trim_ok [OF lim(3) w(3), of now] m1(2) lim(1) by (auto simp: keeps_def)
    let ?e = "added_entry sz now k v ttl"
    have e: "(clp_entry_new now k v ttl)\<lparr>ce_memCounted := ?w\<rparr> = ?e" "ce_key ?e = k" "ce_memCounted ?e = ?w"
      using entry_new [OF args(2,3) w(1), of k v] by (simp_all add: added_entry_def) (simp add: clp_entry_new_def)
    have ok2: "clp_ok m2" "clp_traverse m2 = fit (clp_memLimit m - ?w) (without k (clp_traverse m))" "clp_memLimit m2 = clp_memLimit m"
      using m2(2) lim(1) by (simp_all add: keeps_def)
    have used: "clp_memUsed m2 + ?w \<le> clp_memLimit m2"
      using ok2 fit_used [of "clp_memLimit m - ?w" "without k (clp_traverse m)"] w(3) lim(1) by (simp add: clp_ok_def)
    then have sum: "wrap64 (int (clp_memUsed m2) + int ?w) = clp_memUsed m2 + ?w"
      using wrap64_id [of "clp_memUsed m2 + ?w"] lim(2) ok2(3) by simp
    have "lookup (ce_key ?e) (clp_traverse m2) = None" using lookup_without ok2(2) e(2) by metis
    note push = push_ok [OF ok2(1) this, unfolded e(2,3), OF used]
    let ?m3 = "m2\<lparr>clp_entries := clp_fresh m2 # clp_entries m2,
        clp_index := (if clp_index m2 k = None then (clp_index m2)(k \<mapsto> clp_fresh m2) else clp_index m2),
        clp_node := (clp_node m2)(clp_fresh m2 \<mapsto> ?e), clp_memUsed := clp_memUsed m2 + ?w, clp_fresh := Suc (clp_fresh m2)\<rparr>"
    have "clp_add sz now k v ttl m = Some (Inr True, ?m3)"
      using False m1(1) m2(1) w counted [OF args(1)] by (simp add: clp_add_def Let_def e(1) sum)
    moreover have "keeps m (?e # fit (clp_memLimit m - ?w) (without k (clp_traverse m))) ?m3"
      using keeps_trans [OF keeps_trans [OF m1(2) m2(2)] push] unfolding ok2(2) .
    ultimately show ?thesis using False True by auto
  qed
qed

section \<open>The cache as a list\<close>

datatype ('k, 'v) clp_command =
    ClpGet int 'k | ClpAdd int 'k 'v int | ClpAddDefault int 'k 'v | ClpDel int 'k | ClpSetMemLimit int nat

datatype 'v clp_reply = Got "'v option" | Added bool | Finished | Broken

definition clp_call :: "('a \<Rightarrow> 'v clp_reply) \<Rightarrow> ((exn + 'a) \<times> ('k, 'v) clp_map) option \<Rightarrow> ('k, 'v) clp_map \<Rightarrow>
    'v clp_reply \<times> ('k, 'v) clp_map" where
  "clp_call f p m = (case p of None \<Rightarrow> (Broken, m) | Some (Inl e, m') \<Rightarrow> (Broken, m') | Some (Inr x, m') \<Rightarrow> (f x, m'))"

fun clp_exec :: "('k, 'v) clp_sizes \<Rightarrow> ('k, 'v) clp_command \<Rightarrow> ('k, 'v) clp_map \<Rightarrow> 'v clp_reply \<times> ('k, 'v) clp_map" where
  "clp_exec sz (ClpGet now k) m = clp_call Got (Some (clp_get now k m)) m"
| "clp_exec sz (ClpAdd now k v ttl) m = clp_call Added (clp_add sz now k v ttl m) m"
| "clp_exec sz (ClpAddDefault now k v) m = clp_call Added (clp_add_default sz now k v m) m"
| "clp_exec sz (ClpDel now k) m = clp_call (\<lambda>_. Finished) (Some (clp_del now k m)) m"
| "clp_exec sz (ClpSetMemLimit now n) m = clp_call (\<lambda>_. Finished) (clp_setMemLimit now n m) m"

record ('k, 'v) lru_cache =
  lru_entries :: "('k, 'v) clp_entry list"
  lru_limit :: nat
  lru_ttl :: int

fun lru_add :: "('k, 'v) clp_sizes \<Rightarrow> int \<Rightarrow> 'k \<Rightarrow> 'v \<Rightarrow> int \<Rightarrow> ('k, 'v) lru_cache \<Rightarrow> 'v clp_reply \<times> ('k, 'v) lru_cache" where
  "lru_add sz now k v ttl c =
     (if lru_limit c = 0 then (Added False, c)
      else if 0 \<le> ttl \<and> 0 < cost sz k v \<and> cost sz k v \<le> lru_limit c then
        (Added True, c\<lparr>lru_entries := added_entry sz now k v ttl # fit (lru_limit c - cost sz k v) (without k (lru_entries c))\<rparr>)
      else (Added False, c\<lparr>lru_entries := without k (lru_entries c)\<rparr>))"

fun lru_spec :: "('k, 'v) clp_sizes \<Rightarrow> ('k, 'v) clp_command \<Rightarrow> ('k, 'v) lru_cache \<Rightarrow> 'v clp_reply \<times> ('k, 'v) lru_cache" where
  "lru_spec sz (ClpGet now k) c =
     (case lookup k (lru_entries c) of
        None \<Rightarrow> (Got None, c)
      | Some e \<Rightarrow>
          if clp_expired now e then (Got None, c\<lparr>lru_entries := without k (lru_entries c)\<rparr>)
          else (Got (Some (ce_value e)), c\<lparr>lru_entries := e # without k (lru_entries c)\<rparr>))"
| "lru_spec sz (ClpAdd now k v ttl) c = lru_add sz now k v ttl c"
| "lru_spec sz (ClpAddDefault now k v) c = lru_add sz now k v (lru_ttl c) c"
| "lru_spec sz (ClpDel now k) c = (Finished, c\<lparr>lru_entries := without k (lru_entries c)\<rparr>)"
| "lru_spec sz (ClpSetMemLimit now n) c = (Finished, c\<lparr>lru_entries := fit n (lru_entries c), lru_limit := n\<rparr>)"

text \<open>The calls that are made: times from the epoch on, and numbers of their C++ types.\<close>

fun lru_legal :: "('k, 'v) clp_sizes \<Rightarrow> ('k, 'v) clp_command \<Rightarrow> ('k, 'v) lru_cache \<Rightarrow> bool" where
  "lru_legal sz (ClpGet now k) c \<longleftrightarrow> True"
| "lru_legal sz (ClpAdd now k v ttl) c \<longleftrightarrow> sizes_ok sz k v \<and> time_ok now \<and> ttl_ok ttl"
| "lru_legal sz (ClpAddDefault now k v) c \<longleftrightarrow> sizes_ok sz k v \<and> time_ok now \<and> ttl_ok (lru_ttl c)"
| "lru_legal sz (ClpDel now k) c \<longleftrightarrow> True"
| "lru_legal sz (ClpSetMemLimit now n) c \<longleftrightarrow> n < 18446744073709551616"

definition lru_of :: "('k, 'v) clp_map \<Rightarrow> ('k, 'v) lru_cache" where
  "lru_of m = \<lparr>lru_entries = clp_traverse m, lru_limit = clp_memLimit m, lru_ttl = clp_defaultTtl m\<rparr>"

lemma lru_of_keeps: "keeps m es m' \<Longrightarrow> lru_of m' = (lru_of m)\<lparr>lru_entries := es\<rparr> \<and> clp_ok m'"
  by (simp add: keeps_def lru_of_def)

lemma exec_add:
  assumes "clp_ok m" "sizes_ok sz k v" "time_ok now" "ttl_ok ttl"
  shows "clp_ok (snd (clp_call Added (clp_add sz now k v ttl m) m)) \<and>
    fst (clp_call Added (clp_add sz now k v ttl m) m) = fst (lru_add sz now k v ttl (lru_of m)) \<and>
    lru_of (snd (clp_call Added (clp_add sz now k v ttl m) m)) = snd (lru_add sz now k v ttl (lru_of m))"
  using add_ok [OF assms] lru_of_keeps [of m]
  by (fastforce simp: clp_call_def lru_of_def split: if_splits)

lemma exec_refines:
  assumes ok: "clp_ok m" and c: "lru_legal sz c (lru_of m)"
  shows "clp_ok (snd (clp_exec sz c m)) \<and> fst (clp_exec sz c m) = fst (lru_spec sz c (lru_of m)) \<and>
    lru_of (snd (clp_exec sz c m)) = snd (lru_spec sz c (lru_of m))"
proof (cases c)
  case (ClpGet now k)
  then show ?thesis using get_ok [OF ok, of now k] lru_of_keeps [of m]
    by (cases "lookup k (clp_traverse m)") (fastforce simp: clp_call_def lru_of_def split: if_splits)+
next
  case (ClpAdd now k v ttl)
  then show ?thesis using exec_add [OF ok] c by simp
next
  case (ClpAddDefault now k v)
  then show ?thesis using exec_add [OF ok, of sz k v now "clp_defaultTtl m"] c by (simp add: clp_add_default_def lru_of_def)
next
  case (ClpDel now k)
  then show ?thesis using del_ok [OF ok, of now k] lru_of_keeps [of m] by (fastforce simp: clp_call_def lru_of_def)
next
  case (ClpSetMemLimit now n)
  then show ?thesis using setMemLimit_ok [OF ok, of n now] c by (fastforce simp: clp_call_def lru_of_def)
qed

interpretation clp: implementation clp_ok lru_of "lru_legal sz" "clp_exec sz" "lru_spec sz" for sz :: "('k, 'v) clp_sizes"
  using exec_refines by unfold_locales blast+

section \<open>Correctness of the cache\<close>

definition lru_new :: "nat \<Rightarrow> int \<Rightarrow> ('k, 'v) lru_cache" where
  "lru_new n ttl = \<lparr>lru_entries = [], lru_limit = n, lru_ttl = ttl\<rparr>"

lemma clp_empty_ok: "clp_ok (clp_empty ttl)" "clp_traverse (clp_empty ttl) = []"
  by (simp_all add: clp_ok_def clp_empty_def clp_traverse_def)

lemma clp_new_ok:
  assumes "n < 18446744073709551616" "0 \<le> ttl"
  shows "\<exists>m :: ('k, 'v) clp_map. clp_new now n (Some ttl) = Some (Inr (), m) \<and> clp_ok m \<and> lru_of m = lru_new n ttl"
proof -
  obtain m :: "('k, 'v) clp_map" where "clp_setMemLimit now n (clp_empty ttl) = Some (Inr (), m)" "clp_ok m"
    "clp_traverse m = []" "clp_memLimit m = n" "clp_defaultTtl m = clp_defaultTtl (clp_empty ttl :: ('k, 'v) clp_map)"
    using setMemLimit_ok [OF clp_empty_ok(1) assms(1)] unfolding clp_empty_ok(2) fit.simps(1) by blast
  then show ?thesis using assms(2) by (auto simp: clp_new_def lru_of_def lru_new_def) (simp add: clp_empty_def)
qed

text \<open>C10. The map implements the list: from the constructor on, every sequence of calls gives the answers that the list of entries
  in the order of their last use gives. Entries are found by key while they are fresh; an entry is added in front, and what no longer
  fits behind it is purged, the least recently used first. No assertion fails and purging ends.\<close>

theorem clp_implements_lru:
  fixes sz :: "('k, 'v) clp_sizes"
  assumes "n < 18446744073709551616" "0 \<le> ttl" "all_allowed (lru_legal sz) (lru_spec sz) cs (lru_new n ttl)"
  shows "\<exists>m. clp_new now n (Some ttl) = Some (Inr (), m) \<and>
    fst (run_calls (clp_exec sz) cs m) = fst (run_calls (lru_spec sz) cs (lru_new n ttl)) \<and>
    clp_traverse (snd (run_calls (clp_exec sz) cs m)) = lru_entries (snd (run_calls (lru_spec sz) cs (lru_new n ttl)))"
proof -
  obtain m :: "('k, 'v) clp_map" where m: "clp_new now n (Some ttl) = Some (Inr (), m)" "clp_ok m" "lru_of m = lru_new n ttl"
    using clp_new_ok [OF assms(1,2), of now] by blast
  have "fst (run_calls (clp_exec sz) cs m) = fst (run_calls (lru_spec sz) cs (lru_new n ttl)) \<and>
      lru_of (snd (run_calls (clp_exec sz) cs m)) = snd (run_calls (lru_spec sz) cs (lru_new n ttl))"
    using clp.run_refines [OF m(2)] assms(3) unfolding m(3) by blast
  moreover have "lru_entries (lru_of m') = clp_traverse m'" for m' by (simp add: lru_of_def)
  ultimately show ?thesis using m(1) by metis
qed

definition sample_sizes :: "(string, nat) clp_sizes" where
  "sample_sizes = \<lparr>sz_key = length, sz_value = (\<lambda>_. 8), sz_entry = 40, sz_index = 16\<rparr>"

definition sample_commands :: "(string, nat) clp_command list" where
  "sample_commands = [ClpAdd 100 ''a'' 1 60, ClpAdd 100 ''b'' 2 10, ClpGet 101 ''a'', ClpAdd 102 ''c'' 3 60, ClpGet 103 ''b'',
     ClpGet 103 ''a'', ClpGet 161 ''a'']"

theorem clp_implements_lru_witness:
  "\<exists>m. clp_new 100 140 (Some 60) = Some (Inr (), m) \<and>
    fst (run_calls (clp_exec sample_sizes) sample_commands m) =
      [Added True, Added True, Got (Some 1), Added True, Got None, Got (Some 1), Got None]"
proof -
  have "all_allowed (lru_legal sample_sizes) (lru_spec sample_sizes) sample_commands (lru_new 140 60)"
    "fst (run_calls (lru_spec sample_sizes) sample_commands (lru_new 140 60)) =
      [Added True, Added True, Got (Some 1), Added True, Got None, Got (Some 1), Got None]"
    by (simp_all add: sample_commands_def sample_sizes_def lru_new_def sizes_ok_def time_ok_def ttl_ok_def lookup_def without_def
        added_entry_def cost_def clp_expired_def stale_after_def)
  then show ?thesis using clp_implements_lru [of 140 60 sample_sizes sample_commands 100] by auto
qed

text \<open>C28. The capacity: every call keeps the memory counter equal to the sum of the sizes of the stored entries, within the limit,
  and the index exactly the keys of the stored entries, each stored once.\<close>

theorem clp_capacity:
  assumes "clp_ok m" "lru_legal sz c (lru_of m)"
  defines "m' \<equiv> snd (clp_exec sz c m)"
  shows "clp_memUsed m' = sum_list (map ce_memCounted (clp_traverse m')) \<and> clp_memUsed m' \<le> clp_memLimit m' \<and>
    distinct (map ce_key (clp_traverse m')) \<and> dom (clp_index m') = ce_key ` set (clp_traverse m')"
proof -
  have ok: "clp_ok m'" using exec_refines [OF assms(1,2)] by (simp add: m'_def)
  then have "clp_index m' k = Some a \<longleftrightarrow> a \<in> set (clp_entries m') \<and> ce_key (entry_at m' a) = k" for k a
    by (simp add: clp_ok_def)
  then have "dom (clp_index m') = (\<lambda>a. ce_key (entry_at m' a)) ` set (clp_entries m')" by (auto simp: dom_def)
  then have "dom (clp_index m') = ce_key ` set (clp_traverse m')" by (simp add: clp_traverse_def image_image)
  then show ?thesis using ok clp_keys_distinct [OF ok] by (simp add: clp_ok_def used_by_def)
qed

theorem clp_capacity_witness:
  "clp_memUsed (snd (clp_exec sample_sizes (ClpAdd 100 ''a'' 1 60) ((clp_empty 60)\<lparr>clp_memLimit := 140\<rparr>))) \<le>
   clp_memLimit (snd (clp_exec sample_sizes (ClpAdd 100 ''a'' 1 60) ((clp_empty 60)\<lparr>clp_memLimit := 140\<rparr>)))"
proof -
  have "clp_ok ((clp_empty 60)\<lparr>clp_memLimit := 140\<rparr> :: (string, nat) clp_map)"
    by (rule clp_ok_limit [OF clp_empty_ok(1)]) (simp_all add: clp_empty_def)
  from clp_capacity [OF this, of sample_sizes "ClpAdd 100 ''a'' 1 60"] show ?thesis
    by (simp add: sample_sizes_def sizes_ok_def time_ok_def ttl_ok_def)
qed

text \<open>What was added is found: after a successful call of \<^verbatim>\<open>add()\<close>, the value is returned up to the end of its lifetime and
  no longer. A call that is rejected leaves the key without an entry, also when it had one before.\<close>

lemma clp_get_after_add:
  assumes "clp_ok m" "sizes_ok sz k v" "time_ok now" "ttl_ok ttl" "clp_memLimit m \<noteq> 0"
  shows "\<exists>r m'. clp_add sz now k v ttl m = Some (Inr r, m') \<and>
    (r \<longleftrightarrow> 0 \<le> ttl \<and> 0 < cost sz k v \<and> cost sz k v \<le> clp_memLimit m) \<and>
    (\<forall>t. fst (clp_get t k m') = Inr (if r \<and> t \<le> stale_after now ttl then Some v else None))"
proof -
  let ?r = "0 \<le> ttl \<and> 0 < cost sz k v \<and> cost sz k v \<le> clp_memLimit m"
  obtain m' where m': "clp_add sz now k v ttl m = Some (Inr ?r, m')"
    "keeps m (if ?r then added_entry sz now k v ttl # fit (clp_memLimit m - cost sz k v) (without k (clp_traverse m))
       else without k (clp_traverse m)) m'"
    using add_ok [OF assms(1-4)] assms(5) by auto
  have "lookup k (clp_traverse m') = (if ?r then Some (added_entry sz now k v ttl) else None)"
    using m'(2) by (auto simp: keeps_def lookup_def added_entry_def find_None_iff without_def)
  then have "fst (clp_get t k m') = Inr (if ?r \<and> t \<le> stale_after now ttl then Some v else None)" for t
    using get_ok [of m' t k] m'(2)
    by (cases "?r \<and> t \<le> stale_after now ttl") (auto simp: keeps_def clp_expired_def added_entry_def split: if_splits)
  then show ?thesis using m'(1) by blast
qed

end
