(* ===== verification/Registered_Headers.thy ===== *)
theory Registered_Headers
  imports Squid_Prelude
begin

text \<open>
  \<^verbatim>\<open>http/RegisteredHeaders.h\<close>, \<^verbatim>\<open>http/RegisteredHeaders.cc\<close> and the perfect hash table of header names that \<^verbatim>\<open>gperf\<close> made
  from \<^verbatim>\<open>http/RegisteredHeadersHash.gperf\<close> and that is kept in the source tree as
  \<^verbatim>\<open>http/RegisteredHeadersHash.cci\<close>. The enumeration is unscoped and the code compares its values as integers, so
  a header identity is a number.
\<close>

unbundle bit_operations_syntax

section \<open>Header identities\<close>

type_synonym HdrType = nat

abbreviation (input) ACCEPT :: HdrType where "ACCEPT \<equiv> 0"
abbreviation (input) ACCEPT_CHARSET :: HdrType where "ACCEPT_CHARSET \<equiv> 1"
abbreviation (input) ACCEPT_ENCODING :: HdrType where "ACCEPT_ENCODING \<equiv> 2"
abbreviation (input) ACCEPT_LANGUAGE :: HdrType where "ACCEPT_LANGUAGE \<equiv> 3"
abbreviation (input) ACCEPT_RANGES :: HdrType where "ACCEPT_RANGES \<equiv> 4"
abbreviation (input) AGE :: HdrType where "AGE \<equiv> 5"
abbreviation (input) ALLOW :: HdrType where "ALLOW \<equiv> 6"
abbreviation (input) ALTERNATE_PROTOCOL :: HdrType where "ALTERNATE_PROTOCOL \<equiv> 7"
abbreviation (input) AUTHENTICATION_INFO :: HdrType where "AUTHENTICATION_INFO \<equiv> 8"
abbreviation (input) AUTHORIZATION :: HdrType where "AUTHORIZATION \<equiv> 9"
abbreviation (input) CACHE_CONTROL :: HdrType where "CACHE_CONTROL \<equiv> 10"
abbreviation (input) CACHE_STATUS :: HdrType where "CACHE_STATUS \<equiv> 11"
abbreviation (input) CDN_LOOP :: HdrType where "CDN_LOOP \<equiv> 12"
abbreviation (input) CONNECTION :: HdrType where "CONNECTION \<equiv> 13"
abbreviation (input) CONTENT_BASE :: HdrType where "CONTENT_BASE \<equiv> 14"
abbreviation (input) CONTENT_DISPOSITION :: HdrType where "CONTENT_DISPOSITION \<equiv> 15"
abbreviation (input) CONTENT_ENCODING :: HdrType where "CONTENT_ENCODING \<equiv> 16"
abbreviation (input) CONTENT_LANGUAGE :: HdrType where "CONTENT_LANGUAGE \<equiv> 17"
abbreviation (input) CONTENT_LENGTH :: HdrType where "CONTENT_LENGTH \<equiv> 18"
abbreviation (input) CONTENT_LOCATION :: HdrType where "CONTENT_LOCATION \<equiv> 19"
abbreviation (input) CONTENT_MD5 :: HdrType where "CONTENT_MD5 \<equiv> 20"
abbreviation (input) CONTENT_RANGE :: HdrType where "CONTENT_RANGE \<equiv> 21"
abbreviation (input) CONTENT_TYPE :: HdrType where "CONTENT_TYPE \<equiv> 22"
abbreviation (input) COOKIE :: HdrType where "COOKIE \<equiv> 23"
abbreviation (input) COOKIE2 :: HdrType where "COOKIE2 \<equiv> 24"
abbreviation (input) DATE :: HdrType where "DATE \<equiv> 25"
abbreviation (input) ETAG :: HdrType where "ETAG \<equiv> 26"
abbreviation (input) EXPECT :: HdrType where "EXPECT \<equiv> 27"
abbreviation (input) EXPIRES :: HdrType where "EXPIRES \<equiv> 28"
abbreviation (input) FORWARDED :: HdrType where "FORWARDED \<equiv> 29"
abbreviation (input) FROM :: HdrType where "FROM \<equiv> 30"
abbreviation (input) HOST :: HdrType where "HOST \<equiv> 31"
abbreviation (input) IF_MATCH :: HdrType where "IF_MATCH \<equiv> 32"
abbreviation (input) IF_MODIFIED_SINCE :: HdrType where "IF_MODIFIED_SINCE \<equiv> 33"
abbreviation (input) IF_NONE_MATCH :: HdrType where "IF_NONE_MATCH \<equiv> 34"
abbreviation (input) IF_RANGE :: HdrType where "IF_RANGE \<equiv> 35"
abbreviation (input) IF_UNMODIFIED_SINCE :: HdrType where "IF_UNMODIFIED_SINCE \<equiv> 36"
abbreviation (input) KEEP_ALIVE :: HdrType where "KEEP_ALIVE \<equiv> 37"
abbreviation (input) KEY :: HdrType where "KEY \<equiv> 38"
abbreviation (input) LAST_MODIFIED :: HdrType where "LAST_MODIFIED \<equiv> 39"
abbreviation (input) LINK :: HdrType where "LINK \<equiv> 40"
abbreviation (input) LOCATION :: HdrType where "LOCATION \<equiv> 41"
abbreviation (input) MAX_FORWARDS :: HdrType where "MAX_FORWARDS \<equiv> 42"
abbreviation (input) MIME_VERSION :: HdrType where "MIME_VERSION \<equiv> 43"
abbreviation (input) NEGOTIATE :: HdrType where "NEGOTIATE \<equiv> 44"
abbreviation (input) ORIGIN :: HdrType where "ORIGIN \<equiv> 45"
abbreviation (input) PRAGMA :: HdrType where "PRAGMA \<equiv> 46"
abbreviation (input) PRIORITY :: HdrType where "PRIORITY \<equiv> 47"
abbreviation (input) PROXY_AUTHENTICATE :: HdrType where "PROXY_AUTHENTICATE \<equiv> 48"
abbreviation (input) PROXY_AUTHENTICATION_INFO :: HdrType where "PROXY_AUTHENTICATION_INFO \<equiv> 49"
abbreviation (input) PROXY_AUTHORIZATION :: HdrType where "PROXY_AUTHORIZATION \<equiv> 50"
abbreviation (input) PROXY_CONNECTION :: HdrType where "PROXY_CONNECTION \<equiv> 51"
abbreviation (input) PROXY_SUPPORT :: HdrType where "PROXY_SUPPORT \<equiv> 52"
abbreviation (input) PUBLIC :: HdrType where "PUBLIC \<equiv> 53"
abbreviation (input) RANGE :: HdrType where "RANGE \<equiv> 54"
abbreviation (input) REFERER :: HdrType where "REFERER \<equiv> 55"
abbreviation (input) REQUEST_RANGE :: HdrType where "REQUEST_RANGE \<equiv> 56"
abbreviation (input) RETRY_AFTER :: HdrType where "RETRY_AFTER \<equiv> 57"
abbreviation (input) SERVER :: HdrType where "SERVER \<equiv> 58"
abbreviation (input) SET_COOKIE :: HdrType where "SET_COOKIE \<equiv> 59"
abbreviation (input) SET_COOKIE2 :: HdrType where "SET_COOKIE2 \<equiv> 60"
abbreviation (input) TE :: HdrType where "TE \<equiv> 61"
abbreviation (input) TITLE :: HdrType where "TITLE \<equiv> 62"
abbreviation (input) TRAILER :: HdrType where "TRAILER \<equiv> 63"
abbreviation (input) TRANSFER_ENCODING :: HdrType where "TRANSFER_ENCODING \<equiv> 64"
abbreviation (input) TRANSLATE :: HdrType where "TRANSLATE \<equiv> 65"
abbreviation (input) UNLESS_MODIFIED_SINCE :: HdrType where "UNLESS_MODIFIED_SINCE \<equiv> 66"
abbreviation (input) UPGRADE :: HdrType where "UPGRADE \<equiv> 67"
abbreviation (input) USER_AGENT :: HdrType where "USER_AGENT \<equiv> 68"
abbreviation (input) VARY :: HdrType where "VARY \<equiv> 69"
abbreviation (input) VIA :: HdrType where "VIA \<equiv> 70"
abbreviation (input) WWW_AUTHENTICATE :: HdrType where "WWW_AUTHENTICATE \<equiv> 71"
abbreviation (input) X_FORWARDED_FOR :: HdrType where "X_FORWARDED_FOR \<equiv> 72"
abbreviation (input) X_SQUID_ERROR :: HdrType where "X_SQUID_ERROR \<equiv> 73"
abbreviation (input) HDR_X_ACCELERATOR_VARY :: HdrType where "HDR_X_ACCELERATOR_VARY \<equiv> 74"
abbreviation (input) X_NEXT_SERVICES :: HdrType where "X_NEXT_SERVICES \<equiv> 75"
abbreviation (input) SURROGATE_CAPABILITY :: HdrType where "SURROGATE_CAPABILITY \<equiv> 76"
abbreviation (input) SURROGATE_CONTROL :: HdrType where "SURROGATE_CONTROL \<equiv> 77"
abbreviation (input) FRONT_END_HTTPS :: HdrType where "FRONT_END_HTTPS \<equiv> 78"
abbreviation (input) FTP_COMMAND :: HdrType where "FTP_COMMAND \<equiv> 79"
abbreviation (input) FTP_ARGUMENTS :: HdrType where "FTP_ARGUMENTS \<equiv> 80"
abbreviation (input) FTP_PRE :: HdrType where "FTP_PRE \<equiv> 81"
abbreviation (input) FTP_STATUS :: HdrType where "FTP_STATUS \<equiv> 82"
abbreviation (input) FTP_REASON :: HdrType where "FTP_REASON \<equiv> 83"
abbreviation (input) OTHER :: HdrType where "OTHER \<equiv> 84"
abbreviation (input) BAD_HDR :: HdrType where "BAD_HDR \<equiv> 85"

definition any_HdrType_enum_value :: "HdrType \<Rightarrow> bool" where
  "any_HdrType_enum_value hid \<longleftrightarrow> ACCEPT \<le> hid \<and> hid \<le> BAD_HDR"

definition any_valid_header :: "HdrType \<Rightarrow> bool" where
  "any_valid_header hid \<longleftrightarrow> ACCEPT \<le> hid \<and> hid < BAD_HDR"

definition any_registered_header :: "HdrType \<Rightarrow> bool" where
  "any_registered_header hid \<longleftrightarrow> ACCEPT \<le> hid \<and> hid < OTHER"

datatype HdrFieldType =
    ftInvalid
  | ftInt
  | ftInt64
  | ftStr
  | ftDate_1123
  | ftETag
  | ftPCc
  | ftPContRange
  | ftPRange
  | ftPSc
  | ftDate_1123_or_ETag

abbreviation (input) HdrKind_None :: nat where "HdrKind_None \<equiv> 0"
abbreviation (input) HdrKind_ListHeader :: nat where "HdrKind_ListHeader \<equiv> 1"
abbreviation (input) HdrKind_RequestHeader :: nat where "HdrKind_RequestHeader \<equiv> 2"
abbreviation (input) HdrKind_ReplyHeader :: nat where "HdrKind_ReplyHeader \<equiv> 4"
abbreviation (input) HdrKind_HopByHopHeader :: nat where "HdrKind_HopByHopHeader \<equiv> 8"
abbreviation (input) HdrKind_Denied304Header :: nat where "HdrKind_Denied304Header \<equiv> 16"
abbreviation (input) HdrKind_GeneralHeader :: nat where "HdrKind_GeneralHeader \<equiv> HdrKind_RequestHeader OR HdrKind_ReplyHeader"
abbreviation (input) HdrKind_EntityHeader :: nat where "HdrKind_EntityHeader \<equiv> HdrKind_RequestHeader OR HdrKind_ReplyHeader"

record HeaderTableRecord =
  hr_name :: bytes
  hr_id :: HdrType
  hr_type :: HdrFieldType
  hr_list :: bool
  hr_request :: bool
  hr_reply :: bool
  hr_hopbyhop :: bool
  hr_denied304 :: bool

definition HeaderTableRecord_empty :: "bytes \<Rightarrow> HeaderTableRecord" where
  "HeaderTableRecord_empty n = \<lparr>hr_name = n, hr_id = BAD_HDR, hr_type = ftInvalid, hr_list = False, hr_request = False,
     hr_reply = False, hr_hopbyhop = False, hr_denied304 = False\<rparr>"

definition HeaderTableRecord_of :: "bytes \<Rightarrow> HdrType \<Rightarrow> HdrFieldType \<Rightarrow> nat \<Rightarrow> HeaderTableRecord" where
  "HeaderTableRecord_of n theId theType theKind = \<lparr>hr_name = n, hr_id = theId, hr_type = theType,
     hr_list = (theKind AND HdrKind_ListHeader \<noteq> 0), hr_request = (theKind AND HdrKind_RequestHeader \<noteq> 0),
     hr_reply = (theKind AND HdrKind_ReplyHeader \<noteq> 0), hr_hopbyhop = (theKind AND HdrKind_HopByHopHeader \<noteq> 0),
     hr_denied304 = (theKind AND HdrKind_Denied304Header \<noteq> 0)\<rparr>"

section \<open>The declared headers\<close>

definition registered_headers :: "HeaderTableRecord list" where
  "registered_headers =
    [HeaderTableRecord_of ''Accept'' ACCEPT ftStr (HdrKind_ListHeader OR HdrKind_RequestHeader),
     HeaderTableRecord_of ''Accept-Charset'' ACCEPT_CHARSET ftStr (HdrKind_ListHeader OR HdrKind_RequestHeader),
     HeaderTableRecord_of ''Accept-Encoding'' ACCEPT_ENCODING ftStr (HdrKind_ListHeader OR HdrKind_RequestHeader OR HdrKind_ReplyHeader),
     HeaderTableRecord_of ''Accept-Language'' ACCEPT_LANGUAGE ftStr (HdrKind_ListHeader OR HdrKind_RequestHeader),
     HeaderTableRecord_of ''Accept-Ranges'' ACCEPT_RANGES ftStr (HdrKind_ListHeader OR HdrKind_ReplyHeader),
     HeaderTableRecord_of ''Age'' AGE ftInt (HdrKind_ReplyHeader),
     HeaderTableRecord_of ''Allow'' ALLOW ftStr (HdrKind_ListHeader OR HdrKind_EntityHeader),
     HeaderTableRecord_of ''Alternate-Protocol'' ALTERNATE_PROTOCOL ftStr (HdrKind_HopByHopHeader),
     HeaderTableRecord_of ''Authentication-Info'' AUTHENTICATION_INFO ftStr (HdrKind_ListHeader),
     HeaderTableRecord_of ''Authorization'' AUTHORIZATION ftStr (HdrKind_RequestHeader),
     HeaderTableRecord_of ''Cache-Control'' CACHE_CONTROL ftPCc (HdrKind_ListHeader OR HdrKind_GeneralHeader),
     HeaderTableRecord_of ''Cache-Status'' CACHE_STATUS ftStr (HdrKind_ListHeader OR HdrKind_ReplyHeader),
     HeaderTableRecord_of ''CDN-Loop'' CDN_LOOP ftStr (HdrKind_ListHeader OR HdrKind_RequestHeader),
     HeaderTableRecord_of ''Connection'' CONNECTION ftStr (HdrKind_ListHeader OR HdrKind_GeneralHeader OR HdrKind_HopByHopHeader),
     HeaderTableRecord_of ''Content-Base'' CONTENT_BASE ftStr (HdrKind_EntityHeader),
     HeaderTableRecord_of ''Content-Disposition'' CONTENT_DISPOSITION ftStr (HdrKind_None),
     HeaderTableRecord_of ''Content-Encoding'' CONTENT_ENCODING ftStr (HdrKind_ListHeader OR HdrKind_EntityHeader),
     HeaderTableRecord_of ''Content-Language'' CONTENT_LANGUAGE ftStr (HdrKind_ListHeader OR HdrKind_EntityHeader),
     HeaderTableRecord_of ''Content-Length'' CONTENT_LENGTH ftInt64 (HdrKind_EntityHeader),
     HeaderTableRecord_of ''Content-Location'' CONTENT_LOCATION ftStr (HdrKind_EntityHeader),
     HeaderTableRecord_of ''Content-MD5'' CONTENT_MD5 ftStr (HdrKind_EntityHeader),
     HeaderTableRecord_of ''Content-Range'' CONTENT_RANGE ftPContRange (HdrKind_EntityHeader),
     HeaderTableRecord_of ''Content-Type'' CONTENT_TYPE ftStr (HdrKind_EntityHeader),
     HeaderTableRecord_of ''Cookie'' COOKIE ftStr (HdrKind_None),
     HeaderTableRecord_of ''Cookie2'' COOKIE2 ftStr (HdrKind_None),
     HeaderTableRecord_of ''Date'' DATE ftDate_1123 (HdrKind_GeneralHeader),
     HeaderTableRecord_of ''ETag'' ETAG ftETag (HdrKind_EntityHeader),
     HeaderTableRecord_of ''Expect'' EXPECT ftStr (HdrKind_ListHeader OR HdrKind_RequestHeader),
     HeaderTableRecord_of ''Expires'' EXPIRES ftDate_1123 (HdrKind_EntityHeader),
     HeaderTableRecord_of ''Forwarded'' FORWARDED ftStr (HdrKind_ListHeader OR HdrKind_GeneralHeader),
     HeaderTableRecord_of ''From'' FROM ftStr (HdrKind_RequestHeader),
     HeaderTableRecord_of ''Host'' HOST ftStr (HdrKind_RequestHeader),
     HeaderTableRecord_of ''If-Match'' IF_MATCH ftStr (HdrKind_ListHeader OR HdrKind_RequestHeader),
     HeaderTableRecord_of ''If-Modified-Since'' IF_MODIFIED_SINCE ftDate_1123 (HdrKind_RequestHeader),
     HeaderTableRecord_of ''If-None-Match'' IF_NONE_MATCH ftStr (HdrKind_ListHeader),
     HeaderTableRecord_of ''If-Range'' IF_RANGE ftDate_1123_or_ETag (HdrKind_None),
     HeaderTableRecord_of ''If-Unmodified-Since'' IF_UNMODIFIED_SINCE ftDate_1123 (HdrKind_None),
     HeaderTableRecord_of ''Keep-Alive'' KEEP_ALIVE ftStr (HdrKind_HopByHopHeader),
     HeaderTableRecord_of ''Key'' KEY ftStr (HdrKind_ListHeader OR HdrKind_ReplyHeader),
     HeaderTableRecord_of ''Last-Modified'' LAST_MODIFIED ftDate_1123 (HdrKind_EntityHeader),
     HeaderTableRecord_of ''Link'' LINK ftStr (HdrKind_ListHeader OR HdrKind_EntityHeader),
     HeaderTableRecord_of ''Location'' LOCATION ftStr (HdrKind_ReplyHeader),
     HeaderTableRecord_of ''Max-Forwards'' MAX_FORWARDS ftInt64 (HdrKind_RequestHeader),
     HeaderTableRecord_of ''Mime-Version'' MIME_VERSION ftStr (HdrKind_GeneralHeader),
     HeaderTableRecord_of ''Negotiate'' NEGOTIATE ftStr (HdrKind_None),
     HeaderTableRecord_of ''Origin'' ORIGIN ftStr (HdrKind_RequestHeader),
     HeaderTableRecord_of ''Pragma'' PRAGMA ftStr (HdrKind_ListHeader OR HdrKind_GeneralHeader),
     HeaderTableRecord_of ''Priority'' PRIORITY ftStr (HdrKind_ListHeader OR HdrKind_GeneralHeader),
     HeaderTableRecord_of ''Proxy-Authenticate'' PROXY_AUTHENTICATE ftStr (HdrKind_ReplyHeader),
     HeaderTableRecord_of ''Proxy-Authentication-Info'' PROXY_AUTHENTICATION_INFO ftStr (HdrKind_ListHeader),
     HeaderTableRecord_of ''Proxy-Authorization'' PROXY_AUTHORIZATION ftStr (HdrKind_RequestHeader OR HdrKind_HopByHopHeader),
     HeaderTableRecord_of ''Proxy-Connection'' PROXY_CONNECTION ftStr (HdrKind_ListHeader OR HdrKind_GeneralHeader OR HdrKind_HopByHopHeader),
     HeaderTableRecord_of ''Proxy-support'' PROXY_SUPPORT ftStr (HdrKind_ListHeader),
     HeaderTableRecord_of ''Public'' PUBLIC ftStr (HdrKind_ReplyHeader),
     HeaderTableRecord_of ''Range'' RANGE ftPRange (HdrKind_RequestHeader),
     HeaderTableRecord_of ''Referer'' REFERER ftStr (HdrKind_RequestHeader),
     HeaderTableRecord_of ''Request-Range'' REQUEST_RANGE ftPRange (HdrKind_None),
     HeaderTableRecord_of ''Retry-After'' RETRY_AFTER ftStr (HdrKind_ReplyHeader),
     HeaderTableRecord_of ''Server'' SERVER ftStr (HdrKind_ReplyHeader),
     HeaderTableRecord_of ''Set-Cookie'' SET_COOKIE ftStr (HdrKind_ReplyHeader),
     HeaderTableRecord_of ''Set-Cookie2'' SET_COOKIE2 ftStr (HdrKind_ReplyHeader),
     HeaderTableRecord_of ''TE'' TE ftStr (HdrKind_RequestHeader OR HdrKind_HopByHopHeader),
     HeaderTableRecord_of ''Title'' TITLE ftStr (HdrKind_None),
     HeaderTableRecord_of ''Trailer'' TRAILER ftStr (HdrKind_HopByHopHeader),
     HeaderTableRecord_of ''Transfer-Encoding'' TRANSFER_ENCODING ftStr (HdrKind_ListHeader OR HdrKind_GeneralHeader OR HdrKind_HopByHopHeader),
     HeaderTableRecord_of ''Translate'' TRANSLATE ftStr (HdrKind_None),
     HeaderTableRecord_of ''Unless-Modified-Since'' UNLESS_MODIFIED_SINCE ftStr (HdrKind_None),
     HeaderTableRecord_of ''Upgrade'' UPGRADE ftStr (HdrKind_ListHeader OR HdrKind_GeneralHeader OR HdrKind_HopByHopHeader),
     HeaderTableRecord_of ''User-Agent'' USER_AGENT ftStr (HdrKind_RequestHeader),
     HeaderTableRecord_of ''Vary'' VARY ftStr (HdrKind_ListHeader OR HdrKind_ReplyHeader),
     HeaderTableRecord_of ''Via'' VIA ftStr (HdrKind_ListHeader OR HdrKind_GeneralHeader),
     HeaderTableRecord_of ''WWW-Authenticate'' WWW_AUTHENTICATE ftStr (HdrKind_ListHeader OR HdrKind_ReplyHeader),
     HeaderTableRecord_of ''X-Forwarded-For'' X_FORWARDED_FOR ftStr (HdrKind_ListHeader OR HdrKind_GeneralHeader),
     HeaderTableRecord_of ''X-Squid-Error'' X_SQUID_ERROR ftStr (HdrKind_ReplyHeader),
     HeaderTableRecord_of ''X-Accelerator-Vary'' HDR_X_ACCELERATOR_VARY ftStr (HdrKind_ListHeader OR HdrKind_ReplyHeader),
     HeaderTableRecord_of ''X-Next-Services'' X_NEXT_SERVICES ftStr (HdrKind_ListHeader OR HdrKind_ReplyHeader),
     HeaderTableRecord_of ''Surrogate-Capability'' SURROGATE_CAPABILITY ftStr (HdrKind_ListHeader OR HdrKind_RequestHeader),
     HeaderTableRecord_of ''Surrogate-Control'' SURROGATE_CONTROL ftPSc (HdrKind_ListHeader OR HdrKind_ReplyHeader),
     HeaderTableRecord_of ''Front-End-Https'' FRONT_END_HTTPS ftStr (HdrKind_None),
     HeaderTableRecord_of ''FTP-Command'' FTP_COMMAND ftStr (HdrKind_None),
     HeaderTableRecord_of ''FTP-Arguments'' FTP_ARGUMENTS ftStr (HdrKind_None),
     HeaderTableRecord_of ''FTP-Pre'' FTP_PRE ftStr (HdrKind_None),
     HeaderTableRecord_of ''FTP-Status'' FTP_STATUS ftInt (HdrKind_None),
     HeaderTableRecord_of ''FTP-Reason'' FTP_REASON ftStr (HdrKind_None),
     HeaderTableRecord_of ''Other:'' OTHER ftStr (HdrKind_EntityHeader),
     HeaderTableRecord_of ''*INVALID*:'' BAD_HDR ftInvalid (HdrKind_None)]"

section \<open>The hash table\<close>

definition gperf_downcase :: "nat list" where
  "gperf_downcase =
    [0, 1, 2, 3, 4, 5, 6, 7, 8, 9, 10, 11, 12, 13, 14, 15,
     16, 17, 18, 19, 20, 21, 22, 23, 24, 25, 26, 27, 28, 29, 30, 31,
     32, 33, 34, 35, 36, 37, 38, 39, 40, 41, 42, 43, 44, 45, 46, 47,
     48, 49, 50, 51, 52, 53, 54, 55, 56, 57, 58, 59, 60, 61, 62, 63,
     64, 97, 98, 99, 100, 101, 102, 103, 104, 105, 106, 107, 108, 109, 110, 111,
     112, 113, 114, 115, 116, 117, 118, 119, 120, 121, 122, 91, 92, 93, 94, 95,
     96, 97, 98, 99, 100, 101, 102, 103, 104, 105, 106, 107, 108, 109, 110, 111,
     112, 113, 114, 115, 116, 117, 118, 119, 120, 121, 122, 123, 124, 125, 126, 127,
     128, 129, 130, 131, 132, 133, 134, 135, 136, 137, 138, 139, 140, 141, 142, 143,
     144, 145, 146, 147, 148, 149, 150, 151, 152, 153, 154, 155, 156, 157, 158, 159,
     160, 161, 162, 163, 164, 165, 166, 167, 168, 169, 170, 171, 172, 173, 174, 175,
     176, 177, 178, 179, 180, 181, 182, 183, 184, 185, 186, 187, 188, 189, 190, 191,
     192, 193, 194, 195, 196, 197, 198, 199, 200, 201, 202, 203, 204, 205, 206, 207,
     208, 209, 210, 211, 212, 213, 214, 215, 216, 217, 218, 219, 220, 221, 222, 223,
     224, 225, 226, 227, 228, 229, 230, 231, 232, 233, 234, 235, 236, 237, 238, 239,
     240, 241, 242, 243, 244, 245, 246, 247, 248, 249, 250, 251, 252, 253, 254, 255]"

text \<open>Compares \<open>n\<close> bytes without regard to case; the result is only tested for zero.\<close>

fun gperf_case_memcmp :: "bytes \<Rightarrow> bytes \<Rightarrow> nat \<Rightarrow> int" where
  "gperf_case_memcmp s1 s2 0 = 0"
| "gperf_case_memcmp s1 s2 (Suc n) =
     (let c1 = gperf_downcase ! of_char (hd s1); c2 = gperf_downcase ! of_char (hd s2)
      in if c1 = c2 then gperf_case_memcmp (tl s1) (tl s2) n else int c1 - int c2)"

definition asso_values :: "nat list" where
  "asso_values =
    [114, 114, 114, 114, 114, 114, 114, 114, 114, 114, 114, 114, 114, 114, 114, 114,
     114, 114, 114, 114, 114, 114, 114, 114, 114, 114, 114, 114, 114, 114, 114, 114,
     114, 114, 114, 114, 114, 114, 114, 114, 114, 114, 79, 114, 114, 13, 114, 114,
     114, 114, 26, 114, 114, 21, 114, 114, 114, 114, 9, 114, 114, 114, 114, 114,
     114, 24, 61, 30, 26, 10, 34, 44, 14, 52, 114, 6, 37, 65, 6, 6,
     19, 50, 27, 16, 12, 51, 55, 51, 7, 21, 114, 114, 114, 114, 114, 114,
     114, 24, 61, 30, 26, 10, 34, 44, 14, 52, 114, 6, 37, 65, 6, 6,
     19, 50, 27, 16, 12, 51, 55, 51, 7, 21, 114, 114, 114, 114, 114, 114,
     114, 114, 114, 114, 114, 114, 114, 114, 114, 114, 114, 114, 114, 114, 114, 114,
     114, 114, 114, 114, 114, 114, 114, 114, 114, 114, 114, 114, 114, 114, 114, 114,
     114, 114, 114, 114, 114, 114, 114, 114, 114, 114, 114, 114, 114, 114, 114, 114,
     114, 114, 114, 114, 114, 114, 114, 114, 114, 114, 114, 114, 114, 114, 114, 114,
     114, 114, 114, 114, 114, 114, 114, 114, 114, 114, 114, 114, 114, 114, 114, 114,
     114, 114, 114, 114, 114, 114, 114, 114, 114, 114, 114, 114, 114, 114, 114, 114,
     114, 114, 114, 114, 114, 114, 114, 114, 114, 114, 114, 114, 114, 114, 114, 114,
     114, 114, 114, 114, 114, 114, 114, 114, 114, 114, 114, 114, 114, 114, 114, 114]"

text \<open>The cases of the switch fall through from the default to 3, and 2 adds nothing.\<close>

definition HttpHeaderHash :: "bytes \<Rightarrow> nat" where
  "HttpHeaderHash str =
     (let len = length str;
          hval = if len \<in> {2, 3, 4, 5, 6, 7, 8} then len else len + asso_values ! of_char (str ! 8);
          hval = if len = 2 then hval else hval + asso_values ! of_char (str ! 2)
      in hval + asso_values ! of_char (str ! (len - 1)))"

definition lengthtable :: "nat list" where
  "lengthtable =
    [0, 0, 0, 0, 0, 0, 0, 0, 0, 0, 0, 0, 2, 0,
     0, 0, 4, 0, 0, 0, 0, 5, 6, 3, 0, 0, 4, 5,
     10, 6, 0, 8, 4, 8, 16, 8, 7, 6, 10, 7, 12, 10,
     7, 19, 8, 3, 18, 15, 6, 25, 13, 3, 4, 9, 6, 13,
     13, 19, 7, 12, 6, 7, 11, 15, 6, 16, 13, 19, 7, 16,
     14, 14, 4, 9, 21, 4, 16, 18, 20, 15, 11, 8, 12, 13,
     10, 10, 13, 16, 9, 12, 18, 17, 17, 5, 19, 15, 10, 6,
     17, 12, 13, 11, 15, 11, 10, 13, 0, 13, 0, 0, 0, 0,
     0, 13]"

definition HttpHeaderDefinitionsTable :: "HeaderTableRecord list" where
  "HttpHeaderDefinitionsTable =
    [HeaderTableRecord_empty '''', HeaderTableRecord_empty '''', HeaderTableRecord_empty '''', HeaderTableRecord_empty '''', HeaderTableRecord_empty '''',
     HeaderTableRecord_empty '''', HeaderTableRecord_empty '''', HeaderTableRecord_empty '''', HeaderTableRecord_empty '''', HeaderTableRecord_empty '''',
     HeaderTableRecord_empty '''', HeaderTableRecord_empty '''',
     HeaderTableRecord_of ''TE'' TE ftStr (HdrKind_RequestHeader OR HdrKind_HopByHopHeader),
     HeaderTableRecord_empty '''', HeaderTableRecord_empty '''', HeaderTableRecord_empty '''',
     HeaderTableRecord_of ''Link'' LINK ftStr (HdrKind_ListHeader OR HdrKind_EntityHeader),
     HeaderTableRecord_empty '''', HeaderTableRecord_empty '''', HeaderTableRecord_empty '''', HeaderTableRecord_empty '''',
     HeaderTableRecord_of ''Range'' RANGE ftPRange (HdrKind_RequestHeader),
     HeaderTableRecord_of ''Cookie'' COOKIE ftStr (HdrKind_None),
     HeaderTableRecord_of ''Age'' AGE ftInt (HdrKind_ReplyHeader),
     HeaderTableRecord_empty '''', HeaderTableRecord_empty '''',
     HeaderTableRecord_of ''Date'' DATE ftDate_1123 (HdrKind_GeneralHeader),
     HeaderTableRecord_of ''Title'' TITLE ftStr (HdrKind_None),
     HeaderTableRecord_of ''Connection'' CONNECTION ftStr (HdrKind_ListHeader OR HdrKind_GeneralHeader OR HdrKind_HopByHopHeader),
     HeaderTableRecord_of ''Other:'' OTHER ftStr (HdrKind_EntityHeader),
     HeaderTableRecord_empty '''',
     HeaderTableRecord_of ''If-Range'' IF_RANGE ftDate_1123_or_ETag (HdrKind_None),
     HeaderTableRecord_of ''Host'' HOST ftStr (HdrKind_RequestHeader),
     HeaderTableRecord_of ''CDN-Loop'' CDN_LOOP ftStr (HdrKind_ListHeader OR HdrKind_RequestHeader),
     HeaderTableRecord_of ''Proxy-Connection'' PROXY_CONNECTION ftStr (HdrKind_ListHeader OR HdrKind_GeneralHeader OR HdrKind_HopByHopHeader),
     HeaderTableRecord_of ''If-Match'' IF_MATCH ftStr (HdrKind_ListHeader OR HdrKind_RequestHeader),
     HeaderTableRecord_of ''FTP-Pre'' FTP_PRE ftStr (HdrKind_None),
     HeaderTableRecord_of ''Expect'' EXPECT ftStr (HdrKind_ListHeader OR HdrKind_RequestHeader),
     HeaderTableRecord_of ''User-Agent'' USER_AGENT ftStr (HdrKind_RequestHeader),
     HeaderTableRecord_of ''Cookie2'' COOKIE2 ftStr (HdrKind_None),
     HeaderTableRecord_of ''Content-Type'' CONTENT_TYPE ftStr (HdrKind_EntityHeader),
     HeaderTableRecord_of ''FTP-Reason'' FTP_REASON ftStr (HdrKind_None),
     HeaderTableRecord_of ''Expires'' EXPIRES ftDate_1123 (HdrKind_EntityHeader),
     HeaderTableRecord_of ''Proxy-Authorization'' PROXY_AUTHORIZATION ftStr (HdrKind_RequestHeader OR HdrKind_HopByHopHeader),
     HeaderTableRecord_of ''Location'' LOCATION ftStr (HdrKind_ReplyHeader),
     HeaderTableRecord_of ''Key'' KEY ftStr (HdrKind_ListHeader OR HdrKind_ReplyHeader),
     HeaderTableRecord_of ''Proxy-Authenticate'' PROXY_AUTHENTICATE ftStr (HdrKind_ReplyHeader),
     HeaderTableRecord_of ''X-Next-Services'' X_NEXT_SERVICES ftStr (HdrKind_ListHeader OR HdrKind_ReplyHeader),
     HeaderTableRecord_of ''Accept'' ACCEPT ftStr (HdrKind_ListHeader OR HdrKind_RequestHeader),
     HeaderTableRecord_of ''Proxy-Authentication-Info'' PROXY_AUTHENTICATION_INFO ftStr (HdrKind_ListHeader),
     HeaderTableRecord_of ''Proxy-support'' PROXY_SUPPORT ftStr (HdrKind_ListHeader),
     HeaderTableRecord_of ''Via'' VIA ftStr (HdrKind_ListHeader OR HdrKind_GeneralHeader),
     HeaderTableRecord_of ''Vary'' VARY ftStr (HdrKind_ListHeader OR HdrKind_ReplyHeader),
     HeaderTableRecord_of ''Translate'' TRANSLATE ftStr (HdrKind_None),
     HeaderTableRecord_of ''Pragma'' PRAGMA ftStr (HdrKind_ListHeader OR HdrKind_GeneralHeader),
     HeaderTableRecord_of ''Authorization'' AUTHORIZATION ftStr (HdrKind_RequestHeader),
     HeaderTableRecord_of ''Content-Range'' CONTENT_RANGE ftPContRange (HdrKind_EntityHeader),
     HeaderTableRecord_of ''Content-Disposition'' CONTENT_DISPOSITION ftStr (HdrKind_None),
     HeaderTableRecord_of ''Trailer'' TRAILER ftStr (HdrKind_HopByHopHeader),
     HeaderTableRecord_of ''Max-Forwards'' MAX_FORWARDS ftInt64 (HdrKind_RequestHeader),
     HeaderTableRecord_of ''Server'' SERVER ftStr (HdrKind_ReplyHeader),
     HeaderTableRecord_of ''Upgrade'' UPGRADE ftStr (HdrKind_ListHeader OR HdrKind_GeneralHeader OR HdrKind_HopByHopHeader),
     HeaderTableRecord_of ''Retry-After'' RETRY_AFTER ftStr (HdrKind_ReplyHeader),
     HeaderTableRecord_of ''Front-End-Https'' FRONT_END_HTTPS ftStr (HdrKind_None),
     HeaderTableRecord_of ''Origin'' ORIGIN ftStr (HdrKind_RequestHeader),
     HeaderTableRecord_of ''Content-Location'' CONTENT_LOCATION ftStr (HdrKind_EntityHeader),
     HeaderTableRecord_of ''X-Squid-Error'' X_SQUID_ERROR ftStr (HdrKind_ReplyHeader),
     HeaderTableRecord_of ''Authentication-Info'' AUTHENTICATION_INFO ftStr (HdrKind_ListHeader),
     HeaderTableRecord_of ''Referer'' REFERER ftStr (HdrKind_RequestHeader),
     HeaderTableRecord_of ''Content-Language'' CONTENT_LANGUAGE ftStr (HdrKind_ListHeader OR HdrKind_EntityHeader),
     HeaderTableRecord_of ''Accept-Charset'' ACCEPT_CHARSET ftStr (HdrKind_ListHeader OR HdrKind_RequestHeader),
     HeaderTableRecord_of ''Content-Length'' CONTENT_LENGTH ftInt64 (HdrKind_EntityHeader),
     HeaderTableRecord_of ''ETag'' ETAG ftETag (HdrKind_EntityHeader),
     HeaderTableRecord_of ''Negotiate'' NEGOTIATE ftStr (HdrKind_None),
     HeaderTableRecord_of ''Unless-Modified-Since'' UNLESS_MODIFIED_SINCE ftStr (HdrKind_None),
     HeaderTableRecord_of ''From'' FROM ftStr (HdrKind_RequestHeader),
     HeaderTableRecord_of ''Content-Encoding'' CONTENT_ENCODING ftStr (HdrKind_ListHeader OR HdrKind_EntityHeader),
     HeaderTableRecord_of ''Alternate-Protocol'' ALTERNATE_PROTOCOL ftStr (HdrKind_HopByHopHeader),
     HeaderTableRecord_of ''Surrogate-Capability'' SURROGATE_CAPABILITY ftStr (HdrKind_ListHeader OR HdrKind_RequestHeader),
     HeaderTableRecord_of ''Accept-Language'' ACCEPT_LANGUAGE ftStr (HdrKind_ListHeader OR HdrKind_RequestHeader),
     HeaderTableRecord_of ''FTP-Command'' FTP_COMMAND ftStr (HdrKind_None),
     HeaderTableRecord_of ''Priority'' PRIORITY ftStr (HdrKind_ListHeader OR HdrKind_GeneralHeader),
     HeaderTableRecord_of ''Cache-Status'' CACHE_STATUS ftStr (HdrKind_ListHeader OR HdrKind_ReplyHeader),
     HeaderTableRecord_of ''Accept-Ranges'' ACCEPT_RANGES ftStr (HdrKind_ListHeader OR HdrKind_ReplyHeader),
     HeaderTableRecord_of ''Set-Cookie'' SET_COOKIE ftStr (HdrKind_ReplyHeader),
     HeaderTableRecord_of ''Keep-Alive'' KEEP_ALIVE ftStr (HdrKind_HopByHopHeader),
     HeaderTableRecord_of ''Cache-Control'' CACHE_CONTROL ftPCc (HdrKind_ListHeader OR HdrKind_GeneralHeader),
     HeaderTableRecord_of ''WWW-Authenticate'' WWW_AUTHENTICATE ftStr (HdrKind_ListHeader OR HdrKind_ReplyHeader),
     HeaderTableRecord_of ''Forwarded'' FORWARDED ftStr (HdrKind_ListHeader OR HdrKind_GeneralHeader),
     HeaderTableRecord_of ''Content-Base'' CONTENT_BASE ftStr (HdrKind_EntityHeader),
     HeaderTableRecord_of ''X-Accelerator-Vary'' HDR_X_ACCELERATOR_VARY ftStr (HdrKind_ListHeader OR HdrKind_ReplyHeader),
     HeaderTableRecord_of ''Surrogate-Control'' SURROGATE_CONTROL ftPSc (HdrKind_ListHeader OR HdrKind_ReplyHeader),
     HeaderTableRecord_of ''If-Modified-Since'' IF_MODIFIED_SINCE ftDate_1123 (HdrKind_RequestHeader),
     HeaderTableRecord_of ''Allow'' ALLOW ftStr (HdrKind_ListHeader OR HdrKind_EntityHeader),
     HeaderTableRecord_of ''If-Unmodified-Since'' IF_UNMODIFIED_SINCE ftDate_1123 (HdrKind_None),
     HeaderTableRecord_of ''Accept-Encoding'' ACCEPT_ENCODING ftStr (HdrKind_ListHeader OR HdrKind_RequestHeader OR HdrKind_ReplyHeader),
     HeaderTableRecord_of ''FTP-Status'' FTP_STATUS ftInt (HdrKind_None),
     HeaderTableRecord_of ''Public'' PUBLIC ftStr (HdrKind_ReplyHeader),
     HeaderTableRecord_of ''Transfer-Encoding'' TRANSFER_ENCODING ftStr (HdrKind_ListHeader OR HdrKind_GeneralHeader OR HdrKind_HopByHopHeader),
     HeaderTableRecord_of ''Mime-Version'' MIME_VERSION ftStr (HdrKind_GeneralHeader),
     HeaderTableRecord_of ''Request-Range'' REQUEST_RANGE ftPRange (HdrKind_None),
     HeaderTableRecord_of ''Set-Cookie2'' SET_COOKIE2 ftStr (HdrKind_ReplyHeader),
     HeaderTableRecord_of ''X-Forwarded-For'' X_FORWARDED_FOR ftStr (HdrKind_ListHeader OR HdrKind_GeneralHeader),
     HeaderTableRecord_of ''Content-MD5'' CONTENT_MD5 ftStr (HdrKind_EntityHeader),
     HeaderTableRecord_of ''*INVALID*:'' BAD_HDR ftInvalid (HdrKind_None),
     HeaderTableRecord_of ''If-None-Match'' IF_NONE_MATCH ftStr (HdrKind_ListHeader),
     HeaderTableRecord_empty '''',
     HeaderTableRecord_of ''Last-Modified'' LAST_MODIFIED ftDate_1123 (HdrKind_EntityHeader),
     HeaderTableRecord_empty '''', HeaderTableRecord_empty '''', HeaderTableRecord_empty '''', HeaderTableRecord_empty '''', HeaderTableRecord_empty '''',
     HeaderTableRecord_of ''FTP-Arguments'' FTP_ARGUMENTS ftStr (HdrKind_None)]"

abbreviation (input) TOTAL_KEYWORDS :: nat where "TOTAL_KEYWORDS \<equiv> 86"
abbreviation (input) MIN_WORD_LENGTH :: nat where "MIN_WORD_LENGTH \<equiv> 2"
abbreviation (input) MAX_WORD_LENGTH :: nat where "MAX_WORD_LENGTH \<equiv> 25"
abbreviation (input) MIN_HASH_VALUE :: nat where "MIN_HASH_VALUE \<equiv> 12"
abbreviation (input) MAX_HASH_VALUE :: nat where "MAX_HASH_VALUE \<equiv> 113"

definition HttpHeaderHashTable_lookup :: "bytes \<Rightarrow> HeaderTableRecord option" where
  "HttpHeaderHashTable_lookup str =
     (let len = length str in
      if len \<le> MAX_WORD_LENGTH \<and> len \<ge> MIN_WORD_LENGTH then
        (let key = HttpHeaderHash str in
         if key \<le> MAX_HASH_VALUE \<and> len = lengthtable ! key then
           (let s = hr_name (HttpHeaderDefinitionsTable ! key) in
            if (of_char (hd str) XOR of_char (hd s)) AND NOT (32 :: int) = 0 \<and> gperf_case_memcmp str s len = 0
            then Some (HttpHeaderDefinitionsTable ! key) else None)
         else None)
      else None)"

section \<open>Lookups\<close>

definition BadHdr :: HeaderTableRecord where
  "BadHdr = HeaderTableRecord_of ''*INVALID*:'' BAD_HDR ftInvalid HdrKind_None"

definition lookup_name :: "bytes \<Rightarrow> HeaderTableRecord" where
  "lookup_name buf =
     (case HttpHeaderHashTable_lookup buf of
        None \<Rightarrow> BadHdr
      | Some r \<Rightarrow> if hr_id r = OTHER then BadHdr else r)"

text \<open>The cache of records by identity: a cell for each keyword, filled from the used slots of the table.\<close>

definition idCache_step :: "HeaderTableRecord option list \<Rightarrow> HeaderTableRecord \<Rightarrow> HeaderTableRecord option list" where
  "idCache_step cache r = (if hr_name r \<noteq> [] then cache[hr_id r := Some r] else cache)"

definition idCache :: "HeaderTableRecord option list" where
  "idCache = foldl idCache_step (replicate TOTAL_KEYWORDS None)
     (map (\<lambda>j. HttpHeaderDefinitionsTable ! j) [MIN_HASH_VALUE..<Suc MAX_HASH_VALUE])"

definition lookup_id :: "HdrType \<Rightarrow> HeaderTableRecord" where
  "lookup_id hid = the (idCache ! hid)"

end
