(* ===== verification/Header_Lookup.thy ===== *)
theory Header_Lookup
  imports Registered_Headers
begin

text \<open>
  The perfect hash table of header names is correct: it finds exactly the declared names, in any letter case, and the
  cache by identity has the declared record of every identity.
\<close>

section \<open>The table finds exactly the declared names\<close>

text \<open>The slots of the declared headers, in the order of their declaration.\<close>

definition hash_slots :: "nat list" where
  "hash_slots =
    [48, 70, 95, 79, 83, 23, 93, 77, 67, 55, 86, 82, 33, 28, 89, 57,
     76, 69, 71, 65, 103, 56, 40, 22, 39, 26, 72, 37, 42, 88, 75, 32,
     35, 92, 105, 31, 94, 85, 45, 107, 16, 44, 59, 99, 73, 64, 54, 81,
     46, 49, 43, 34, 50, 97, 21, 68, 100, 62, 60, 84, 101, 12, 27, 58,
     98, 53, 74, 61, 38, 52, 51, 87, 102, 66, 90, 47, 78, 91, 63, 80,
     113, 36, 96, 41, 29, 104]"

lemma upt_all: "list_all P [a..<b] \<Longrightarrow> a \<le> n \<Longrightarrow> n < b \<Longrightarrow> P n"
  by (simp add: list_all_iff)

lemma slot_hash: "map (\<lambda>r. HttpHeaderHash (hr_name r)) registered_headers = hash_slots"
  by (simp add: registered_headers_def HeaderTableRecord_of_def HttpHeaderHash_def asso_values_def hash_slots_def)

lemma slot_record: "map (\<lambda>j. HttpHeaderDefinitionsTable ! j) hash_slots = registered_headers"
  by (simp add: registered_headers_def HttpHeaderDefinitionsTable_def hash_slots_def)

lemma slot_length: "map (\<lambda>j. lengthtable ! j) hash_slots = map (\<lambda>r. length (hr_name r)) registered_headers"
  by (simp add: registered_headers_def lengthtable_def HeaderTableRecord_of_def hash_slots_def)

lemma slot_bounds: "list_all (\<lambda>j. MIN_HASH_VALUE \<le> j \<and> j \<le> MAX_HASH_VALUE) hash_slots" "distinct hash_slots"
    "list_all (\<lambda>n. MIN_WORD_LENGTH \<le> n \<and> n \<le> MAX_WORD_LENGTH) (map (\<lambda>j. lengthtable ! j) hash_slots)"
  by (simp_all add: hash_slots_def lengthtable_def)

lemma slot_used: "list_all (\<lambda>j. lengthtable ! j = 0 \<or> j \<in> set hash_slots) [0..<114]"
  by (simp add: hash_slots_def lengthtable_def upt_rec [of 0] upt_rec [of "Suc 0"] numeral_2_eq_2 [symmetric])

lemma slot_count: "length hash_slots = 86" "length registered_headers = 86"
  by (simp_all add: hash_slots_def registered_headers_def)

lemma declared_record:
  assumes "i < 86"
  defines "r \<equiv> registered_headers ! i"
  shows "HttpHeaderHash (hr_name r) = hash_slots ! i" "HttpHeaderDefinitionsTable ! (hash_slots ! i) = r"
    "lengthtable ! (hash_slots ! i) = length (hr_name r)" "hash_slots ! i \<le> MAX_HASH_VALUE"
    "MIN_WORD_LENGTH \<le> length (hr_name r)" "length (hr_name r) \<le> MAX_WORD_LENGTH"
proof -
  have at: "map f registered_headers ! i = f r" "map g hash_slots ! i = g (hash_slots ! i)" for f :: "HeaderTableRecord \<Rightarrow> nat" and g :: "nat \<Rightarrow> 'b"
    using assms(1) by (simp_all add: r_def slot_count)
  show "HttpHeaderHash (hr_name r) = hash_slots ! i" using at(1) [of "\<lambda>r. HttpHeaderHash (hr_name r)"] by (simp only: slot_hash)
  show "HttpHeaderDefinitionsTable ! (hash_slots ! i) = r" using at(2) [of "\<lambda>j. HttpHeaderDefinitionsTable ! j"] by (simp only: slot_record r_def)
  show len: "lengthtable ! (hash_slots ! i) = length (hr_name r)"
    using at(1) [of "\<lambda>r. length (hr_name r)"] at(2) [of "\<lambda>j. lengthtable ! j"] by (simp only: slot_length)
  show "hash_slots ! i \<le> MAX_HASH_VALUE" using slot_bounds(1) assms(1) by (simp add: list_all_length slot_count)
  have "MIN_WORD_LENGTH \<le> lengthtable ! (hash_slots ! i) \<and> lengthtable ! (hash_slots ! i) \<le> MAX_WORD_LENGTH"
    using slot_bounds(3) assms(1) by (simp add: list_all_length slot_count)
  then show "MIN_WORD_LENGTH \<le> length (hr_name r)" "length (hr_name r) \<le> MAX_WORD_LENGTH" by (simp_all add: len)
qed

text \<open>The tables ignore case.\<close>

lemma lower_code: "of_char (xtolower c) = (let n = of_char c in if 65 \<le> n \<and> n \<le> 90 then n + 32 else n :: nat)"
  by (simp add: xtolower_def xisupper_def Let_def)

lemma gperf_downcase_table: "gperf_downcase = map (\<lambda>n. if 65 \<le> n \<and> n \<le> 90 then n + 32 else n) [0..<256]"
  by (simp add: gperf_downcase_def upt_rec [of 0] upt_rec [of "Suc 0"] numeral_2_eq_2 [symmetric])

lemma gperf_downcase_char [simp]: "gperf_downcase ! of_char c = of_char (xtolower c)"
  by (simp add: gperf_downcase_table lower_code Let_def)

lemma asso_letters: "list_all (\<lambda>n. asso_values ! (n + 32) = asso_values ! n) [65..<91]"
  by (simp add: asso_values_def)

lemma asso_values_case: "asso_values ! of_char (xtolower c) = asso_values ! of_char c"
proof (cases "xisupper c")
  case True
  then have "asso_values ! (of_char c + 32) = asso_values ! of_char c"
    by (intro upt_all [OF asso_letters]) (simp_all add: xisupper_def)
  then show ?thesis using True by (simp add: lower_code xisupper_def Let_def)
qed (simp add: xtolower_def)

lemma asso_values_same: "xtolower c = xtolower d \<Longrightarrow> asso_values ! of_char c = asso_values ! of_char d"
  by (metis asso_values_case)

lemma gperf_case_memcmp_eq:
  "n \<le> length s \<Longrightarrow> n \<le> length t \<Longrightarrow> gperf_case_memcmp s t n = 0 \<longleftrightarrow> map xtolower (take n s) = map xtolower (take n t)"
proof (induction n arbitrary: s t)
  case (Suc n)
  then obtain c s' d t' where "s = c # s'" "t = d # t'" by (metis Suc_le_length_iff)
  then show ?case using Suc by (simp add: Let_def)
qed simp

lemma letter_bits: "list_all (\<lambda>n. (int n XOR int (n + 32)) AND NOT 32 = 0 \<and> (int (n + 32) XOR int n) AND NOT 32 = 0) [65..<91]"
  by (simp add:)

lemma lower_equal:
  "(if 65 \<le> a \<and> a \<le> 90 then a + 32 else a) = (if 65 \<le> b \<and> b \<le> 90 then b + 32 else b :: nat) \<Longrightarrow>
    a = b \<or> 65 \<le> a \<and> a \<le> 90 \<and> b = a + 32 \<or> 65 \<le> b \<and> b \<le> 90 \<and> a = b + 32"
  by (simp split: if_splits)

lemma first_byte_case:
  assumes "xtolower c = xtolower d"
  shows "(of_char c XOR of_char d) AND NOT 32 = (0 :: int)"
proof -
  have bits: "(int n XOR int (n + 32)) AND NOT 32 = 0" "(int (n + 32) XOR int n) AND NOT 32 = 0" if "65 \<le> n" "n \<le> 90" for n
    using upt_all [OF letter_bits, of n] that by (auto simp del: of_nat_add)
  have oc: "(of_char x :: int) = int (of_char x)" for x :: char by (rule of_nat_of_char [symmetric])
  have "of_char (xtolower c) = (of_char (xtolower d) :: nat)" using assms by simp
  then consider "(of_char c :: nat) = of_char d" | "65 \<le> (of_char c :: nat)" "(of_char c :: nat) \<le> 90" "of_char d = (of_char c :: nat) + 32"
    | "65 \<le> (of_char d :: nat)" "(of_char d :: nat) \<le> 90" "of_char c = (of_char d :: nat) + 32"
    using lower_equal [of "of_char c" "of_char d"] unfolding lower_code Let_def by blast
  then show ?thesis
  proof cases
    case 1
    then show ?thesis by simp
  next
    case 2
    show ?thesis unfolding oc 2(3) by (rule bits(1) [OF 2(1,2)])
  next
    case 3
    show ?thesis unfolding oc 3(3) by (rule bits(2) [OF 3(1,2)])
  qed
qed

lemma hash_case:
  assumes "map xtolower s = map xtolower t" "2 \<le> length s"
  shows "HttpHeaderHash s = HttpHeaderHash t"
proof -
  have len: "length s = length t" using assms(1) by (rule map_eq_imp_length_eq)
  have at: "asso_values ! of_char (s ! i) = asso_values ! of_char (t ! i)" if "i < length t" for i
    by (rule asso_values_same) (metis assms(1) len nth_map that)
  show ?thesis using assms(2) at [of "length t - 1"] at [of 2] at [of 8]
    by (auto simp: HttpHeaderHash_def Let_def len)
qed

lemma declared_unique:
  assumes "i < 86" "j < 86" "map xtolower (hr_name (registered_headers ! i)) = map xtolower (hr_name (registered_headers ! j))"
  shows "i = j"
proof -
  have "hash_slots ! i = hash_slots ! j"
    using hash_case [OF assms(3) declared_record(5) [OF assms(1)]] assms(1,2) by (simp add: declared_record(1))
  then show ?thesis using slot_bounds(2) assms(1,2) by (simp add: nth_eq_iff_index_eq slot_count)
qed

lemma lookup_finds_declared:
  assumes "i < 86" "map xtolower s = map xtolower (hr_name (registered_headers ! i))"
  shows "HttpHeaderHashTable_lookup s = Some (registered_headers ! i)"
proof -
  note r = declared_record [OF assms(1)]
  have len: "length s = length (hr_name (registered_headers ! i))" using assms(2) by (rule map_eq_imp_length_eq)
  then have "2 \<le> length s" using r(5) by simp
  then have h: "HttpHeaderHash s = hash_slots ! i" using hash_case [OF assms(2)] r(1) by simp
  have "s \<noteq> []" "hr_name (registered_headers ! i) \<noteq> []" using \<open>2 \<le> length s\<close> len by auto
  then have "xtolower (hd s) = xtolower (hd (hr_name (registered_headers ! i)))" using assms(2) by (metis hd_map)
  then show ?thesis using first_byte_case r(2-6) len assms(2)
    by (simp add: HttpHeaderHashTable_lookup_def Let_def h gperf_case_memcmp_eq)
qed

lemma lookup_only_declared:
  assumes "HttpHeaderHashTable_lookup s = Some r"
  shows "\<exists>i<86. r = registered_headers ! i \<and> map xtolower s = map xtolower (hr_name r)"
proof -
  let ?k = "HttpHeaderHash s"
  have k: "?k \<le> 113" "2 \<le> length s" "lengthtable ! ?k = length s" "r = HttpHeaderDefinitionsTable ! ?k"
    "gperf_case_memcmp s (hr_name r) (length s) = 0"
    using assms by (auto simp: HttpHeaderHashTable_lookup_def Let_def split: if_splits)
  have "?k \<in> set hash_slots" using upt_all [OF slot_used, of ?k] k(1-3) by auto
  then obtain i where i: "i < 86" "hash_slots ! i = ?k" by (auto simp: in_set_conv_nth slot_count)
  note ri = declared_record [OF i(1), unfolded i(2)]
  have "length (hr_name r) = length s" "r = registered_headers ! i" using ri(2,3) k(3,4) by simp_all
  then show ?thesis using i(1) k(5) gperf_case_memcmp_eq [of "length s" s "hr_name r"] by auto
qed

lemma lookup_is_find: "HttpHeaderHashTable_lookup s = find (\<lambda>r. map xtolower (hr_name r) = map xtolower s) registered_headers"
proof (cases "find (\<lambda>r. map xtolower (hr_name r) = map xtolower s) registered_headers")
  case None
  then have "map xtolower (hr_name (registered_headers ! i)) \<noteq> map xtolower s" if "i < 86" for i
    using that by (auto simp: find_None_iff slot_count in_set_conv_nth)
  then have "HttpHeaderHashTable_lookup s = None" using lookup_only_declared by (metis not_None_eq)
  then show ?thesis using None by simp
next
  case (Some r)
  then obtain i where "i < 86" "r = registered_headers ! i" "map xtolower (hr_name r) = map xtolower s"
    by (auto simp: find_Some_iff slot_count)
  then show ?thesis using lookup_finds_declared [of i s] Some by simp
qed

lemma idCache_filled: "idCache = map Some registered_headers"
  by code_simp

text \<open>C30. The perfect hash finds exactly the declared header names, in any letter case, and the cache by identity has the
  declared records in the order of the identities.\<close>

theorem header_lookup_exact:
  "HttpHeaderHashTable_lookup s = find (\<lambda>r. map xtolower (hr_name r) = map xtolower s) registered_headers \<and>
   idCache = map Some registered_headers"
  by (simp add: lookup_is_find idCache_filled)

section \<open>Facts for the users of the table\<close>

lemma lookup_id_declared: "hid < 86 \<Longrightarrow> lookup_id hid = registered_headers ! hid"
  by (simp add: lookup_id_def idCache_filled slot_count)

lemma declared_ids: "map hr_id registered_headers = [0..<86]"
  by code_simp

lemma hr_id_declared: "hid < 86 \<Longrightarrow> hr_id (registered_headers ! hid) = hid"
  using arg_cong [OF declared_ids, of "\<lambda>xs. xs ! hid"] by (simp add: slot_count)

lemma hr_id_lookup [simp]: "hid < 86 \<Longrightarrow> hr_id (lookup_id hid) = hid"
  by (simp add: lookup_id_declared hr_id_declared)

text \<open>A name is registered or not; when it is, its record is the one of its identity.\<close>

lemma lookup_name_cases:
  obtains "lookup_name s = BadHdr" "hr_id (lookup_name s) = BAD_HDR"
  | hid where "any_registered_header hid" "lookup_name s = lookup_id hid" "hr_id (lookup_name s) = hid"
      "map xtolower s = map xtolower (hr_name (lookup_id hid))"
proof (cases "HttpHeaderHashTable_lookup s")
  case None
  then show thesis using that(1) by (simp add: lookup_name_def BadHdr_def HeaderTableRecord_of_def)
next
  case (Some r)
  then obtain i where i: "i < 86" "r = registered_headers ! i" "map xtolower s = map xtolower (hr_name r)"
    using lookup_only_declared by blast
  then have r: "hr_id r = i" "r = lookup_id i" by (simp_all add: hr_id_declared lookup_id_declared)
  have bad: "lookup_id BAD_HDR = BadHdr" "hr_id BadHdr = BAD_HDR"
    by (simp_all add: lookup_id_declared BadHdr_def registered_headers_def HeaderTableRecord_of_def)
  consider "i = OTHER" | "i = BAD_HDR" | "i < OTHER" using i(1) by linarith
  then show thesis
  proof cases
    case 1
    then show ?thesis using that(1) Some r(1) bad(2) by (simp add: lookup_name_def)
  next
    case 2
    then have "lookup_name s = BadHdr" using Some r bad(1) by (simp add: lookup_name_def)
    then show ?thesis using that(1) bad(2) by simp
  next
    case 3
    then have "lookup_name s = lookup_id i" using Some r by (simp add: lookup_name_def)
    then show ?thesis using that(2) [of i] 3 i r by (simp add: any_registered_header_def)
  qed
qed

lemma lookup_name_same: "map xtolower s = map xtolower t \<Longrightarrow> lookup_name s = lookup_name t"
  by (simp add: lookup_name_def lookup_is_find)

lemma lookup_name_of_id: "any_registered_header hid \<Longrightarrow> lookup_name (hr_name (lookup_id hid)) = lookup_id hid"
  using lookup_finds_declared [of hid "hr_name (registered_headers ! hid)"]
  by (simp add: any_registered_header_def lookup_name_def lookup_id_declared hr_id_declared)

lemma hr_name_nonempty: "hid < 86 \<Longrightarrow> hr_name (lookup_id hid) \<noteq> []"
  using declared_record(5) [of hid] by (auto simp: lookup_id_declared)

end
