(* ===== verification/Str_List.thy ===== *)
theory Str_List
  imports SBuf_Value
begin

text \<open>
  \<^verbatim>\<open>StrList.cc\<close>: lists of items in one string, separated by commas or another delimiter, as header fields have them.
  A \<^verbatim>\<open>String\<close> (\<^verbatim>\<open>SquidString.h\<close>, \<^verbatim>\<open>String.cc\<close>) is its bytes; its size limit is kept, the capacity of its buffer is not.
  A pointer into a terminated string is the list of bytes from there to the terminator.
\<close>

section \<open>Strings\<close>

text \<open>What a C function sees of a string: the bytes before the first null character.\<close>

definition cstr :: "bytes \<Rightarrow> bytes" where
  "cstr s = takeWhile (\<lambda>c. c \<noteq> CHR 0x00) s"

definition String_SizeMax :: nat where
  "String_SizeMax = 3 * 64 * 1024 - 1"

definition String_SafeAdd :: "nat \<Rightarrow> nat \<Rightarrow> nat option" where
  "String_SafeAdd base extra =
     (if extra \<le> String_SizeMax \<and> base \<le> String_SizeMax - extra then Some (base + extra) else None)"

definition String_CanGrowTo :: "nat \<Rightarrow> nat \<Rightarrow> bool" where
  "String_CanGrowTo totalLen extras =
     (case String_SafeAdd totalLen extras of None \<Rightarrow> False | Some totalLen \<Rightarrow> String_SafeAdd totalLen 1 \<noteq> None)"

definition String_canGrowBy :: "bytes \<Rightarrow> nat \<Rightarrow> bool" where
  "String_canGrowBy s growthLen \<longleftrightarrow> String_CanGrowTo (length s) growthLen"

section \<open>Building a list\<close>

definition strListAdd :: "bytes \<Rightarrow> bytes \<Rightarrow> char \<Rightarrow> exn + bytes" where
  "strListAdd str item delimiter =
     (case (if str \<noteq> [] then
              (case must (String_canGrowBy str 2) ''str.canGrowBy(bufSize)'' of
                 Inl e \<Rightarrow> Inl e
               | Inr _ \<Rightarrow> Inr (str @ [delimiter, SP]))
            else Inr str) of
        Inl e \<Rightarrow> Inl e
      | Inr str1 \<Rightarrow>
          (case must (String_canGrowBy str1 (length item)) ''str.canGrowBy(itemSize)'' of
             Inl e \<Rightarrow> Inl e
           | Inr _ \<Rightarrow> Inr (str1 @ item)))"

section \<open>Iterating over a list\<close>

definition item_stops :: "char \<Rightarrow> bool \<Rightarrow> char set" where
  "item_stops del quoted = (if quoted then {CHR 0x22, CHR 0x5C} else {CHR 0x22, del, CHR '',''})"

definition item_skips :: "char \<Rightarrow> char set" where
  "item_skips del = {SP, del, CHR '','', HTAB, CR, LF}"

text \<open>The loop that finds the end of an item: quotes hide delimiters, and a backslash inside quotes hides one byte.\<close>

function item_end :: "char \<Rightarrow> bool \<Rightarrow> bytes \<Rightarrow> bytes" where
  "item_end del quoted pos =
     (case dropWhile (\<lambda>c. c \<notin> item_stops del quoted) pos of
        [] \<Rightarrow> []
      | c # r \<Rightarrow>
          if c = CHR 0x22 then item_end del (\<not> quoted) r
          else if quoted \<and> c = CHR 0x5C then item_end del quoted (tl r)
          else c # r)"
  by pat_completeness auto
termination
proof (relation "measure (\<lambda>(del, quoted, pos). length pos)")
  fix del quoted pos c r
  assume "dropWhile (\<lambda>c. c \<notin> item_stops del quoted) pos = c # r"
  then have "length (c # r) \<le> length pos" by (metis length_dropWhile_le)
  then show "((del, \<not> quoted, r), del, quoted, pos) \<in> measure (\<lambda>(del, quoted, pos). length pos)"
    "((del, quoted, tl r), del, quoted, pos) \<in> measure (\<lambda>(del, quoted, pos). length pos)" by simp_all
qed simp

declare item_end.simps [simp del]

primrec rtrim_len :: "bytes \<Rightarrow> nat \<Rightarrow> nat" where
  "rtrim_len item 0 = 0"
| "rtrim_len item (Suc len) = (if xisspace (item ! len) then rtrim_len item len else Suc len)"

text \<open>Whether there is an item, where it starts, its length, and the new position.\<close>

definition strListGetItem :: "char \<Rightarrow> bytes \<Rightarrow> bool \<times> bytes \<times> nat \<times> bytes" where
  "strListGetItem del pos =
     (let item = dropWhile (\<lambda>c. c \<in> item_skips del) pos;
          pos = item_end del False item;
          len = rtrim_len item (length item - length pos)
      in (0 < len, item, len, pos))"

lemma item_end_le: "length (item_end del quoted pos) \<le> length pos"
proof (induction del quoted pos rule: item_end.induct)
  case (1 del quoted pos)
  note IH = this
  show ?case
  proof (cases "dropWhile (\<lambda>c. c \<notin> item_stops del quoted) pos")
    case (Cons c r)
    then have "length (c # r) \<le> length pos" by (metis length_dropWhile_le)
    then show ?thesis using IH [OF Cons] Cons by (subst item_end.simps) auto
  next
    case Nil
    show ?thesis unfolding item_end.simps [of del quoted pos] Nil by simp
  qed
qed

lemma rtrim_len_le: "rtrim_len item n \<le> n"
  by (induction n) auto

lemma strListGetItem_shrinks:
  assumes "strListGetItem del pos = (True, item, len, pos')"
  shows "length pos' < length pos"
proof -
  have item: "item = dropWhile (\<lambda>c. c \<in> item_skips del) pos" and "pos' = item_end del False item"
    and "0 < rtrim_len item (length item - length pos')"
    using assms by (auto simp: strListGetItem_def Let_def)
  then have "length pos' < length item" using rtrim_len_le [of item "length item - length pos'"] by linarith
  moreover have "length item \<le> length pos" unfolding item by (rule length_dropWhile_le)
  ultimately show ?thesis by linarith
qed

text \<open>What a loop over \<^verbatim>\<open>strListGetItem()\<close> visits: the start and the length of each item.\<close>

function list_items :: "char \<Rightarrow> bytes \<Rightarrow> (bytes \<times> nat) list" where
  "list_items del pos =
     (case strListGetItem del pos of
        (found, item, ilen, pos') \<Rightarrow> if found then (item, ilen) # list_items del pos' else [])"
  by pat_completeness auto
termination
  by (relation "measure (\<lambda>(del, pos). length pos)") (auto dest: strListGetItem_shrinks [OF sym])

declare list_items.simps [simp del]

definition strListIsMember :: "bytes \<Rightarrow> bytes \<Rightarrow> char \<Rightarrow> bool" where
  "strListIsMember str m del =
     list_ex (\<lambda>(item, ilen). length m = ilen \<and> sb_compare_cstr m item False ilen = 0) (list_items del (cstr str))"

definition getListMember :: "bytes \<Rightarrow> bytes \<Rightarrow> char \<Rightarrow> bytes" where
  "getListMember str key delimiter =
     (case find (\<lambda>(item, ilen). ilen > length key \<and> take (length key) item = key \<and> c_char item (length key) = CHR ''='')
             (list_items delimiter (cstr str)) of
        None \<Rightarrow> []
      | Some (item, ilen) \<Rightarrow> take (ilen - length key - 1) (drop (length key + 1) item))"

text \<open>The test that \<^verbatim>\<open>hasListMember()\<close> and \<^verbatim>\<open>hasByNameListMember()\<close> make in their loops.\<close>

definition item_has_member :: "bytes \<Rightarrow> char \<Rightarrow> bytes \<times> nat \<Rightarrow> bool" where
  "item_has_member member separator it =
     (let item = fst it; mlen = length member
      in map xtolower (take mlen item) = map xtolower member \<and>
         c_char item mlen \<in> {CHR ''='', separator, CHR '';'', CHR 0x00})"

section \<open>What the iteration visits\<close>

definition rtrim :: "bytes \<Rightarrow> bytes" where
  "rtrim xs = rev (dropWhile xisspace (rev xs))"

definition strip :: "bytes \<Rightarrow> bytes" where
  "strip xs = rtrim (dropWhile xisspace xs)"

fun segments :: "('a \<Rightarrow> bool) \<Rightarrow> 'a list \<Rightarrow> 'a list list" where
  "segments P [] = [[]]"
| "segments P (x # xs) = (if P x then [] # segments P xs else (x # hd (segments P xs)) # tl (segments P xs))"

text \<open>Strings without the two kinds of white space that end an iteration early.\<close>

definition no_vt_ff :: "bytes \<Rightarrow> bool" where
  "no_vt_ff s \<longleftrightarrow> (\<forall>c\<in>set s. c \<noteq> CHR 0x0B \<and> c \<noteq> CHR 0x0C)"

definition list_values :: "char \<Rightarrow> bytes \<Rightarrow> bytes list" where
  "list_values del s = filter (\<lambda>x. x \<noteq> []) (map strip (segments (\<lambda>c. c = del \<or> c = CHR '','') s))"

abbreviation visited :: "char \<Rightarrow> bytes \<Rightarrow> bytes list" where
  "visited del s \<equiv> map (\<lambda>(item, n). take n item) (list_items del s)"

lemma rtrim_snoc: "rtrim (xs @ [c]) = (if xisspace c then rtrim xs else xs @ [c])"
  by (simp add: rtrim_def)

lemma rtrim_len_take: "n \<le> length item \<Longrightarrow> rtrim_len item n = length (rtrim (take n item))"
  by (induction n) (simp_all add: rtrim_def [of "[]"] take_Suc_conv_app_nth rtrim_snoc)

lemma rtrim_length: "length (rtrim xs) \<le> length xs"
  using length_dropWhile_le [of xisspace "rev xs"] by (simp add: rtrim_def)

lemma rtrim_prefix: "take (length (rtrim xs)) xs = rtrim xs"
  by (induction xs rule: rev_induct) (simp_all add: rtrim_def [of "[]"] rtrim_snoc rtrim_length)

lemma take_rtrim_len: "n \<le> length item \<Longrightarrow> take (rtrim_len item n) item = rtrim (take n item)"
  by (metis min.absorb1 rtrim_len_le rtrim_len_take rtrim_prefix take_take)

lemma rtrim_all: "(\<forall>c\<in>set xs. xisspace c) \<Longrightarrow> rtrim xs = []"
  by (simp add: rtrim_def)

lemma rtrim_Nil_iff: "rtrim xs = [] \<longleftrightarrow> (\<forall>c\<in>set xs. xisspace c)"
  by (simp add: rtrim_def dropWhile_eq_Nil_conv)

lemma strip_Nil_iff: "strip xs = [] \<longleftrightarrow> (\<forall>c\<in>set xs. xisspace c)"
proof -
  have "(\<forall>c\<in>set (dropWhile xisspace xs). xisspace c) \<longleftrightarrow> dropWhile xisspace xs = []"
    by (metis dropWhile_eq_Nil_conv empty_iff hd_dropWhile hd_in_set list.set(1))
  then show ?thesis by (simp add: strip_def rtrim_Nil_iff dropWhile_eq_Nil_conv)
qed

lemma segments_split:
  "segments P xs = takeWhile (\<lambda>x. \<not> P x) xs # (case dropWhile (\<lambda>x. \<not> P x) xs of [] \<Rightarrow> [] | _ # r \<Rightarrow> segments P r)"
  by (induction xs) auto

lemma list_items_skip:
  "dropWhile (\<lambda>c. c \<in> item_skips del) pos = dropWhile (\<lambda>c. c \<in> item_skips del) pos' \<Longrightarrow> list_items del pos = list_items del pos'"
  by (subst (1 2) list_items.simps) (simp add: strListGetItem_def)

text \<open>Up to the next delimiter, or past a quote before it.\<close>

lemma item_end_plain:
  assumes "CHR 0x22 \<notin> set a" "\<forall>c\<in>set a. c \<noteq> del \<and> c \<noteq> CHR '',''" "b = [] \<or> hd b = del \<or> hd b = CHR '',''" "del \<noteq> CHR 0x22"
  shows "item_end del False (a @ b) = b"
proof -
  have "c \<notin> item_stops del False" if "c \<in> set a" for c using that assms(1,2) by (auto simp: item_stops_def)
  then have d: "dropWhile (\<lambda>c. c \<notin> item_stops del False) (a @ b) = b"
    using assms(3) by (cases b) (auto simp: item_stops_def)
  show ?thesis using assms(3,4) unfolding item_end.simps [of del False "a @ b"] d by (cases b) auto
qed

lemma item_end_quote:
  assumes "CHR 0x22 \<in> set a" "\<forall>c\<in>set a. c \<noteq> del \<and> c \<noteq> CHR '',''"
  shows "\<exists>k<length (a @ b) - length (item_end del False (a @ b)). (a @ b) ! k = CHR 0x22"
proof -
  obtain u v where a: "a = u @ CHR 0x22 # v" "CHR 0x22 \<notin> set u" using assms(1) by (meson split_list_first)
  have "c \<notin> item_stops del False" if "c \<in> set u" for c using that assms(2) a by (auto simp: item_stops_def)
  then have d: "dropWhile (\<lambda>c. c \<notin> item_stops del False) (a @ b) = CHR 0x22 # v @ b" by (auto simp: a item_stops_def)
  have "item_end del False (a @ b) = item_end del True (v @ b)" unfolding item_end.simps [of del False "a @ b"] d by simp
  then have "length (item_end del False (a @ b)) \<le> length (v @ b)" using item_end_le [of del True "v @ b"] by simp
  then have "length u < length (a @ b) - length (item_end del False (a @ b))" by (simp add: a)
  moreover have "(a @ b) ! length u = CHR 0x22" by (simp add: a)
  ultimately show ?thesis by blast
qed

lemma in_rtrim: "k < length xs \<Longrightarrow> \<not> xisspace (xs ! k) \<Longrightarrow> xs ! k \<in> set (rtrim xs)"
proof (induction xs rule: rev_induct)
  case (snoc x xs)
  then show ?case by (cases "k < length xs") (auto simp: rtrim_snoc nth_append less_Suc_eq)
qed simp

lemma xisspace_cases: "xisspace c \<longleftrightarrow> c \<in> {SP, HTAB, CR, LF, CHR 0x0B, CHR 0x0C}"
proof -
  have "9 \<le> n \<and> n \<le> 13 \<longleftrightarrow> n \<in> {9, 10, 11, 12, 13}" for n :: nat by auto
  moreover have "of_char c = (9 :: nat) \<longleftrightarrow> c = HTAB" "of_char c = (10 :: nat) \<longleftrightarrow> c = LF" "of_char c = (11 :: nat) \<longleftrightarrow> c = CHR 0x0B"
    "of_char c = (12 :: nat) \<longleftrightarrow> c = CHR 0x0C" "of_char c = (13 :: nat) \<longleftrightarrow> c = CR"
    by (simp_all flip: of_char_nat_inject)
  ultimately show ?thesis by (auto simp: xisspace_def)
qed

lemma strListGetItem_segment:
  assumes "no_vt_ff seg" "\<forall>c\<in>set seg. c \<noteq> del \<and> c \<noteq> CHR '',''" "rest = [] \<or> hd rest = del \<or> hd rest = CHR '',''"
    "\<not> xisspace del" "del \<noteq> CHR 0x22"
  shows "strip seg = [] \<Longrightarrow> list_items del (seg @ rest) = list_items del rest"
    "strip seg \<noteq> [] \<Longrightarrow> CHR 0x22 \<notin> set seg \<Longrightarrow> visited del (seg @ rest) = strip seg # visited del rest"
    "CHR 0x22 \<in> set seg \<Longrightarrow> \<exists>x p. visited del (seg @ rest) = x # p \<and> CHR 0x22 \<in> set x"
proof -
  let ?K = "\<lambda>c. c \<in> item_skips del" let ?i = "dropWhile xisspace seg"
  have "?K c \<longleftrightarrow> xisspace c" if "c \<in> set seg" for c
    using that assms(1,2) unfolding xisspace_cases item_skips_def no_vt_ff_def by blast
  then have ws: "takeWhile ?K seg = takeWhile xisspace seg" "dropWhile ?K seg = ?i" by (auto intro: takeWhile_cong dropWhile_cong)
  have drop: "dropWhile ?K (seg @ rest) = (if strip seg = [] then dropWhile ?K rest else ?i @ rest)"
    using ws by (auto simp: dropWhile_append strip_Nil_iff) (metis dropWhile_eq_Nil_conv list.discI self_append_conv2 dropWhile_append3)+
  show "list_items del (seg @ rest) = list_items del rest" if "strip seg = []"
    using that by (intro list_items_skip) (simp add: drop)
  have sub: "set ?i \<subseteq> set seg" by (auto dest: set_dropWhileD)
  have item: "strListGetItem del (seg @ rest) = (let n = rtrim_len (?i @ rest) (length (?i @ rest) - length (item_end del False (?i @ rest)))
      in (0 < n, ?i @ rest, n, item_end del False (?i @ rest)))" if "strip seg \<noteq> []"
    using that by (simp add: strListGetItem_def drop Let_def)
  show "visited del (seg @ rest) = strip seg # visited del rest" if n: "strip seg \<noteq> []" and q: "CHR 0x22 \<notin> set seg"
  proof -
    have "item_end del False (?i @ rest) = rest" using q sub assms(2,3,5) by (intro item_end_plain) auto
    then have "strListGetItem del (seg @ rest) = (True, ?i @ rest, length (strip seg), rest)"
      using n rtrim_len_take [of "length ?i" "?i @ rest"] by (simp add: item Let_def strip_def)
    then have "list_items del (seg @ rest) = (?i @ rest, length (strip seg)) # list_items del rest"
      by (simp add: list_items.simps [of del "seg @ rest"])
    then show ?thesis using rtrim_prefix [of ?i] rtrim_length [of ?i] by (simp add: strip_def)
  qed
  show "\<exists>x p. visited del (seg @ rest) = x # p \<and> CHR 0x22 \<in> set x" if q: "CHR 0x22 \<in> set seg"
  proof -
    define w where "w = ?i @ rest"
    define e where "e = item_end del False w"
    let ?n = "length w - length e" let ?x = "rtrim (take (length w - length e) w)"
    have nsp: "\<not> xisspace (CHR 0x22)" by (simp add: xisspace_cases)
    then have "strip seg \<noteq> []" using q strip_Nil_iff by blast
    have "CHR 0x22 \<in> set ?i" using q nsp by (metis Un_iff set_append set_takeWhileD takeWhile_dropWhile_id)
    then obtain k where k: "k < ?n" "w ! k = CHR 0x22"
      using item_end_quote [of ?i del rest] sub assms(2) unfolding w_def e_def by blast
    then have x: "CHR 0x22 \<in> set ?x" using in_rtrim [of k "take ?n w"] nsp by simp
    have tk: "take (rtrim_len w ?n) w = ?x" by (rule take_rtrim_len) simp
    then have "0 < rtrim_len w ?n" using x by (metis empty_iff gr0I list.set(1) take_0)
    then have "strListGetItem del (seg @ rest) = (True, w, rtrim_len w ?n, e)"
      using item [OF \<open>strip seg \<noteq> []\<close>] by (simp add: Let_def w_def [symmetric] e_def [symmetric])
    then have "visited del (seg @ rest) = ?x # visited del e"
      using tk by (simp add: list_items.simps [of del "seg @ rest"])
    then show ?thesis using x by (intro exI conjI)
  qed
qed

text \<open>
  The iteration visits the delimited segments, trimmed, except the empty ones; from the first segment with a quote on,
  the two may differ, but both have the quote.
\<close>

lemma list_items_values:
  assumes "no_vt_ff s" "\<not> xisspace del" "del \<noteq> CHR 0x22"
  shows "visited del s = list_values del s \<or> (\<exists>pre x y p q. visited del s = pre @ x # p \<and> list_values del s = pre @ y # q \<and>
    CHR 0x22 \<in> set x \<and> CHR 0x22 \<in> set y)" (is "?same s \<or> ?quote s")
  using assms(1)
proof (induction s rule: length_induct)
  case (1 s)
  let ?D = "\<lambda>c. c = del \<or> c = CHR '',''"
  define seg rest where "seg = takeWhile (\<lambda>c. \<not> ?D c) s" and "rest = dropWhile (\<lambda>c. \<not> ?D c) s"
  have s: "s = seg @ rest" by (simp add: seg_def rest_def)
  have stop: "rest = [] \<or> hd rest = del \<or> hd rest = CHR '',''" unfolding rest_def using hd_dropWhile [of "\<lambda>c. \<not> ?D c" s] by blast
  have seg: "no_vt_ff seg" "\<forall>c\<in>set seg. c \<noteq> del \<and> c \<noteq> CHR '',''"
    using 1(2) by (auto simp: no_vt_ff_def seg_def dest: set_takeWhileD)
  note visit = strListGetItem_segment [OF seg stop assms(2,3), folded s]
  have segs: "segments ?D s = seg # (case rest of [] \<Rightarrow> [] | _ # r \<Rightarrow> segments ?D r)"
    by (subst segments_split) (simp add: seg_def rest_def)
  define vs where "vs = (case rest of [] \<Rightarrow> [] | _ # r \<Rightarrow> list_values del r)"
  have vals: "list_values del s = (if strip seg = [] then vs else strip seg # vs)"
    unfolding list_values_def segs by (cases rest) (simp_all add: vs_def list_values_def)
  have tail: "visited del rest = vs \<or> (\<exists>pre x y p q. visited del rest = pre @ x # p \<and> vs = pre @ y # q \<and> CHR 0x22 \<in> set x \<and> CHR 0x22 \<in> set y)"
  proof (cases rest)
    case Nil
    then show ?thesis by (simp add: vs_def list_items.simps strListGetItem_def item_end.simps)
  next
    case (Cons d r)
    then have "list_items del rest = list_items del r" using stop by (intro list_items_skip) (auto simp: item_skips_def)
    moreover have "length r < length s" "no_vt_ff r" using 1(2) by (simp_all add: s Cons no_vt_ff_def)
    ultimately show ?thesis using 1(1) Cons by (simp add: vs_def)
  qed
  show ?case
  proof (cases "strip seg = []")
    case True
    then show ?thesis using tail visit(1) by (simp add: vals)
  next
    case False
    show ?thesis
    proof (cases "CHR 0x22 \<in> set seg")
      case True
      moreover have "CHR 0x22 \<in> set (strip seg)"
      proof -
        have "\<not> xisspace (CHR 0x22)" by (simp add: xisspace_cases)
        then have "CHR 0x22 \<in> set (dropWhile xisspace seg)" using True by (metis Un_iff set_append set_takeWhileD takeWhile_dropWhile_id)
        then show ?thesis using \<open>\<not> xisspace (CHR 0x22)\<close> unfolding strip_def by (metis in_rtrim in_set_conv_nth)
      qed
      moreover obtain x p where "visited del s = [] @ x # p" "CHR 0x22 \<in> set x" using visit(3) [OF True] by auto
      moreover have "list_values del s = [] @ strip seg # vs" using False by (simp add: vals)
      ultimately show ?thesis by metis
    next
      case no: False
      then have v: "visited del s = strip seg # visited del rest" "list_values del s = strip seg # vs"
        using visit(2) False by (simp_all add: vals)
      then show ?thesis using tail by (metis append_Cons)
    qed
  qed
qed

lemma visited_plain:
  assumes "no_vt_ff s" "\<not> xisspace del" "del \<noteq> CHR 0x22" "CHR 0x22 \<notin> set s"
  shows "visited del s = list_values del s"
proof -
  have "set y \<subseteq> set s" if "y \<in> set (list_values del s)" for y
  proof -
    have "\<Union> (set ` set (segments P s)) \<subseteq> set s" for P :: "char \<Rightarrow> bool"
    proof (induction s)
      case (Cons c s)
      moreover have "segments P s \<noteq> []" by (subst segments_split) simp
      ultimately show ?case by (cases "segments P s") auto
    qed simp
    moreover have "set (strip z) \<subseteq> set z" for z by (auto simp: strip_def rtrim_def dest!: set_dropWhileD)
    ultimately show ?thesis using that by (fastforce simp: list_values_def)
  qed
  then show ?thesis using list_items_values [OF assms(1-3)] assms(4) by fastforce
qed

text \<open>What follows a visited item is white space, a delimiter or the end.\<close>

lemma item_end_suffix: "\<exists>u. pos = u @ item_end del quoted pos"
proof (induction del quoted pos rule: item_end.induct)
  case (1 del quoted pos)
  let ?d = "dropWhile (\<lambda>c. c \<notin> item_stops del quoted) pos"
  show ?case
  proof (cases ?d)
    case Nil
    show ?thesis unfolding item_end.simps [of del quoted pos] Nil by simp
  next
    case (Cons c r)
    have "pos = takeWhile (\<lambda>c. c \<notin> item_stops del quoted) pos @ c # r" by (simp flip: Cons)
    then obtain u where pos: "pos = u @ c # r" by blast
    have "\<exists>v. r = v @ tl r" by (cases r) auto
    then obtain v where r: "r = v @ tl r" by blast
    consider "c = CHR 0x22" | "c \<noteq> CHR 0x22" "quoted \<and> c = CHR 0x5C" | "c \<noteq> CHR 0x22" "\<not> (quoted \<and> c = CHR 0x5C)" by blast
    then show ?thesis
    proof cases
      case 1
      then obtain w where "r = w @ item_end del (\<not> quoted) r" using "1.IH"(1) [OF Cons] by blast
      then have "pos = (u @ c # w) @ item_end del (\<not> quoted) r" using pos by simp
      then show ?thesis unfolding item_end.simps [of del quoted pos] Cons using 1 by auto
    next
      case 2
      then obtain w where "tl r = w @ item_end del quoted (tl r)" using "1.IH"(2) [OF Cons] by blast
      then have "pos = (u @ c # v @ w) @ item_end del quoted (tl r)" using pos r by simp
      then show ?thesis unfolding item_end.simps [of del quoted pos] Cons using 2 by auto
    next
      case 3
      then show ?thesis unfolding item_end.simps [of del quoted pos] Cons using pos by auto
    qed
  qed
qed

lemma item_end_stop: "item_end del quoted pos \<noteq> [] \<Longrightarrow> hd (item_end del quoted pos) = del \<or> hd (item_end del quoted pos) = CHR '',''"
proof (induction del quoted pos rule: item_end.induct)
  case (1 del quoted pos)
  let ?d = "dropWhile (\<lambda>c. c \<notin> item_stops del quoted) pos"
  show ?case
  proof (cases ?d)
    case Nil
    show ?thesis using 1(3) unfolding item_end.simps [of del quoted pos] Nil by simp
  next
    case (Cons c r)
    then have "c \<in> item_stops del quoted" using hd_dropWhile [of "\<lambda>c. c \<notin> item_stops del quoted" pos] by auto
    then show ?thesis using 1 Cons unfolding item_end.simps [of del quoted pos] Cons
      by (auto simp: item_stops_def split: if_splits)
  qed
qed

lemma after_item:
  assumes "strListGetItem del pos = (found, item, n, pos')"
  shows "n \<le> length item" "drop n item = [] \<or> xisspace (hd (drop n item)) \<or> hd (drop n item) = del \<or> hd (drop n item) = CHR '',''"
proof -
  define k where "k = length item - length pos'"
  have n: "n = rtrim_len item k" "pos' = item_end del False item" using assms by (auto simp: strListGetItem_def Let_def k_def)
  then have "n \<le> k" by (simp add: rtrim_len_le)
  then show "n \<le> length item" by (simp add: k_def)
  have "drop k item = pos'" using item_end_suffix [of item del False] n(2) by (metis append_eq_conv_conj diff_add_inverse2 k_def length_append)
  moreover have "n < k \<Longrightarrow> xisspace (item ! n)" unfolding n(1) by (induction k) (auto split: if_splits simp: less_Suc_eq)
  ultimately show "drop n item = [] \<or> xisspace (hd (drop n item)) \<or> hd (drop n item) = del \<or> hd (drop n item) = CHR '',''"
    using item_end_stop [of del False item] n(2) \<open>n \<le> k\<close> by (cases "n < k") (auto simp: hd_drop_conv_nth k_def)
qed

lemma list_items_after:
  "(item, n) \<in> set (list_items del pos) \<Longrightarrow> n \<le> length item \<and>
    (drop n item = [] \<or> xisspace (hd (drop n item)) \<or> hd (drop n item) = del \<or> hd (drop n item) = CHR '','')"
proof (induction del pos rule: list_items.induct)
  case (1 del pos)
  obtain found item' n' pos' where g: "strListGetItem del pos = (found, item', n', pos')" by (cases "strListGetItem del pos")
  then show ?case using 1 after_item [OF g] by (simp add: list_items.simps [of del pos] split: if_splits) blast
qed

end
