(* ===== verification/Content_Length.thy ===== *)
theory Content_Length
  imports Str_List Http1_Parser
begin

text \<open>
  \<^verbatim>\<open>http/ContentLengthInterpreter\<close> with \<^verbatim>\<open>httpHeaderParseOffset()\<close> of \<^verbatim>\<open>HttpHeaderTools.cc\<close>: finds the length of a message
  body from its Content-Length fields, which may repeat and may be lists. What decides is proved: the fields are accepted exactly if
  all their members are the same number. A member of vertical tabs or form feeds alone ends the
  inspection of its list early.
\<close>

section \<open>Reading a number\<close>

text \<open>\<^verbatim>\<open>strtoll()\<close> with base 10: the result, the first byte not read, and whether the range was exceeded.\<close>

definition LLONG_MAX :: int where
  "LLONG_MAX = 9223372036854775807"

definition LLONG_MIN :: int where
  "LLONG_MIN = - 9223372036854775808"

definition c_strtoll :: "bytes \<Rightarrow> int \<times> bytes \<times> bool" where
  "c_strtoll start =
     (let s = dropWhile xisspace start;
          signed = s \<noteq> [] \<and> hd s \<in> {CHR ''+'', CHR ''-''};
          neg = s \<noteq> [] \<and> hd s = CHR ''-'';
          s = if signed then tl s else s;
          ds = takeWhile xisdigit s;
          n = (if neg then - 1 else 1) * int (number_of 10 ds 0);
          r = dropWhile xisdigit s
      in if ds = [] then (0, start, False)
         else if n > LLONG_MAX then (LLONG_MAX, r, True)
         else if n < LLONG_MIN then (LLONG_MIN, r, True)
         else (n, r, False))"

text \<open>The value and the first byte after it, if the string has a number in range.\<close>

definition httpHeaderParseOffset :: "bytes \<Rightarrow> (int \<times> bytes) option" where
  "httpHeaderParseOffset start =
     (case c_strtoll start of
        (res, r, errno) \<Rightarrow>
          if errno \<and> res = 0 then None
          else if errno \<and> (res = LLONG_MIN \<or> res = LLONG_MAX) then None
          else if start = r then None
          else Some (res, r))"

section \<open>The interpreter\<close>

record length_interpreter =
  cl_value :: int
  cl_headerWideProblem :: "string option"
  cl_sawBad :: bool
  cl_needsSanitizing :: bool
  cl_sawGood :: bool
  cl_prohibitedAndIgnored :: "string option"

definition ContentLengthInterpreter :: length_interpreter where
  "ContentLengthInterpreter = \<lparr>cl_value = - 1, cl_headerWideProblem = None, cl_sawBad = False, cl_needsSanitizing = False,
     cl_sawGood = False, cl_prohibitedAndIgnored = None\<rparr>"

definition ProhibitsContentLength :: "nat \<Rightarrow> bool" where
  "ProhibitsContentLength code \<longleftrightarrow> code = 204 \<or> (100 \<le> code \<and> code < 200)"

definition applyStatusCodeRules :: "nat \<Rightarrow> length_interpreter \<Rightarrow> length_interpreter" where
  "applyStatusCodeRules code c =
     (if cl_prohibitedAndIgnored c = None \<and> ProhibitsContentLength code then
        c\<lparr>cl_prohibitedAndIgnored := Some (if code = 204 then ''prohibited and ignored in the 204 response''
            else ''prohibited and ignored the 1xx response'')\<rparr>
      else c)"

definition applyTrailerRules :: "length_interpreter \<Rightarrow> length_interpreter" where
  "applyTrailerRules c =
     (if cl_prohibitedAndIgnored c = None then c\<lparr>cl_prohibitedAndIgnored := Some ''prohibited in trailers''\<rparr> else c)"

text \<open>
  A range of bytes is the terminated string that starts with it, and the number of bytes. Reading the terminator
  gives a null character, which is in none of the sets.
\<close>

fun findDigits :: "http_config \<Rightarrow> bytes \<Rightarrow> nat \<Rightarrow> bytes option" where
  "findDigits cfg prefix 0 = None"
| "findDigits cfg [] (Suc n) = None"
| "findDigits cfg (ch # prefix) (Suc n) =
     (if cs_index cs_DIGIT ch then Some (ch # prefix)
      else if \<not> cs_index (WhitespaceCharacters cfg) ch then None
      else findDigits cfg prefix n)"

fun goodSuffix :: "http_config \<Rightarrow> bytes \<Rightarrow> nat \<Rightarrow> bool" where
  "goodSuffix cfg suffix 0 = True"
| "goodSuffix cfg [] (Suc n) = False"
| "goodSuffix cfg (ch # suffix) (Suc n) = (if \<not> cs_index (DelimiterCharacters cfg) ch then False else goodSuffix cfg suffix n)"

definition checkValue :: "http_config \<Rightarrow> bytes \<Rightarrow> nat \<Rightarrow> (bool, length_interpreter) throwing" where
  "checkValue cfg rawValue valueSize =
     then_do (\<lambda>c. must_do (\<not> cl_sawBad c) ''!sawBad'' c) (\<lambda>_ c.
       case findDigits cfg rawValue valueSize of
         None \<Rightarrow> (Inr False, c\<lparr>cl_sawBad := True\<rparr>)
       | Some digits \<Rightarrow>
           (case httpHeaderParseOffset digits of
              None \<Rightarrow> (Inr False, c\<lparr>cl_sawBad := True\<rparr>)
            | Some (latestValue, suffix) \<Rightarrow>
                if latestValue < 0 then (Inr False, c\<lparr>cl_sawBad := True\<rparr>)
                else if \<not> goodSuffix cfg suffix (valueSize - (length rawValue - length suffix)) then (Inr False, c\<lparr>cl_sawBad := True\<rparr>)
                else if cl_sawGood c then
                  (let conflicting = cl_value c \<noteq> latestValue
                   in (Inr False, c\<lparr>cl_needsSanitizing := True,
                         cl_headerWideProblem := (if conflicting then Some ''Conflicting''
                            else if cl_headerWideProblem c = None then Some ''Duplicate'' else cl_headerWideProblem c),
                         cl_sawBad := (\<not> relaxed cfg \<or> conflicting)\<rparr>))
                else (Inr True, c\<lparr>cl_sawGood := True, cl_value := latestValue\<rparr>)))"

primrec checkList_loop :: "http_config \<Rightarrow> (bytes \<times> nat) list \<Rightarrow> (unit, length_interpreter) throwing" where
  "checkList_loop cfg [] c = (Inr (), c)"
| "checkList_loop cfg (it # items) c =
     then_do (checkValue cfg (fst it) (snd it)) (\<lambda>ok c1.
       if \<not> ok \<and> cl_sawBad c1 then (Inr (), c1) else checkList_loop cfg items c1) c"

definition checkList :: "http_config \<Rightarrow> bytes \<Rightarrow> (bool, length_interpreter) throwing" where
  "checkList cfg field =
     then_do (\<lambda>c. must_do (\<not> cl_sawBad c) ''!sawBad'' c) (\<lambda>_ c.
       if \<not> relaxed cfg then (Inr False, c\<lparr>cl_sawBad := True\<rparr>)
       else then_do (checkList_loop cfg (list_items (CHR '','') (cstr field))) (\<lambda>_ c1. (Inr False, c1))
              (c\<lparr>cl_needsSanitizing := True\<rparr>))"

definition checkField :: "http_config \<Rightarrow> bytes \<Rightarrow> (bool, length_interpreter) throwing" where
  "checkField cfg rawValue c =
     (if cl_sawBad c then (Inr False, c)
      else if CHR '','' \<in> set (cstr rawValue) then checkList cfg rawValue c
      else checkValue cfg rawValue (length rawValue) c)"

section \<open>What a member of the fields says\<close>

text \<open>A number in range, after white space and before delimiters.\<close>

definition length_value :: "http_config \<Rightarrow> bytes \<Rightarrow> int option" where
  "length_value cfg m =
     (let s = dropWhile (cs_index (WhitespaceCharacters cfg)) m; n = int (number_of 10 (takeWhile xisdigit s) 0)
      in if s \<noteq> [] \<and> xisdigit (hd s) \<and> list_all (cs_index (DelimiterCharacters cfg)) (dropWhile xisdigit s) \<and> n \<le> LLONG_MAX
         then Some n else None)"

text \<open>The members of a field: of a list, its trimmed parts that are not empty; else the field itself.\<close>

definition length_members :: "bytes \<Rightarrow> bytes list" where
  "length_members f = (if CHR '','' \<in> set f then list_values (CHR '','') f else [f])"

text \<open>How a member changes the interpreter.\<close>

definition length_note :: "http_config \<Rightarrow> bytes \<Rightarrow> length_interpreter \<Rightarrow> length_interpreter" where
  "length_note cfg m c =
     (case length_value cfg m of
        None \<Rightarrow> c\<lparr>cl_sawBad := True\<rparr>
      | Some v \<Rightarrow>
          if cl_sawGood c then
            c\<lparr>cl_needsSanitizing := True,
              cl_headerWideProblem := (if cl_value c \<noteq> v then Some ''Conflicting''
                else if cl_headerWideProblem c = None then Some ''Duplicate'' else cl_headerWideProblem c),
              cl_sawBad := (\<not> relaxed cfg \<or> cl_value c \<noteq> v)\<rparr>
          else c\<lparr>cl_sawGood := True, cl_value := v\<rparr>)"

lemma delimiters:
  "cs_index (WhitespaceCharacters cfg) c \<longleftrightarrow> (if relaxed cfg then relaxed_delim c else c = SP \<or> c = HTAB)"
  "cs_index (DelimiterCharacters cfg) c \<longleftrightarrow> (if relaxed cfg then relaxed_delim c else c = SP)"
  by (auto simp: WhitespaceCharacters_def DelimiterCharacters_def RelaxedDelimiterCharacters_def charset_simps relaxed_delim_def
      cs_WSP_def cs_SP_def cs_HTAB_def cs_CR_def)

lemma space_not_digit: "xisspace c \<Longrightarrow> \<not> xisdigit c"
  by (auto simp: xisspace_def xisdigit_def)

lemma white_not_digit: "cs_index (WhitespaceCharacters cfg) c \<Longrightarrow> \<not> xisdigit c" "cs_index (DelimiterCharacters cfg) c \<Longrightarrow> \<not> xisdigit c"
  by (auto simp: delimiters relaxed_delim_def xisdigit_def split: if_splits)

lemma findDigits_dropWhile:
  "findDigits cfg (m @ r) (length m) =
     (let s = dropWhile (cs_index (WhitespaceCharacters cfg)) m in if s \<noteq> [] \<and> xisdigit (hd s) then Some (s @ r) else None)"
  by (induction m) (auto simp: cs_index_DIGIT Let_def white_not_digit)

lemma goodSuffix_list_all: "n \<le> length suffix \<Longrightarrow> goodSuffix cfg suffix n = list_all (cs_index (DelimiterCharacters cfg)) (take n suffix)"
  by (induction cfg suffix n rule: goodSuffix.induct) auto

lemma strtoll_digits:
  assumes "s \<noteq> []" "xisdigit (hd s)"
  shows "httpHeaderParseOffset s =
    (let n = int (number_of 10 (takeWhile xisdigit s) 0) in if n \<le> LLONG_MAX then Some (n, dropWhile xisdigit s) else None)"
proof -
  obtain c r where s: "s = c # r" "xisdigit c" using assms by (cases s) auto
  then have "dropWhile xisspace s = s" "hd s \<notin> {CHR ''+'', CHR ''-''}" "hd s \<noteq> CHR ''-''"
    using space_not_digit [of c] by (auto simp: xisdigit_def)
  moreover have "takeWhile xisdigit s \<noteq> []" using s by simp
  moreover have "s \<noteq> dropWhile xisdigit s"
    using s length_dropWhile_le [of xisdigit r] by (metis dropWhile.simps(2) impossible_Cons)
  moreover have "\<not> int n < LLONG_MIN" "int n \<noteq> LLONG_MIN" "LLONG_MAX \<noteq> 0" "LLONG_MIN \<noteq> LLONG_MAX" for n
    by (simp_all add: LLONG_MIN_def LLONG_MAX_def)
  ultimately show ?thesis by (simp add: httpHeaderParseOffset_def c_strtoll_def Let_def)
qed

lemma while_append_stop:
  assumes "r = [] \<or> \<not> P (hd r)"
  shows "takeWhile P (s @ r) = takeWhile P s" "dropWhile P (s @ r) = dropWhile P s @ r"
proof -
  have "takeWhile P r = []" "dropWhile P r = r" using assms by (cases r; simp)+
  then show "takeWhile P (s @ r) = takeWhile P s" "dropWhile P (s @ r) = dropWhile P s @ r" by (induction s) auto
qed

text \<open>The bytes after a member never continue its number.\<close>

lemma checkValue_note:
  assumes "r = [] \<or> \<not> xisdigit (hd r)" "\<not> cl_sawBad c"
  shows "checkValue cfg (m @ r) (length m) c =
    (Inr (length_value cfg m \<noteq> None \<and> \<not> cl_sawGood c), length_note cfg m c)"
proof -
  let ?s = "dropWhile (cs_index (WhitespaceCharacters cfg)) m"
  show ?thesis
  proof (cases "?s \<noteq> [] \<and> xisdigit (hd ?s)")
    case False
    then have "length_value cfg m = None" by (auto simp: length_value_def Let_def)
    moreover have "findDigits cfg (m @ r) (length m) = None" using False by (auto simp: findDigits_dropWhile Let_def)
    ultimately show ?thesis using assms(2) by (simp add: checkValue_def then_do_def must_do_def must_def length_note_def)
  next
    case True
    let ?t = "dropWhile xisdigit ?s" let ?n = "int (number_of 10 (takeWhile xisdigit ?s) 0)"
    have tw: "takeWhile xisdigit (?s @ r) = takeWhile xisdigit ?s" "dropWhile xisdigit (?s @ r) = ?t @ r"
      using while_append_stop [of r xisdigit ?s] assms(1) by simp_all
    have fd: "findDigits cfg (m @ r) (length m) = Some (?s @ r)" using True by (simp add: findDigits_dropWhile Let_def)
    have po: "httpHeaderParseOffset (?s @ r) = (if ?n \<le> LLONG_MAX then Some (?n, ?t @ r) else None)"
      using strtoll_digits [of "?s @ r"] True by (simp add: tw Let_def)
    have "length ?t \<le> length m" by (meson length_dropWhile_le order_trans)
    then have "length m - (length (m @ r) - length (?t @ r)) = length ?t" by simp
    then have gs: "goodSuffix cfg (?t @ r) (length m - (length (m @ r) - length (?t @ r))) = list_all (cs_index (DelimiterCharacters cfg)) ?t"
      using goodSuffix_list_all [of "length ?t" "?t @ r" cfg] by simp
    show ?thesis using assms(2) True
      by (auto simp: checkValue_def then_do_def must_do_def must_def fd po gs length_note_def length_value_def Let_def simp del: length_append)
  qed
qed

section \<open>What the fields say together\<close>

primrec note_all :: "http_config \<Rightarrow> bytes list \<Rightarrow> length_interpreter \<Rightarrow> length_interpreter" where
  "note_all cfg [] c = c"
| "note_all cfg (m # ms) c = (let c1 = length_note cfg m c in if cl_sawBad c1 then c1 else note_all cfg ms c1)"

definition say_same :: "http_config \<Rightarrow> bytes list \<Rightarrow> int \<Rightarrow> bool" where
  "say_same cfg ms v \<longleftrightarrow> (\<forall>m\<in>set ms. length_value cfg m = Some v)"

lemma say_same_simps [simp]:
  "say_same cfg [] v" "say_same cfg (m # ms) v \<longleftrightarrow> length_value cfg m = Some v \<and> say_same cfg ms v"
  "say_same cfg (ms @ ms') v \<longleftrightarrow> say_same cfg ms v \<and> say_same cfg ms' v"
  by (auto simp: say_same_def)

lemma checkList_loop_note:
  assumes "\<And>item n. (item, n) \<in> set its \<Longrightarrow> n \<le> length item \<and> (drop n item = [] \<or> \<not> xisdigit (hd (drop n item)))" "\<not> cl_sawBad c"
  shows "checkList_loop cfg its c = (Inr (), note_all cfg (map (\<lambda>(item, n). take n item) its) c)"
  using assms
proof (induction its arbitrary: c)
  case (Cons it its)
  obtain item n where it: "it = (item, n)" by fastforce
  then have n: "n \<le> length item" "drop n item = [] \<or> \<not> xisdigit (hd (drop n item))" using Cons.prems(1) by auto
  then have cv: "checkValue cfg item n c = (Inr (length_value cfg (take n item) \<noteq> None \<and> \<not> cl_sawGood c), length_note cfg (take n item) c)"
    using checkValue_note [OF n(2) Cons.prems(2), of cfg "take n item"] by simp
  have "cl_sawBad (length_note cfg (take n item) c) \<Longrightarrow> \<not> (length_value cfg (take n item) \<noteq> None \<and> \<not> cl_sawGood c)"
    using Cons.prems(2) by (auto simp: length_note_def split: option.splits if_splits)
  then show ?case using Cons by (auto simp: it then_do_def cv Let_def)
qed simp

lemma checkList_note:
  assumes "\<not> cl_sawBad c" "relaxed cfg"
  shows "checkList cfg f c = (Inr False, note_all cfg (visited (CHR '','') (cstr f)) (c\<lparr>cl_needsSanitizing := True\<rparr>))"
proof -
  have "\<not> xisdigit (CHR '','')" by (simp add: xisdigit_def)
  then have "checkList_loop cfg (list_items (CHR '','') (cstr f)) (c\<lparr>cl_needsSanitizing := True\<rparr>) =
      (Inr (), note_all cfg (visited (CHR '','') (cstr f)) (c\<lparr>cl_needsSanitizing := True\<rparr>))"
    using assms(1) by (intro checkList_loop_note) (auto dest!: list_items_after simp: space_not_digit)
  then show ?thesis using assms by (simp add: checkList_def then_do_def must_do_def must_def)
qed

text \<open>The interpreter after members of its fields: not bad exactly if they say the same as what it already has.\<close>

definition agrees :: "http_config \<Rightarrow> bytes list \<Rightarrow> length_interpreter \<Rightarrow> length_interpreter \<Rightarrow> bool" where
  "agrees cfg ms c c' \<longleftrightarrow>
     (cl_sawBad c' \<longleftrightarrow> \<not> (\<exists>v. (cl_sawGood c \<longrightarrow> cl_value c = v) \<and> say_same cfg ms v)) \<and>
     (\<not> cl_sawBad c' \<longrightarrow> (cl_sawGood c' \<longleftrightarrow> cl_sawGood c \<or> ms \<noteq> []) \<and> (cl_sawGood c \<longrightarrow> cl_value c' = cl_value c) \<and>
       (cl_sawGood c' \<longrightarrow> say_same cfg ms (cl_value c')))"

lemma agrees_sanitizing [simp]: "agrees cfg ms (c\<lparr>cl_needsSanitizing := b\<rparr>) c' = agrees cfg ms c c'"
  by (simp add: agrees_def)

lemma agrees_Cons:
  assumes "length_value cfg m = Some v" "cl_sawGood c \<longrightarrow> cl_value c = v" "cl_sawGood c1" "cl_value c1 = v" "agrees cfg ms c1 c'"
  shows "agrees cfg (m # ms) c c'"
  using assms by (auto simp: agrees_def)

lemma note_all_agrees: "relaxed cfg \<Longrightarrow> \<not> cl_sawBad c \<Longrightarrow> agrees cfg ms c (note_all cfg ms c)"
proof (induction ms arbitrary: c)
  case Nil
  then show ?case by (auto simp: agrees_def)
next
  case (Cons m ms)
  show ?case
  proof (cases "\<exists>v. length_value cfg m = Some v \<and> (cl_sawGood c \<longrightarrow> cl_value c = v)")
    case True
    then obtain v where v: "length_value cfg m = Some v" "cl_sawGood c \<longrightarrow> cl_value c = v" by blast
    then have n: "cl_sawGood (length_note cfg m c)" "cl_value (length_note cfg m c) = v" "\<not> cl_sawBad (length_note cfg m c)"
      using Cons.prems by (auto simp: length_note_def)
    then show ?thesis using agrees_Cons [OF v n(1,2) Cons.IH [OF Cons.prems(1) n(3)]] by simp
  next
    case False
    then have "cl_sawBad (length_note cfg m c)" by (auto simp: length_note_def split: option.splits)
    moreover have "\<not> (\<exists>v. (cl_sawGood c \<longrightarrow> cl_value c = v) \<and> say_same cfg (m # ms) v)" using False by auto
    ultimately show ?thesis by (simp add: agrees_def)
  qed
qed

lemma length_note_sanitizing: "cl_needsSanitizing c \<Longrightarrow> cl_needsSanitizing (length_note cfg m c)"
  by (simp add: length_note_def split: option.split)

lemma note_all_sanitizing: "cl_needsSanitizing c \<Longrightarrow> cl_needsSanitizing (note_all cfg ms c)"
  by (induction ms arbitrary: c) (simp_all add: Let_def length_note_sanitizing)

lemma quote_no_length: "CHR 0x22 \<in> set m \<Longrightarrow> length_value cfg m = None"
proof (rule ccontr)
  assume q: "CHR 0x22 \<in> set m" "length_value cfg m \<noteq> None"
  let ?s = "dropWhile (cs_index (WhitespaceCharacters cfg)) m"
  have no: "\<not> xisdigit (CHR 0x22)" "\<not> cs_index (WhitespaceCharacters cfg) (CHR 0x22)" "\<not> cs_index (DelimiterCharacters cfg) (CHR 0x22)"
    by (simp_all add: xisdigit_def delimiters relaxed_delim_def)
  have "CHR 0x22 \<in> set ?s" using q(1) no(2) by (metis Un_iff set_append set_takeWhileD takeWhile_dropWhile_id)
  then have "CHR 0x22 \<in> set (dropWhile xisdigit ?s)" using no(1) by (metis Un_iff set_append set_takeWhileD takeWhile_dropWhile_id)
  then show False using q(2) no(3) by (auto simp: length_value_def Let_def list_all_iff split: if_splits)
qed

lemma agrees_visited:
  assumes "no_vt_ff f" "agrees cfg (visited (CHR '','') f) c c'"
  shows "agrees cfg (list_values (CHR '','') f) c c'"
proof -
  have "\<not> xisspace (CHR '','')" by (simp add: xisspace_cases)
  from list_items_values [OF assms(1) this]
  consider "visited (CHR '','') f = list_values (CHR '','') f"
    | pre x y p q where "visited (CHR '','') f = pre @ x # p" "list_values (CHR '','') f = pre @ y # q" "CHR 0x22 \<in> set x" "CHR 0x22 \<in> set y"
    by auto
  then show ?thesis
  proof cases
    case 2
    then have "\<not> say_same cfg (visited (CHR '','') f) v" "\<not> say_same cfg (list_values (CHR '','') f) v" for v
      by (simp_all add: quote_no_length)
    then show ?thesis using assms(2) by (simp add: agrees_def)
  qed (use assms(2) in simp)
qed

lemma cstr_id: "CHR 0x00 \<notin> set f \<Longrightarrow> cstr f = f"
  by (auto simp: cstr_def takeWhile_eq_all_conv)

text \<open>One field: what it returns, and how it leaves the interpreter.\<close>

lemma checkField_agrees:
  assumes "relaxed cfg" "no_vt_ff f" "CHR 0x00 \<notin> set f" "\<not> cl_sawBad c"
  shows "\<exists>ok c'. checkField cfg f c = (Inr ok, c') \<and> agrees cfg (length_members f) c c' \<and>
    (cl_needsSanitizing c' \<longleftrightarrow> cl_needsSanitizing c \<or> CHR '','' \<in> set f \<or> cl_sawGood c \<and> length_value cfg f \<noteq> None)"
proof (cases "CHR '','' \<in> set f")
  case True
  let ?c = "c\<lparr>cl_needsSanitizing := True\<rparr>"
  have "agrees cfg (visited (CHR '','') f) ?c (note_all cfg (visited (CHR '','') f) ?c)"
    using assms(1,4) by (intro note_all_agrees) simp_all
  then have "agrees cfg (list_values (CHR '','') f) ?c (note_all cfg (visited (CHR '','') f) ?c)" by (rule agrees_visited [OF assms(2)])
  moreover have "checkField cfg f c = (Inr False, note_all cfg (visited (CHR '','') f) ?c)"
    using checkList_note [OF assms(4,1), of f] True assms(4) by (simp add: checkField_def cstr_id [OF assms(3)])
  ultimately show ?thesis using True note_all_sanitizing [of ?c cfg "visited (CHR '','') f"] by (auto simp: length_members_def)
next
  case False
  have "checkField cfg f c = (Inr (length_value cfg f \<noteq> None \<and> \<not> cl_sawGood c), length_note cfg f c)"
    using checkValue_note [of "[]" c cfg f] False assms(4) by (simp add: checkField_def cstr_id [OF assms(3)])
  moreover have "agrees cfg [f] c (length_note cfg f c)" using note_all_agrees [OF assms(1,4), of "[f]"] by (simp add: Let_def split: if_splits)
  moreover have "cl_needsSanitizing (length_note cfg f c) \<longleftrightarrow> cl_needsSanitizing c \<or> cl_sawGood c \<and> length_value cfg f \<noteq> None"
    by (auto simp: length_note_def split: option.splits)
  ultimately show ?thesis using False by (simp add: length_members_def)
qed

text \<open>The calls that parsing a header makes: one for each Content-Length field.\<close>

primrec check_fields :: "http_config \<Rightarrow> bytes list \<Rightarrow> (unit, length_interpreter) throwing" where
  "check_fields cfg [] c = (Inr (), c)"
| "check_fields cfg (f # fs) c = then_do (checkField cfg f) (\<lambda>_. check_fields cfg fs) c"

definition field_ok :: "bytes \<Rightarrow> bool" where
  "field_ok f \<longleftrightarrow> no_vt_ff f \<and> CHR 0x00 \<notin> set f"

lemma agrees_append:
  assumes "agrees cfg ms c c1" "\<not> cl_sawBad c1" "agrees cfg ms' c1 c'"
  shows "agrees cfg (ms @ ms') c c'"
proof (cases "cl_sawGood c1")
  case True
  then have v: "(cl_sawGood c \<longrightarrow> cl_value c = v) \<and> say_same cfg ms v \<longleftrightarrow> v = cl_value c1" for v
    using assms(1,2) by (cases ms) (auto simp: agrees_def)
  have ex: "(\<exists>v. (cl_sawGood c \<longrightarrow> cl_value c = v) \<and> say_same cfg (ms @ ms') v) \<longleftrightarrow> say_same cfg ms' (cl_value c1)" unfolding say_same_simps(3) conj_assoc [symmetric] v by simp
  have "ms @ ms' \<noteq> [] \<or> cl_sawGood c" using assms(1,2) True by (auto simp: agrees_def)
  then show ?thesis using assms True unfolding agrees_def ex by auto
next
  case False
  then show ?thesis using assms by (auto simp: agrees_def)
qed

lemma bad_stays: "cl_sawBad c \<Longrightarrow> check_fields cfg fs c = (Inr (), c)"
  by (induction fs) (simp_all add: then_do_def checkField_def)

lemma check_fields_agrees:
  "relaxed cfg \<Longrightarrow> \<forall>f\<in>set fs. field_ok f \<Longrightarrow> \<not> cl_sawBad c \<Longrightarrow>
    \<exists>c'. check_fields cfg fs c = (Inr (), c') \<and> agrees cfg (concat (map length_members fs)) c c'"
proof (induction fs arbitrary: c)
  case Nil
  then show ?case by (auto simp: agrees_def)
next
  case (Cons f fs)
  obtain ok c1 where f: "checkField cfg f c = (Inr ok, c1)" "agrees cfg (length_members f) c c1"
    using checkField_agrees [of cfg f c] Cons.prems by (auto simp: field_ok_def)
  show ?case
  proof (cases "cl_sawBad c1")
    case True
    then have "agrees cfg (concat (map length_members (f # fs))) c c1" using f(2) by (auto simp: agrees_def)
    then show ?thesis using f(1) bad_stays [OF True] by (simp add: then_do_def)
  next
    case False
    then show ?thesis using f Cons.IH [OF Cons.prems(1) _ False] Cons.prems(2) agrees_append [OF f(2) False] by (auto simp: then_do_def)
  qed
qed

text \<open>Content-Length fields that repeat or are lists are accepted exactly if all their members are the same number in range, and
  then that number is the length of the body; no check of the interpreter fails.\<close>

lemma content_length_agreed:
  assumes "relaxed cfg" "list_all field_ok fs"
  shows "\<exists>c. check_fields cfg fs ContentLengthInterpreter = (Inr (), c) \<and>
    (\<not> cl_sawBad c \<longleftrightarrow> (\<exists>v. say_same cfg (concat (map length_members fs)) v)) \<and>
    (\<not> cl_sawBad c \<longrightarrow> (cl_sawGood c \<longleftrightarrow> concat (map length_members fs) \<noteq> []) \<and>
      (cl_sawGood c \<longrightarrow> say_same cfg (concat (map length_members fs)) (cl_value c)))"
proof -
  obtain c where "check_fields cfg fs ContentLengthInterpreter = (Inr (), c)"
    "agrees cfg (concat (map length_members fs)) ContentLengthInterpreter c"
    using check_fields_agrees [OF assms(1), of fs ContentLengthInterpreter] assms(2) by (auto simp: list_all_iff ContentLengthInterpreter_def)
  then show ?thesis by (simp add: agrees_def ContentLengthInterpreter_def)
qed

lemma length_value_eval:
  "length_value cfg m = (let P = (\<lambda>c. if relaxed cfg then relaxed_delim c else c = SP \<or> c = HTAB);
     Q = (\<lambda>c. if relaxed cfg then relaxed_delim c else c = SP);
     s = dropWhile P m; n = int (number_of 10 (takeWhile xisdigit s) 0)
      in if s \<noteq> [] \<and> xisdigit (hd s) \<and> list_all Q (dropWhile xisdigit s) \<and> n \<le> LLONG_MAX then Some n else None)"
proof -
  have "cs_index (WhitespaceCharacters cfg) = (\<lambda>c. if relaxed cfg then relaxed_delim c else c = SP \<or> c = HTAB)"
    "cs_index (DelimiterCharacters cfg) = (\<lambda>c. if relaxed cfg then relaxed_delim c else c = SP)" by (simp_all add: delimiters fun_eq_iff)
  then show ?thesis by (simp add: length_value_def Let_def)
qed



end
