(* ===== verification/Http_Header.thy ===== *)
theory Http_Header
  imports Header_Lookup Content_Length
begin

text \<open>
  \<^verbatim>\<open>HttpHeader.h\<close>, \<^verbatim>\<open>HttpHeader.cc\<close>: the header of a message as a vector of pointers to fields, with gaps where fields were
  deleted, a mask of the identities present and the packed length. An entry belongs to one header, so that the vector holds the
  entries themselves; the mask is a set of identities. The length is an integer without wrap-around, exact below \<open>2\<^sup>3\<^sup>1\<close>.
  Statistics are left out.
\<close>

section \<open>Fields\<close>

datatype http_hdr_owner_type = hoNone | hoHtcpReply | hoRequest | hoReply | hoErrorDetail | hoEnd

record header_entry =
  he_id :: HdrType
  he_name :: bytes
  he_value :: bytes

record http_header =
  hh_entries :: "header_entry option list"
  hh_mask :: "HdrType set"
  hh_owner :: http_hdr_owner_type
  hh_len :: int
  hh_conflictingContentLength :: bool
  hh_teUnsupported :: bool

type_synonym 'a header_op = "('a, http_header) throwing"

text \<open>The constructor takes its value as a C string, which has to fit a string with its terminator.\<close>

definition HttpHeaderEntry :: "HdrType \<Rightarrow> bytes \<Rightarrow> bytes \<Rightarrow> exn + header_entry" where
  "HttpHeaderEntry anId aName aValue =
     (if \<not> any_HdrType_enum_value anId then Inl (AssertFailure ''any_HdrType_enum_value(anId)'')
      else if length (cstr aValue) + 1 > String_SizeMax then Inl (AssertFailure ''aSize <= SizeMax_'')
      else Inr \<lparr>he_id = anId, he_name = (if anId \<noteq> OTHER then hr_name (lookup_id anId) else aName), he_value = cstr aValue\<rparr>)"

definition entry_length :: "header_entry \<Rightarrow> nat" where
  "entry_length e = length (he_name e) + 2 + length (he_value e) + 2"

definition entry_clone :: "header_entry \<Rightarrow> exn + header_entry" where
  "entry_clone e = HttpHeaderEntry (he_id e) (he_name e) (he_value e)"

definition entry_packInto :: "header_entry \<Rightarrow> bytes" where
  "entry_packInto e = he_name e @ '': '' @ he_value e @ CrLf"

definition entry_getInt64 :: "header_entry \<Rightarrow> int" where
  "entry_getInt64 e = (case httpHeaderParseOffset (cstr (he_value e)) of None \<Rightarrow> - 1 | Some (val, _) \<Rightarrow> val)"

text \<open>Equality of strings, which compares terminated strings unless one is empty.\<close>

definition String_eq :: "bytes \<Rightarrow> bytes \<Rightarrow> bool" where
  "String_eq s t \<longleftrightarrow> (if s = [] \<or> t = [] then s = [] \<and> t = [] else cstr s = cstr t)"

section \<open>Adding and deleting\<close>

definition header_new :: "http_hdr_owner_type \<Rightarrow> http_header" where
  "header_new owner = \<lparr>hh_entries = [], hh_mask = {}, hh_owner = owner, hh_len = 0, hh_conflictingContentLength = False,
     hh_teUnsupported = False\<rparr>"

definition header_clean :: "unit header_op" where
  "header_clean =
     then_do (\<lambda>h. assert_do (hh_owner h \<noteq> hoNone \<and> hh_owner h \<noteq> hoEnd) ''owner > hoNone && owner < hoEnd'' h) (\<lambda>_ h.
       (Inr (), h\<lparr>hh_entries := [], hh_mask := {}, hh_len := 0, hh_conflictingContentLength := False, hh_teUnsupported := False\<rparr>))"

definition addEntry :: "header_entry \<Rightarrow> unit header_op" where
  "addEntry e =
     then_do (assert_do (any_HdrType_enum_value (he_id e)) ''any_HdrType_enum_value(e->id)'') (\<lambda>_.
     then_do (assert_do (he_name e \<noteq> []) ''e->name.length()'') (\<lambda>_ h.
       (Inr (), h\<lparr>hh_mask := (if he_id e \<noteq> BAD_HDR then insert (he_id e) (hh_mask h) else hh_mask h),
          hh_entries := hh_entries h @ [Some e], hh_len := hh_len h + int (entry_length e)\<rparr>)))"

text \<open>Deleting leaves a gap. The state of the loops that delete is the header and the number of deleted entries.\<close>

type_synonym 'a delete_op = "('a, http_header \<times> nat) throwing"

definition delAt :: "nat \<Rightarrow> unit delete_op" where
  "delAt pos = (\<lambda>(h, headers_deleted).
     if \<not> pos < length (hh_entries h) then (Inl (AssertFailure ''pos < entries.size()''), h, headers_deleted)
     else case hh_entries h ! pos of
       None \<Rightarrow> (Inl (AssertFailure ''null entry''), h, headers_deleted)
     | Some e \<Rightarrow>
         (let h1 = h\<lparr>hh_entries := (hh_entries h)[pos := None], hh_len := hh_len h - int (entry_length e)\<rparr>
          in if 0 \<le> hh_len h1 then (Inr (), h1, Suc headers_deleted)
             else (Inl (AssertFailure ''len >= 0''), h1, headers_deleted)))"

text \<open>The next entry after a position, and that position; a loop starts before the first.\<close>

primrec next_entry :: "header_entry option list \<Rightarrow> int \<Rightarrow> (header_entry \<times> int) option" where
  "next_entry [] pos = None"
| "next_entry (x # xs) pos = (case x of Some e \<Rightarrow> Some (e, pos) | None \<Rightarrow> next_entry xs (pos + 1))"

definition getEntry :: "int \<Rightarrow> http_header \<Rightarrow> exn + (header_entry \<times> int) option" where
  "getEntry pos h =
     (if - 1 \<le> pos \<and> pos < int (length (hh_entries h)) then Inr (next_entry (drop (nat (pos + 1)) (hh_entries h)) (pos + 1))
      else Inl (AssertFailure ''*pos >= HttpHeaderInitPos && *pos < entries.size()''))"

text \<open>
  A loop over \<^verbatim>\<open>getEntry()\<close> whose body may delete the entry it is at: the positions in order, and at each the entry that is
  there when the loop comes to it.
\<close>

primrec each_entry :: "(nat \<Rightarrow> header_entry \<Rightarrow> unit delete_op) \<Rightarrow> nat list \<Rightarrow> unit delete_op" where
  "each_entry body [] s = (Inr (), s)"
| "each_entry body (i # is) s =
     (case hh_entries (fst s) ! i of
        None \<Rightarrow> each_entry body is s
      | Some e \<Rightarrow> then_do (body i e) (\<lambda>_. each_entry body is) s)"

definition for_entries :: "(nat \<Rightarrow> header_entry \<Rightarrow> unit delete_op) \<Rightarrow> nat header_op" where
  "for_entries body h =
     (case each_entry body [0..<length (hh_entries h)] (h, 0) of
        (Inl x, h1, _) \<Rightarrow> (Inl x, h1)
      | (Inr _, h1, n) \<Rightarrow> (Inr n, h1))"

definition nothing :: "unit delete_op" where
  "nothing s = (Inr (), s)"

definition set_mask :: "(HdrType set \<Rightarrow> HdrType set) \<Rightarrow> unit delete_op" where
  "set_mask f = (\<lambda>(h, n). (Inr (), h\<lparr>hh_mask := f (hh_mask h)\<rparr>, n))"

definition delByName :: "bytes \<Rightarrow> nat header_op" where
  "delByName name h =
     for_entries (\<lambda>pos e. if sb_caseCmp (he_name e) name = 0 then delAt pos else set_mask (insert (he_id e))) (h\<lparr>hh_mask := {}\<rparr>)"

definition delById :: "HdrType \<Rightarrow> nat header_op" where
  "delById hid =
     then_do (assert_do (any_registered_header hid) ''any_registered_header(id)'') (\<lambda>_ h.
       if hid \<notin> hh_mask h then (Inr 0, h)
       else
         then_do (for_entries (\<lambda>pos e. if he_id e = hid then delAt pos else nothing)) (\<lambda>count h.
         then_do (assert_do (count \<noteq> 0) ''count'') (\<lambda>_ h. (Inr count, h)) (h\<lparr>hh_mask := hh_mask h - {hid}\<rparr>)) h)"

definition header_compact :: "http_header \<Rightarrow> http_header" where
  "header_compact h = h\<lparr>hh_entries := filter (\<lambda>x. x \<noteq> None) (hh_entries h)\<rparr>"

definition header_fields :: "http_header \<Rightarrow> header_entry list" where
  "header_fields h = map the (filter (\<lambda>x. x \<noteq> None) (hh_entries h))"

definition refreshMask :: "http_header \<Rightarrow> http_header" where
  "refreshMask h = h\<lparr>hh_mask := foldl (\<lambda>m e. insert (he_id e) m) {} (header_fields h)\<rparr>"

text \<open>Cloning and adding the entries of another header.\<close>

primrec add_clones :: "header_entry list \<Rightarrow> unit header_op" where
  "add_clones [] h = (Inr (), h)"
| "add_clones (e # es) h =
     (case entry_clone e of
        Inl x \<Rightarrow> (Inl x, h)
      | Inr e' \<Rightarrow> then_do (addEntry e') (\<lambda>_. add_clones es) h)"

definition header_append :: "http_header \<Rightarrow> unit header_op" where
  "header_append src = add_clones (header_fields src)"

definition skipUpdateHeader :: "HdrType \<Rightarrow> bool" where
  "skipUpdateHeader hid \<longleftrightarrow> hid = VARY"

primrec delete_fresh :: "header_entry list \<Rightarrow> unit header_op" where
  "delete_fresh [] h = (Inr (), h)"
| "delete_fresh (e # es) h =
     (if skipUpdateHeader (he_id e) then delete_fresh es h
      else then_do (if he_id e \<noteq> OTHER then delById (he_id e) else delByName (he_name e)) (\<lambda>_. delete_fresh es) h)"

definition header_update :: "http_header \<Rightarrow> unit header_op" where
  "header_update fresh =
     then_do (delete_fresh (header_fields fresh)) (\<lambda>_.
       add_clones (filter (\<lambda>e. \<not> skipUpdateHeader (he_id e)) (header_fields fresh)))"

definition header_copy :: "http_header \<Rightarrow> (exn + unit) \<times> http_header" where
  "header_copy other = header_update other ((header_new (hh_owner other))\<lparr>hh_len := hh_len other\<rparr>)"

definition header_assign :: "http_header \<Rightarrow> unit header_op" where
  "header_assign other =
     then_do (\<lambda>h. assert_do (hh_owner h = hh_owner other) ''owner == other.owner'' h) (\<lambda>_.
     then_do header_clean (\<lambda>_.
     then_do (header_update other) (\<lambda>_ h.
       (Inr (), h\<lparr>hh_len := hh_len other, hh_conflictingContentLength := hh_conflictingContentLength other,
          hh_teUnsupported := hh_teUnsupported other\<rparr>))))"

section \<open>Looking up\<close>

definition findEntry :: "HdrType \<Rightarrow> http_header \<Rightarrow> exn + header_entry option" where
  "findEntry hid h =
     (if \<not> any_registered_header hid then Inl (AssertFailure ''any_registered_header(id)'')
      else if hr_list (lookup_id hid) then Inl (AssertFailure ''!HeaderLookupTable.lookup(id).list'')
      else if hid \<notin> hh_mask h then Inr None
      else case find (\<lambda>e. he_id e = hid) (header_fields h) of
        Some e \<Rightarrow> Inr (Some e)
      | None \<Rightarrow> Inl (AssertFailure ''false''))"

definition findLastEntry :: "HdrType \<Rightarrow> http_header \<Rightarrow> exn + header_entry option" where
  "findLastEntry hid h =
     (if \<not> any_registered_header hid then Inl (AssertFailure ''any_registered_header(id)'')
      else if hr_list (lookup_id hid) then Inl (AssertFailure ''!HeaderLookupTable.lookup(id).list'')
      else if hid \<notin> hh_mask h then Inr None
      else case find (\<lambda>e. he_id e = hid) (rev (header_fields h)) of
        Some e \<Rightarrow> Inr (Some e)
      | None \<Rightarrow> Inl (AssertFailure ''false''))"

text \<open>Joining the values of the entries that a loop selects.\<close>

primrec join_values :: "bytes list \<Rightarrow> bytes \<Rightarrow> exn + bytes" where
  "join_values [] s = Inr s"
| "join_values (v # vs) s =
     (case strListAdd s (cstr v) (CHR '','') of Inl e \<Rightarrow> Inl e | Inr s1 \<Rightarrow> join_values vs s1)"

text \<open>Both forms of \<^verbatim>\<open>getList()\<close>: nothing if there is no such field.\<close>

definition getList :: "HdrType \<Rightarrow> http_header \<Rightarrow> exn + bytes option" where
  "getList hid h =
     (if \<not> hr_list (lookup_id hid) then Inl (AssertFailure ''HeaderLookupTable.lookup(id).list'')
      else if hid \<notin> hh_mask h then Inr None
      else case join_values (map he_value (filter (\<lambda>e. he_id e = hid) (header_fields h))) [] of
        Inl e \<Rightarrow> Inl e
      | Inr s \<Rightarrow> Inr (Some s))"

definition getStrOrList :: "HdrType \<Rightarrow> http_header \<Rightarrow> exn + bytes" where
  "getStrOrList hid h =
     (if hr_list (lookup_id hid) then
        (case getList hid h of Inl e \<Rightarrow> Inl e | Inr None \<Rightarrow> Inr [] | Inr (Some s) \<Rightarrow> Inr s)
      else
        (case findEntry hid h of Inl e \<Rightarrow> Inl e | Inr None \<Rightarrow> Inr [] | Inr (Some e) \<Rightarrow> Inr (he_value e)))"

definition header_has :: "HdrType \<Rightarrow> http_header \<Rightarrow> exn + bool" where
  "header_has hid h =
     (if any_registered_header hid then Inr (hid \<in> hh_mask h) else Inl (AssertFailure ''any_registered_header(id)''))"

definition getByIdIfPresent :: "HdrType \<Rightarrow> http_header \<Rightarrow> exn + bytes option" where
  "getByIdIfPresent hid h =
     (if hid = BAD_HDR then Inr None
      else case header_has hid h of
        Inl e \<Rightarrow> Inl e
      | Inr False \<Rightarrow> Inr None
      | Inr True \<Rightarrow> (case getStrOrList hid h of Inl e \<Rightarrow> Inl e | Inr s \<Rightarrow> Inr (Some s)))"

definition getById :: "HdrType \<Rightarrow> http_header \<Rightarrow> exn + bytes" where
  "getById hid h =
     (case getByIdIfPresent hid h of Inl e \<Rightarrow> Inl e | Inr None \<Rightarrow> Inr [] | Inr (Some s) \<Rightarrow> Inr s)"

text \<open>By name: registered fields by their identity, others by a search. The value is wanted.\<close>

definition hasNamed :: "bytes \<Rightarrow> http_header \<Rightarrow> exn + bytes option" where
  "hasNamed name h =
     (let hid = hr_id (lookup_name name);
          others = filter (\<lambda>e. he_id e = OTHER \<and> length (he_name e) = length name \<and>
            sb_compare_cstr (he_name e) name False (length name) = 0) (header_fields h);
          search = (if others = [] then Inr None
            else case join_values (map he_value others) [] of Inl e \<Rightarrow> Inl e | Inr s \<Rightarrow> Inr (Some s))
      in if hid \<noteq> BAD_HDR then
           (case getByIdIfPresent hid h of Inl e \<Rightarrow> Inl e | Inr (Some s) \<Rightarrow> Inr (Some s) | Inr None \<Rightarrow> search)
         else search)"

definition getByName :: "bytes \<Rightarrow> http_header \<Rightarrow> exn + bytes" where
  "getByName name h =
     (case hasNamed name h of Inl e \<Rightarrow> Inl e | Inr None \<Rightarrow> Inr [] | Inr (Some s) \<Rightarrow> Inr s)"

primrec needUpdate_loop :: "header_entry list \<Rightarrow> http_header \<Rightarrow> http_header \<Rightarrow> exn + bool" where
  "needUpdate_loop [] fresh h = Inr False"
| "needUpdate_loop (e # es) fresh h =
     (if skipUpdateHeader (he_id e) then needUpdate_loop es fresh h
      else case hasNamed (he_name e) h of
        Inl x \<Rightarrow> Inl x
      | Inr None \<Rightarrow> Inr True
      | Inr (Some value) \<Rightarrow>
          (case getByName (he_name e) fresh of
             Inl x \<Rightarrow> Inl x
           | Inr fresh_value \<Rightarrow> if \<not> String_eq value fresh_value then Inr True else needUpdate_loop es fresh h))"

definition needUpdate :: "http_header \<Rightarrow> http_header \<Rightarrow> exn + bool" where
  "needUpdate fresh h = needUpdate_loop (header_fields fresh) fresh h"

text \<open>Members of list fields.\<close>

definition header_getListMember :: "HdrType \<Rightarrow> bytes \<Rightarrow> char \<Rightarrow> http_header \<Rightarrow> exn + bytes" where
  "header_getListMember hid member separator h =
     (if \<not> any_registered_header hid then Inl (AssertFailure ''any_registered_header(id)'')
      else case getStrOrList hid h of Inl e \<Rightarrow> Inl e | Inr header \<Rightarrow> Inr (getListMember header member separator))"

definition getByNameListMember :: "bytes \<Rightarrow> bytes \<Rightarrow> char \<Rightarrow> http_header \<Rightarrow> exn + bytes" where
  "getByNameListMember name member separator h =
     (case getByName name h of Inl e \<Rightarrow> Inl e | Inr header \<Rightarrow> Inr (getListMember header member separator))"

definition hasListMember :: "HdrType \<Rightarrow> bytes \<Rightarrow> char \<Rightarrow> http_header \<Rightarrow> exn + bool" where
  "hasListMember hid member separator h =
     (if \<not> any_registered_header hid then Inl (AssertFailure ''any_registered_header(id)'')
      else case getStrOrList hid h of
        Inl e \<Rightarrow> Inl e
      | Inr header \<Rightarrow> Inr (list_ex (item_has_member member separator) (list_items separator (cstr header))))"

definition hasByNameListMember :: "bytes \<Rightarrow> bytes \<Rightarrow> char \<Rightarrow> http_header \<Rightarrow> exn + bool" where
  "hasByNameListMember name member separator h =
     (case getByName name h of
        Inl e \<Rightarrow> Inl e
      | Inr header \<Rightarrow> Inr (list_ex (item_has_member member separator) (list_items separator (cstr header))))"

text \<open>Typed access.\<close>

definition getInt64 :: "HdrType \<Rightarrow> http_header \<Rightarrow> exn + int" where
  "getInt64 hid h =
     (if \<not> any_registered_header hid then Inl (AssertFailure ''any_registered_header(id)'')
      else if hr_type (lookup_id hid) \<noteq> ftInt64 then Inl (AssertFailure ''type == ftInt64'')
      else case findEntry hid h of Inl e \<Rightarrow> Inl e | Inr None \<Rightarrow> Inr (- 1) | Inr (Some e) \<Rightarrow> Inr (entry_getInt64 e))"

definition getStr :: "HdrType \<Rightarrow> http_header \<Rightarrow> exn + bytes option" where
  "getStr hid h =
     (if \<not> any_registered_header hid then Inl (AssertFailure ''any_registered_header(id)'')
      else if hr_type (lookup_id hid) \<noteq> ftStr then Inl (AssertFailure ''type == ftStr'')
      else case findEntry hid h of Inl e \<Rightarrow> Inl e | Inr None \<Rightarrow> Inr None | Inr (Some e) \<Rightarrow> Inr (Some (cstr (he_value e))))"

definition getLastStr :: "HdrType \<Rightarrow> http_header \<Rightarrow> exn + bytes option" where
  "getLastStr hid h =
     (if \<not> any_registered_header hid then Inl (AssertFailure ''any_registered_header(id)'')
      else if hr_type (lookup_id hid) \<noteq> ftStr then Inl (AssertFailure ''type == ftStr'')
      else case findLastEntry hid h of Inl e \<Rightarrow> Inl e | Inr None \<Rightarrow> Inr None | Inr (Some e) \<Rightarrow> Inr (Some (cstr (he_value e))))"

section \<open>Putting values\<close>

text \<open>A new entry, added; the constructor may fail its assertion.\<close>

definition add_new :: "HdrType \<Rightarrow> bytes \<Rightarrow> bytes \<Rightarrow> unit header_op" where
  "add_new hid name v h = (case HttpHeaderEntry hid name v of Inl x \<Rightarrow> (Inl x, h) | Inr e \<Rightarrow> addEntry e h)"

fun decimal_digits :: "nat \<Rightarrow> bytes" where
  "decimal_digits n = (if n < 10 then [char_of (48 + n)] else decimal_digits (n div 10) @ [char_of (48 + n mod 10)])"

declare decimal_digits.simps [simp del]

definition xint64toa :: "int \<Rightarrow> bytes" where
  "xint64toa num = (if num < 0 then CHR ''-'' # decimal_digits (nat (- num)) else decimal_digits (nat num))"

definition putInt :: "HdrType \<Rightarrow> int \<Rightarrow> unit header_op" where
  "putInt hid number =
     then_do (assert_do (any_registered_header hid) ''any_registered_header(id)'') (\<lambda>_.
     then_do (assert_do (hr_type (lookup_id hid) = ftInt) ''type == ftInt'') (\<lambda>_.
     then_do (assert_do (number \<ge> 0) ''number >= 0'') (\<lambda>_. add_new hid [] (xint64toa number))))"

definition putInt64 :: "HdrType \<Rightarrow> int \<Rightarrow> unit header_op" where
  "putInt64 hid number =
     then_do (assert_do (any_registered_header hid) ''any_registered_header(id)'') (\<lambda>_.
     then_do (assert_do (hr_type (lookup_id hid) = ftInt64) ''type == ftInt64'') (\<lambda>_.
     then_do (assert_do (number \<ge> 0) ''number >= 0'') (\<lambda>_. add_new hid [] (xint64toa number))))"

definition putStr :: "HdrType \<Rightarrow> bytes \<Rightarrow> unit header_op" where
  "putStr hid str =
     then_do (assert_do (any_registered_header hid) ''any_registered_header(id)'') (\<lambda>_.
     then_do (assert_do (hr_type (lookup_id hid) = ftStr) ''type == ftStr'') (\<lambda>_. add_new hid [] str))"

definition putExt :: "bytes \<Rightarrow> bytes \<Rightarrow> unit header_op" where
  "putExt name v = add_new OTHER (cstr name) v"

text \<open>Sets the first field of an identity and deletes the others, without accounting for their lengths.\<close>

primrec sync_values :: "HdrType \<Rightarrow> bytes \<Rightarrow> bool \<Rightarrow> header_entry option list \<Rightarrow> bool \<times> header_entry option list" where
  "sync_values hid newValue found [] = (found, [])"
| "sync_values hid newValue found (x # xs) =
     (case x of
        None \<Rightarrow> (case sync_values hid newValue found xs of (f, ys) \<Rightarrow> (f, None # ys))
      | Some e \<Rightarrow>
          if he_id e \<noteq> hid then (case sync_values hid newValue found xs of (f, ys) \<Rightarrow> (f, Some e # ys))
          else if found then (case sync_values hid newValue found xs of (f, ys) \<Rightarrow> (f, None # ys))
          else (case sync_values hid newValue True xs of (f, ys) \<Rightarrow>
            (f, Some (if sb_compare_cstr newValue (cstr (he_value e)) True npos \<noteq> 0 then e\<lparr>he_value := newValue\<rparr> else e) # ys)))"

definition updateOrAddStr :: "HdrType \<Rightarrow> bytes \<Rightarrow> unit header_op" where
  "updateOrAddStr hid newValue =
     then_do (assert_do (any_registered_header hid) ''any_registered_header(id)'') (\<lambda>_.
     then_do (assert_do (hr_type (lookup_id hid) = ftStr) ''type == ftStr'') (\<lambda>_.
     then_do (\<lambda>h. (if length newValue < String_SizeMax then Inr ()
         else Inl (TextException ''assurance failed: newValue.length() < String::SizeMaxXXX()''), h)) (\<lambda>_ h.
       if hid \<notin> hh_mask h then add_new hid [] newValue h
       else (case sync_values hid newValue False (hh_entries h) of
         (foundSameName, es) \<Rightarrow> assert_do foundSameName ''foundSameName'' (h\<lparr>hh_entries := es\<rparr>)))))"

section \<open>Packing\<close>

definition masks_entry :: "http_header \<Rightarrow> header_entry \<Rightarrow> exn + bool" where
  "masks_entry h e =
     (if he_id e = AUTHORIZATION \<or> he_id e = PROXY_AUTHORIZATION then Inr True
      else if he_id e = FTP_ARGUMENTS then
        (case findEntry FTP_COMMAND h of
           Inl x \<Rightarrow> Inl x
         | Inr None \<Rightarrow> Inr False
         | Inr (Some cmd) \<Rightarrow> Inr (String_eq (he_value cmd) ''PASS''))
      else Inr False)"

primrec pack_loop :: "http_header \<Rightarrow> bool \<Rightarrow> header_entry list \<Rightarrow> exn + bytes" where
  "pack_loop h mask_sensitive_info [] = Inr []"
| "pack_loop h mask_sensitive_info (e # es) =
     (case (if mask_sensitive_info then masks_entry h e else Inr False) of
        Inl x \<Rightarrow> Inl x
      | Inr maskThisEntry \<Rightarrow>
          (case pack_loop h mask_sensitive_info es of
             Inl x \<Rightarrow> Inl x
           | Inr rest \<Rightarrow> Inr ((if maskThisEntry then he_name e @ '': ** NOT DISPLAYED **'' @ CrLf else entry_packInto e) @ rest)))"

definition header_packInto :: "bool \<Rightarrow> http_header \<Rightarrow> exn + bytes" where
  "header_packInto mask_sensitive_info h = pack_loop h mask_sensitive_info (header_fields h)"

section \<open>Hop-by-hop fields\<close>

definition removeConnectionHeaderEntries :: "unit header_op" where
  "removeConnectionHeaderEntries h =
     (if CONNECTION \<in> hh_mask h then
        (case getList CONNECTION h of
           Inl e \<Rightarrow> (Inl e, h)
         | Inr strConnection \<Rightarrow>
             then_do (for_entries (\<lambda>pos e. if strListIsMember (case strConnection of None \<Rightarrow> [] | Some s \<Rightarrow> s) (he_name e) (CHR '','')
                        then delAt pos else nothing)) (\<lambda>headers_deleted h1.
               (Inr (), if headers_deleted \<noteq> 0 then refreshMask h1 else h1)) h)
      else (Inr (), h))"

definition removeHopByHopEntries :: "unit header_op" where
  "removeHopByHopEntries =
     then_do removeConnectionHeaderEntries (\<lambda>_.
     then_do (for_entries (\<lambda>pos e. if hr_hopbyhop (lookup_id (he_id e))
                then then_do (delAt pos) (\<lambda>_. set_mask (\<lambda>m. m - {he_id e})) else nothing)) (\<lambda>_ h. (Inr (), h)))"

end
