(* ===== verification/Header_Fields.thy ===== *)
theory Header_Fields
  imports Http_Header Refinement
begin

text \<open>
  The header container implements an ordered list of fields: its invariant, what each operation does to the fields, and the refinement
  of every sequence of calls. The mask, the gaps and the packed length are never out of step, except after
  \<^verbatim>\<open>updateOrAddStr()\<close> and the copy constructor, which do not account for the length.
\<close>

section \<open>The invariant\<close>

definition somes :: "'a option list \<Rightarrow> 'a list" where
  "somes xs = map the (filter (\<lambda>x. x \<noteq> None) xs)"

lemma somes_simps [simp]:
  "somes [] = []" "somes (None # xs) = somes xs" "somes (Some e # xs) = e # somes xs" "somes (xs @ ys) = somes xs @ somes ys"
  by (simp_all add: somes_def)

lemma header_fields_somes: "header_fields h = somes (hh_entries h)"
  by (simp add: header_fields_def somes_def)

definition fields_length :: "header_entry list \<Rightarrow> int" where
  "fields_length es = sum_list (map (\<lambda>e. int (entry_length e)) es)"

lemma fields_length_simps [simp]:
  "fields_length [] = 0" "fields_length (e # es) = int (entry_length e) + fields_length es"
  "fields_length (es @ es') = fields_length es + fields_length es'"
  by (simp_all add: fields_length_def)

lemma fields_length_ge0 [simp]: "0 \<le> fields_length es"
  by (induction es) simp_all

text \<open>A field of the header: a registered one has the name of its record, another has a name that is not registered.\<close>

definition entry_ok :: "header_entry \<Rightarrow> bool" where
  "entry_ok e \<longleftrightarrow> any_valid_header (he_id e) \<and> he_name e \<noteq> [] \<and> sb_ok (he_name e) \<and> CHR 0x00 \<notin> set (he_name e) \<and> CHR 0x00 \<notin> set (he_value e) \<and>
     length (he_value e) < String_SizeMax \<and> (if he_id e = OTHER then hr_id (lookup_name (he_name e)) = BAD_HDR else he_name e = hr_name (lookup_id (he_id e)))"

definition header_ok :: "http_header \<Rightarrow> bool" where
  "header_ok h \<longleftrightarrow> hh_mask h = he_id ` set (header_fields h) \<and> hh_len h = fields_length (header_fields h) \<and>
     list_all entry_ok (header_fields h) \<and> hh_owner h \<noteq> hoNone \<and> hh_owner h \<noteq> hoEnd"

lemma header_new_ok: "owner \<noteq> hoNone \<Longrightarrow> owner \<noteq> hoEnd \<Longrightarrow> header_ok (header_new owner)" "header_fields (header_new owner) = []"
  by (simp_all add: header_ok_def header_new_def header_fields_somes)

section \<open>Loops that delete\<close>

lemma set_mask_id: "set_mask (\<lambda>m. m) = nothing" "then_do f (\<lambda>_. nothing) = f"
  by (auto simp: fun_eq_iff set_mask_def nothing_def then_do_def split: prod.split sum.split)

definition delete_body :: "(header_entry \<Rightarrow> bool) \<Rightarrow> (header_entry \<Rightarrow> HdrType set \<Rightarrow> HdrType set) \<Rightarrow> nat \<Rightarrow> header_entry \<Rightarrow> unit delete_op" where
  "delete_body P f pos e = (if P e then then_do (delAt pos) (\<lambda>_. set_mask (f e)) else set_mask (f e))"

definition cut :: "('a \<Rightarrow> bool) \<Rightarrow> 'a option \<Rightarrow> 'a option" where
  "cut P x = (case x of None \<Rightarrow> None | Some e \<Rightarrow> if P e then None else Some e)"

lemma somes_cut: "somes (map (cut P) xs) = filter (\<lambda>e. \<not> P e) (somes xs)"
proof (induction xs)
  case (Cons x xs)
  then show ?case by (cases x) (simp_all add: cut_def)
qed simp

lemma fields_length_filter: "fields_length (filter P es) \<le> fields_length es"
  by (induction es) auto

lemma each_entry_delete:
  assumes "hh_entries h = pre @ suf" "hh_len h = fields_length (somes (pre @ suf))"
  shows "each_entry (delete_body P f) [length pre..<length pre + length suf] (h, n) =
    (Inr (), h\<lparr>hh_entries := pre @ map (cut P) suf, hh_mask := foldl (\<lambda>m e. f e m) (hh_mask h) (somes suf),
       hh_len := fields_length (somes (pre @ map (cut P) suf))\<rparr>, n + length (filter P (somes suf)))"
  using assms
proof (induction suf arbitrary: h pre n)
  case Nil
  then show ?case by simp
next
  case (Cons x suf)
  have range: "[length pre..<length pre + length (x # suf)] = length pre # [Suc (length pre)..<Suc (length pre + length suf)]"
    by (simp add: upt_conv_Cons del: upt_Suc)
  have at: "hh_entries h ! length pre = x" using Cons.prems(1) by simp
  show ?case
  proof (cases x)
    case None
    then show ?thesis unfolding range using Cons.IH [of h "pre @ [None]" n] Cons.prems at by (simp add: cut_def del: upt_Suc)
  next
    case (Some e)
    show ?thesis
    proof (cases "P e")
      case False
      let ?h = "h\<lparr>hh_mask := f e (hh_mask h)\<rparr>"
      have "delete_body P f (length pre) e (h, n) = (Inr (), ?h, n)" using False by (simp add: delete_body_def set_mask_def)
      then show ?thesis unfolding range using Cons.IH [of ?h "pre @ [x]" n] Cons.prems at Some False
        by (simp add: cut_def then_do_def del: upt_Suc)
    next
      case True
      let ?h = "h\<lparr>hh_entries := pre @ None # suf, hh_mask := f e (hh_mask h), hh_len := fields_length (somes (pre @ None # suf))\<rparr>"
      have "delete_body P f (length pre) e (h, n) = (Inr (), ?h, Suc n)"
        using True at Some Cons.prems by (simp add: delete_body_def then_do_def delAt_def set_mask_def Let_def)
      then show ?thesis unfolding range using Cons.IH [of ?h "pre @ [None]" "Suc n"] Cons.prems at Some True
        by (simp add: cut_def then_do_def del: upt_Suc)
    qed
  qed
qed

lemma for_entries_delete:
  assumes "hh_len h = fields_length (header_fields h)"
  shows "for_entries (delete_body P f) h = (Inr (length (filter P (header_fields h))),
    h\<lparr>hh_entries := map (cut P) (hh_entries h), hh_mask := foldl (\<lambda>m e. f e m) (hh_mask h) (header_fields h),
      hh_len := fields_length (filter (\<lambda>e. \<not> P e) (header_fields h))\<rparr>)"
  using each_entry_delete [of h "[]" "hh_entries h" P f 0] assms
  by (simp add: for_entries_def header_fields_somes somes_cut)

section \<open>What the operations do to the fields\<close>

text \<open>The result of an operation: the invariant, the new fields, and nothing else changed.\<close>

definition becomes :: "http_header \<Rightarrow> header_entry list \<Rightarrow> http_header \<Rightarrow> bool" where
  "becomes h es h' \<longleftrightarrow> header_ok h' \<and> header_fields h' = es \<and> hh_owner h' = hh_owner h \<and>
     hh_conflictingContentLength h' = hh_conflictingContentLength h \<and> hh_teUnsupported h' = hh_teUnsupported h"

lemma becomesD: "becomes h es h' \<Longrightarrow> header_ok h'" "becomes h es h' \<Longrightarrow> header_fields h' = es"
  by (simp_all add: becomes_def)

lemma becomes_refl: "header_ok h \<Longrightarrow> becomes h (header_fields h) h"
  by (simp add: becomes_def)

lemma becomes_trans: "becomes h es h1 \<Longrightarrow> becomes h1 es' h2 \<Longrightarrow> becomes h es' h2"
  by (simp add: becomes_def)

lemma foldl_insert: "foldl (\<lambda>m e. insert (f e) m) M es = M \<union> f ` set es"
  by (induction es arbitrary: M) auto

lemma addEntry_becomes:
  assumes "header_ok h" "entry_ok e"
  shows "\<exists>h'. addEntry e h = (Inr (), h') \<and> becomes h (header_fields h @ [e]) h'"
proof -
  have e: "any_HdrType_enum_value (he_id e)" "he_name e \<noteq> []" "he_id e \<noteq> BAD_HDR"
    using assms(2) by (auto simp: entry_ok_def any_valid_header_def any_HdrType_enum_value_def)
  show ?thesis using assms e
    by (auto simp: addEntry_def then_do_def assert_do_def becomes_def header_ok_def header_fields_somes)
qed

lemma delete_becomes:
  assumes "header_ok h" "hh_entries h' = map (cut P) (hh_entries h)" "hh_mask h' = he_id ` set (filter (\<lambda>e. \<not> P e) (header_fields h))"
    "hh_len h' = fields_length (filter (\<lambda>e. \<not> P e) (header_fields h))" "hh_owner h' = hh_owner h"
    "hh_conflictingContentLength h' = hh_conflictingContentLength h" "hh_teUnsupported h' = hh_teUnsupported h"
  shows "becomes h (filter (\<lambda>e. \<not> P e) (header_fields h)) h'"
  using assms by (auto simp: becomes_def header_ok_def header_fields_somes somes_cut list_all_iff)

lemma header_ok_len: "header_ok h \<Longrightarrow> hh_len h = fields_length (header_fields h)"
  by (simp add: header_ok_def)

lemma foldl_keep: "foldl (\<lambda>m e. m) M es = M"
  by (induction es) auto

lemma delById_becomes:
  assumes "header_ok h" "any_registered_header hid"
  shows "\<exists>h'. delById hid h = (Inr (length (filter (\<lambda>e. he_id e = hid) (header_fields h))), h') \<and>
    becomes h (filter (\<lambda>e. he_id e \<noteq> hid) (header_fields h)) h'"
proof (cases "hid \<in> hh_mask h")
  case False
  then have no: "he_id e \<noteq> hid" if "e \<in> set (header_fields h)" for e using assms(1) that by (auto simp: header_ok_def)
  then have "filter (\<lambda>e. he_id e = hid) (header_fields h) = []" "filter (\<lambda>e. he_id e \<noteq> hid) (header_fields h) = header_fields h"
    by (auto simp: filter_empty_conv filter_id_conv)
  then show ?thesis using False assms becomes_refl by (simp add: delById_def then_do_def assert_do_def)
next
  case True
  have body: "(\<lambda>pos e. if he_id e = hid then delAt pos else nothing) = delete_body (\<lambda>e. he_id e = hid) (\<lambda>e m. m)"
    by (simp add: fun_eq_iff delete_body_def set_mask_id)
  have "filter (\<lambda>e. he_id e = hid) (header_fields h) \<noteq> []" using True assms(1) by (auto simp: header_ok_def filter_empty_conv)
  moreover have "hh_mask h - {hid} = he_id ` set (filter (\<lambda>e. he_id e \<noteq> hid) (header_fields h))" using assms(1) by (auto simp: header_ok_def)
  ultimately show ?thesis using True assms
    by (auto simp: delById_def then_do_def assert_do_def body for_entries_delete [OF header_ok_len [OF assms(1)]] foldl_keep
        intro: delete_becomes)
qed

text \<open>The name of an entry, without regard to case.\<close>

abbreviation named :: "bytes \<Rightarrow> header_entry \<Rightarrow> bool" where
  "named name e \<equiv> map xtolower (he_name e) = map xtolower name"

lemma delByName_becomes:
  assumes "header_ok h" "sb_ok name"
  shows "\<exists>h'. delByName name h = (Inr (length (filter (named name) (header_fields h))), h') \<and>
    becomes h (filter (\<lambda>e. \<not> named name e) (header_fields h)) h'"
proof -
  let ?P = "\<lambda>e. sb_caseCmp (he_name e) name = 0" let ?h = "h\<lparr>hh_mask := {}\<rparr>"
  have body: "(\<lambda>pos e. if ?P e then delAt pos else set_mask (insert (he_id e))) = delete_body ?P (\<lambda>e. if ?P e then (\<lambda>m. m) else insert (he_id e))"
    by (simp add: fun_eq_iff delete_body_def set_mask_id)
  have P: "?P e \<longleftrightarrow> named name e" if "e \<in> set (header_fields h)" for e
    using assms that by (auto simp: header_ok_def list_all_iff entry_ok_def sb_caseCmp_eq_0)
  then have eqs: "filter ?P (header_fields h) = filter (named name) (header_fields h)"
    "filter (\<lambda>e. \<not> ?P e) (header_fields h) = filter (\<lambda>e. \<not> named name e) (header_fields h)" by (auto intro: filter_cong)
  have mask: "foldl (\<lambda>m e. (if ?P e then (\<lambda>m. m) else insert (he_id e)) m) M es = M \<union> he_id ` set (filter (\<lambda>e. \<not> ?P e) es)" for M es
    by (induction es arbitrary: M) auto
  have hf: "header_fields ?h = header_fields h" by (simp add: header_fields_def)
  have "hh_len ?h = fields_length (header_fields ?h)" using header_ok_len [OF assms(1)] by (simp add: hf)
  from for_entries_delete [OF this, of ?P "\<lambda>e. if ?P e then (\<lambda>m. m) else insert (he_id e)"]
  have "delByName name h = (Inr (length (filter ?P (header_fields h))),
      h\<lparr>hh_entries := map (cut ?P) (hh_entries h), hh_mask := he_id ` set (filter (\<lambda>e. \<not> ?P e) (header_fields h)),
        hh_len := fields_length (filter (\<lambda>e. \<not> ?P e) (header_fields h))\<rparr>)"
    unfolding delByName_def body hf mask by simp
  moreover have "becomes h (filter (\<lambda>e. \<not> ?P e) (header_fields h)) (snd (delByName name h))"
    unfolding calculation by (rule delete_becomes [OF assms(1)]) simp_all
  ultimately show ?thesis using eqs by simp
qed

lemma compact_becomes: "header_ok h \<Longrightarrow> becomes h (header_fields h) (header_compact h)"
  by (simp add: becomes_def header_ok_def header_fields_def header_compact_def)

lemma refreshMask_becomes: "header_ok h \<Longrightarrow> becomes h (header_fields h) (refreshMask h)"
  by (simp add: becomes_def header_ok_def header_fields_def refreshMask_def foldl_insert)

lemma clean_becomes: "header_ok h \<Longrightarrow> \<exists>h'. header_clean h = (Inr (), h') \<and> header_ok h' \<and> header_fields h' = [] \<and> hh_owner h' = hh_owner h"
  by (auto simp: header_clean_def then_do_def assert_do_def header_ok_def header_fields_def)

lemma entry_clone_same: "entry_ok e \<Longrightarrow> entry_clone e = Inr e"
  by (cases e) (auto simp: entry_ok_def entry_clone_def HttpHeaderEntry_def any_valid_header_def any_HdrType_enum_value_def cstr_id)

lemma add_clones_becomes:
  "header_ok h \<Longrightarrow> list_all entry_ok es \<Longrightarrow> \<exists>h'. add_clones es h = (Inr (), h') \<and> becomes h (header_fields h @ es) h'"
proof (induction es arbitrary: h)
  case Nil
  then show ?case using becomes_refl by simp
next
  case (Cons e es)
  then obtain h1 where h1: "addEntry e h = (Inr (), h1)" "becomes h (header_fields h @ [e]) h1" using addEntry_becomes [of h e] by auto
  obtain h' where "add_clones es h1 = (Inr (), h')" "becomes h1 (header_fields h1 @ es) h'"
    using Cons.IH [OF becomesD(1) [OF h1(2)]] Cons.prems(2) by auto
  then show ?case using h1 Cons.prems(2) becomes_trans [OF h1(2)] becomesD(2) [OF h1(2)] by (auto simp: then_do_def entry_clone_same)
qed

text \<open>Replacing fields by those of a fresh header: the same identity, or the same name for other fields.\<close>

definition replaces :: "header_entry \<Rightarrow> header_entry \<Rightarrow> bool" where
  "replaces e f \<longleftrightarrow> (if he_id e \<noteq> OTHER then he_id f = he_id e else named (he_name e) f)"

definition fresh_fields :: "header_entry list \<Rightarrow> header_entry list" where
  "fresh_fields es = filter (\<lambda>e. \<not> skipUpdateHeader (he_id e)) es"

definition updated_fields :: "header_entry list \<Rightarrow> header_entry list \<Rightarrow> header_entry list" where
  "updated_fields fresh es = filter (\<lambda>f. \<not> list_ex (\<lambda>e. replaces e f) (fresh_fields fresh)) es @ fresh_fields fresh"

lemma entry_registered: "entry_ok e \<Longrightarrow> he_id e \<noteq> OTHER \<Longrightarrow> any_registered_header (he_id e)"
  by (simp add: entry_ok_def any_valid_header_def any_registered_header_def)

lemma delete_fresh_becomes:
  "header_ok h \<Longrightarrow> list_all entry_ok es \<Longrightarrow> \<exists>h'. delete_fresh es h = (Inr (), h') \<and>
    becomes h (filter (\<lambda>f. \<not> list_ex (\<lambda>e. replaces e f) (fresh_fields es)) (header_fields h)) h'"
proof (induction es arbitrary: h)
  case Nil
  then show ?case using becomes_refl by (simp add: fresh_fields_def)
next
  case (Cons e es)
  show ?case
  proof (cases "skipUpdateHeader (he_id e)")
    case True
    then show ?thesis using Cons by (simp add: fresh_fields_def)
  next
    case False
    have "\<exists>n h1. (if he_id e \<noteq> OTHER then delById (he_id e) else delByName (he_name e)) h = (Inr n, h1) \<and>
        becomes h (filter (\<lambda>f. \<not> replaces e f) (header_fields h)) h1"
      using delById_becomes [OF Cons.prems(1), of "he_id e"] delByName_becomes [OF Cons.prems(1), of "he_name e"] Cons.prems(2)
      by (auto simp: replaces_def entry_registered entry_ok_def)
    then obtain n h1 where h1: "(if he_id e \<noteq> OTHER then delById (he_id e) else delByName (he_name e)) h = (Inr n, h1)"
      "becomes h (filter (\<lambda>f. \<not> replaces e f) (header_fields h)) h1" by blast
    obtain h' where h': "delete_fresh es h1 = (Inr (), h')"
      "becomes h1 (filter (\<lambda>f. \<not> list_ex (\<lambda>e. replaces e f) (fresh_fields es)) (header_fields h1)) h'"
      using Cons.IH [OF becomesD(1) [OF h1(2)]] Cons.prems(2) by auto
    have "delete_fresh (e # es) h = (Inr (), h')" using h1(1) h'(1) False by (simp add: then_do_def)
    moreover have "becomes h (filter (\<lambda>f. \<not> list_ex (\<lambda>e. replaces e f) (fresh_fields (e # es))) (header_fields h)) h'"
      using becomes_trans [OF h1(2) h'(2)] False by (simp add: becomesD(2) [OF h1(2)] fresh_fields_def conj_commute)
    ultimately show ?thesis by blast
  qed
qed

lemma header_ok_fields: "header_ok h \<Longrightarrow> list_all entry_ok (header_fields h)"
  by (simp add: header_ok_def)

lemma update_becomes:
  assumes "header_ok h" "header_ok fresh"
  shows "\<exists>h'. header_update fresh h = (Inr (), h') \<and> becomes h (updated_fields (header_fields fresh) (header_fields h)) h'"
proof -
  obtain h1 where h1: "delete_fresh (header_fields fresh) h = (Inr (), h1)"
    "becomes h (filter (\<lambda>f. \<not> list_ex (\<lambda>e. replaces e f) (fresh_fields (header_fields fresh))) (header_fields h)) h1"
    using delete_fresh_becomes [OF assms(1) header_ok_fields [OF assms(2)]] by blast
  have "list_all entry_ok (fresh_fields (header_fields fresh))" using header_ok_fields [OF assms(2)] by (auto simp: fresh_fields_def list_all_iff)
  then obtain h' where h': "add_clones (fresh_fields (header_fields fresh)) h1 = (Inr (), h')"
    "becomes h1 (header_fields h1 @ fresh_fields (header_fields fresh)) h'" using add_clones_becomes becomesD(1) [OF h1(2)] by blast
  have "becomes h (updated_fields (header_fields fresh) (header_fields h)) h'"
    using becomes_trans [OF h1(2) h'(2)] by (simp add: updated_fields_def becomesD(2) [OF h1(2)])
  then show ?thesis using h1(1) h'(1) by (auto simp: header_update_def then_do_def fresh_fields_def)
qed

text \<open>Removing the fields that are for one connection only.\<close>

definition connection_value :: "header_entry list \<Rightarrow> exn + bytes" where
  "connection_value es = join_values (map he_value (filter (\<lambda>e. he_id e = CONNECTION) es)) []"

definition end_to_end :: "bytes \<Rightarrow> header_entry \<Rightarrow> bool" where
  "end_to_end conn e \<longleftrightarrow> \<not> strListIsMember conn (he_name e) (CHR '','') \<and> \<not> hr_hopbyhop (lookup_id (he_id e))"

lemma no_members: "\<not> strListIsMember [] m del"
  by (simp add: strListIsMember_def cstr_def list_items.simps strListGetItem_def item_end.simps)

lemma removeConnection_becomes:
  assumes "header_ok h" "connection_value (header_fields h) = Inr conn"
  shows "\<exists>h'. removeConnectionHeaderEntries h = (Inr (), h') \<and>
    becomes h (filter (\<lambda>e. \<not> strListIsMember conn (he_name e) (CHR '','')) (header_fields h)) h'"
proof (cases "CONNECTION \<in> hh_mask h")
  case False
  then have "filter (\<lambda>e. he_id e = CONNECTION) (header_fields h) = []" using assms(1) by (auto simp: header_ok_def filter_empty_conv)
  then have "conn = []" using assms(2) by (simp add: connection_value_def)
  then show ?thesis using False assms(1) becomes_refl by (simp add: removeConnectionHeaderEntries_def no_members)
next
  case True
  let ?P = "\<lambda>e. strListIsMember conn (he_name e) (CHR '','')"
  have "lookup_id CONNECTION = HeaderTableRecord_of ''Connection'' CONNECTION ftStr (1 OR (2 OR 4) OR 8)"
    by (simp add: lookup_id_declared registered_headers_def)
  then have "hr_list (lookup_id CONNECTION)" by (simp add: HeaderTableRecord_of_def)
  then have gl: "getList CONNECTION h = Inr (Some conn)" using True assms(2) by (simp add: getList_def connection_value_def)
  have body: "(\<lambda>pos e. if ?P e then delAt pos else nothing) = delete_body ?P (\<lambda>e m. m)" by (simp add: fun_eq_iff delete_body_def set_mask_id)
  let ?h = "h\<lparr>hh_entries := map (cut ?P) (hh_entries h), hh_len := fields_length (filter (\<lambda>e. \<not> ?P e) (header_fields h))\<rparr>"
  let ?n = "length (filter ?P (header_fields h))"
  have loop: "for_entries (\<lambda>pos e. if ?P e then delAt pos else nothing) h = (Inr ?n, ?h)"
    unfolding body for_entries_delete [OF header_ok_len [OF assms(1)]] by (simp add: foldl_keep)
  have fields: "header_fields ?h = filter (\<lambda>e. \<not> ?P e) (header_fields h)" by (simp add: header_fields_somes somes_cut)
  have "becomes h (filter (\<lambda>e. \<not> ?P e) (header_fields h)) (if ?n \<noteq> 0 then refreshMask ?h else ?h)"
  proof (rule delete_becomes [OF assms(1)])
    have "filter ?P (header_fields h) = [] \<Longrightarrow> set (filter (\<lambda>e. \<not> ?P e) (header_fields h)) = set (header_fields h)" by (auto simp: filter_empty_conv)
    then show "hh_mask (if ?n \<noteq> 0 then refreshMask ?h else ?h) = he_id ` set (filter (\<lambda>e. \<not> ?P e) (header_fields h))"
      using assms(1) fields by (auto simp: refreshMask_def foldl_insert header_ok_def)
  qed (simp_all add: refreshMask_def)
  then show ?thesis using True gl loop by (auto simp: removeConnectionHeaderEntries_def then_do_def)
qed

lemma removeHopByHop_becomes:
  assumes "header_ok h" "connection_value (header_fields h) = Inr conn"
  shows "\<exists>h'. removeHopByHopEntries h = (Inr (), h') \<and> becomes h (filter (end_to_end conn) (header_fields h)) h'"
proof -
  obtain h1 where h1: "removeConnectionHeaderEntries h = (Inr (), h1)"
    "becomes h (filter (\<lambda>e. \<not> strListIsMember conn (he_name e) (CHR '','')) (header_fields h)) h1" using removeConnection_becomes [OF assms] by blast
  note ok = becomesD(1) [OF h1(2)]
  let ?P = "\<lambda>e. hr_hopbyhop (lookup_id (he_id e))" let ?f = "\<lambda>e m. if ?P e then m - {he_id e} else m"
  have body: "(\<lambda>pos e. if ?P e then then_do (delAt pos) (\<lambda>_. set_mask (\<lambda>m. m - {he_id e})) else nothing) = delete_body ?P ?f"
    by (simp add: fun_eq_iff delete_body_def set_mask_id)
  have fold: "foldl (\<lambda>m e. ?f e m) M es = M - he_id ` set (filter ?P es)" for M es by (induction es arbitrary: M) auto
  have mask: "foldl (\<lambda>m e. ?f e m) (hh_mask h1) (header_fields h1) = he_id ` set (filter (\<lambda>e. \<not> ?P e) (header_fields h1))"
    unfolding fold using ok by (auto simp: header_ok_def)
  have "becomes h1 (filter (\<lambda>e. \<not> ?P e) (header_fields h1)) (snd (for_entries (delete_body ?P ?f) h1))"
    unfolding for_entries_delete [OF header_ok_len [OF ok]] mask by (rule delete_becomes [OF ok]) simp_all
  then have "becomes h (filter (end_to_end conn) (header_fields h)) (snd (for_entries (delete_body ?P ?f) h1))"
    using becomes_trans [OF h1(2)] by (simp add: becomesD(2) [OF h1(2)] end_to_end_def [abs_def] conj_commute)
  then show ?thesis using h1(1) for_entries_delete [OF header_ok_len [OF ok], of ?P ?f]
    by (simp add: removeHopByHopEntries_def then_do_def body)
qed

section \<open>What the lookups see\<close>

lemma mask_iff: "header_ok h \<Longrightarrow> hid \<in> hh_mask h \<longleftrightarrow> (\<exists>e\<in>set (header_fields h). he_id e = hid)"
  by (auto simp: header_ok_def)

lemma findEntry_fields:
  assumes "header_ok h" "any_registered_header hid" "\<not> hr_list (lookup_id hid)"
  shows "findEntry hid h = Inr (find (\<lambda>e. he_id e = hid) (header_fields h))"
    "findLastEntry hid h = Inr (find (\<lambda>e. he_id e = hid) (rev (header_fields h)))"
proof -
  have none: "find (\<lambda>e. he_id e = hid) es = None \<longleftrightarrow> hid \<notin> hh_mask h" if "set es = set (header_fields h)" for es
    using that assms(1) by (auto simp: find_None_iff mask_iff)
  show "findEntry hid h = Inr (find (\<lambda>e. he_id e = hid) (header_fields h))"
    "findLastEntry hid h = Inr (find (\<lambda>e. he_id e = hid) (rev (header_fields h)))"
    using none [of "header_fields h"] none [of "rev (header_fields h)"] assms(2,3)
    by (auto simp: findEntry_def findLastEntry_def split: option.split)
qed

lemma getList_fields:
  assumes "header_ok h" "hr_list (lookup_id hid)"
  defines "vs \<equiv> map he_value (filter (\<lambda>e. he_id e = hid) (header_fields h))"
  shows "getList hid h = (if vs = [] then Inr None else case join_values vs [] of Inl e \<Rightarrow> Inl e | Inr s \<Rightarrow> Inr (Some s))"
  using assms by (auto simp: getList_def mask_iff vs_def filter_empty_conv)

lemma cstr_loop_equal:
  assumes "i + n \<le> length s" "i + n \<le> length t" "CHR 0x00 \<notin> set s"
  shows "(case cstr_loop f s t i n of (rv, right, bc) \<Rightarrow> rv = 0) \<longleftrightarrow> map f (take n (drop i s)) = map f (take n (drop i t))"
  using assms(1,2)
proof (induction n arbitrary: i)
  case (Suc n)
  then have at: "i < length s" "i < length t" by auto
  then have "s ! i \<noteq> CHR 0x00" using assms(3) by (metis nth_mem)
  moreover have "take (Suc n) (drop i s) = s ! i # take n (drop (Suc i) s)" "take (Suc n) (drop i t) = t ! i # take n (drop (Suc i) t)"
    using at by (simp_all add: take_Suc_conv_app_nth Cons_nth_drop_Suc [symmetric])
  moreover have "cstr_loop f s t (Suc i) 0 = (0, Suc i, 0)" by simp
  ultimately show ?case using at Suc by (cases "n = 0") (auto simp: c_char_def Let_def)
qed simp

lemma cmp_cstr_eq_0:
  assumes "length s = n" "n \<le> length t" "CHR 0x00 \<notin> set s"
  shows "sb_compare_cstr s t False n = 0 \<longleftrightarrow> map xtolower s = map xtolower (take n t)"
  using cstr_loop_equal [of 0 n s t xtolower] assms by (auto simp: sb_compare_cstr_def split: prod.split)

text \<open>The value of a name: of a registered field that is no list the first value, else all values joined.\<close>

definition named_value :: "bytes \<Rightarrow> header_entry list \<Rightarrow> exn + bytes option" where
  "named_value name es =
     (let vs = map he_value (filter (named name) es); r = lookup_name name
      in if vs = [] then Inr None
         else if hr_id r \<noteq> BAD_HDR \<and> \<not> hr_list r then Inr (Some (hd vs))
         else case join_values vs [] of Inl e \<Rightarrow> Inl e | Inr s \<Rightarrow> Inr (Some s))"

lemma valid_cases: "entry_ok e \<Longrightarrow> he_id e = OTHER \<or> any_registered_header (he_id e)"
  using entry_registered by blast

lemma named_registered:
  assumes "entry_ok e" "any_registered_header hid" "lookup_name name = lookup_id hid"
    "map xtolower name = map xtolower (hr_name (lookup_id hid))"
  shows "named name e \<longleftrightarrow> he_id e = hid"
proof
  assume n: "named name e"
  then have l: "lookup_name (he_name e) = lookup_id hid" using lookup_name_same assms(3) by metis
  have hid: "hid < 86" "hid \<noteq> BAD_HDR" "hid \<noteq> OTHER" using assms(2) by (simp_all add: any_registered_header_def)
  show "he_id e = hid"
  proof (cases "he_id e = OTHER")
    case True
    then have "hr_id (lookup_id hid) = BAD_HDR" using assms(1) l by (simp add: entry_ok_def)
    then show ?thesis using hid by simp
  next
    case False
    then have reg: "any_registered_header (he_id e)" "he_name e = hr_name (lookup_id (he_id e))"
      using assms(1) entry_registered by (simp_all add: entry_ok_def)
    then have "lookup_id (he_id e) = lookup_id hid" using lookup_name_of_id [OF reg(1)] l by simp
    then have "hr_id (lookup_id (he_id e)) = hr_id (lookup_id hid)" by simp
    then show ?thesis using hid reg(1) by (simp add: any_registered_header_def)
  qed
next
  assume "he_id e = hid"
  then show "named name e" using assms by (auto simp: entry_ok_def any_registered_header_def)
qed

lemma named_other:
  assumes "entry_ok e" "hr_id (lookup_name name) = BAD_HDR" "named name e"
  shows "he_id e = OTHER"
proof (rule ccontr)
  assume "he_id e \<noteq> OTHER"
  then have reg: "any_registered_header (he_id e)" "he_name e = hr_name (lookup_id (he_id e))"
    using assms(1) entry_registered by (simp_all add: entry_ok_def)
  then have "lookup_name name = lookup_id (he_id e)" using lookup_name_of_id [OF reg(1)] lookup_name_same [OF assms(3)] by simp
  then show False using assms(2) reg(1) by (simp add: any_registered_header_def)
qed

lemma others_named:
  assumes "header_ok h" "hr_id (lookup_name name) = BAD_HDR"
  shows "filter (\<lambda>e. he_id e = OTHER \<and> length (he_name e) = length name \<and> sb_compare_cstr (he_name e) name False (length name) = 0)
    (header_fields h) = filter (named name) (header_fields h)"
proof (rule filter_cong [OF refl])
  fix e
  assume "e \<in> set (header_fields h)"
  then have ok: "entry_ok e" using assms(1) by (auto simp: header_ok_def list_all_iff)
  have len: "named name e \<Longrightarrow> length (he_name e) = length name" by (rule map_eq_imp_length_eq)
  have "length (he_name e) = length name \<Longrightarrow> sb_compare_cstr (he_name e) name False (length name) = 0 \<longleftrightarrow> named name e"
    using cmp_cstr_eq_0 [of "he_name e" "length name" name] ok by (simp add: entry_ok_def)
  then show "(he_id e = OTHER \<and> length (he_name e) = length name \<and> sb_compare_cstr (he_name e) name False (length name) = 0) = named name e"
    using len named_other [OF ok assms(2)] by blast
qed

lemma filter_hd_find: "filter P xs \<noteq> [] \<Longrightarrow> find P xs = Some (hd (filter P xs))"
  by (induction xs) auto

lemma hasNamed_fields:
  assumes "header_ok h"
  shows "hasNamed name h = named_value name (header_fields h)"
proof (cases rule: lookup_name_cases [of name])
  case 1
  then show ?thesis by (auto simp: hasNamed_def named_value_def others_named [OF assms 1(2)] Let_def)
next
  case (2 hid)
  have hid: "hid \<noteq> BAD_HDR" "hr_id (lookup_name name) \<noteq> BAD_HDR" "any_registered_header hid" using 2 by (auto simp: any_registered_header_def)
  have named: "filter (named name) (header_fields h) = filter (\<lambda>e. he_id e = hid) (header_fields h)"
    using assms named_registered [OF _ 2(1,2,4)] by (auto simp: header_ok_def list_all_iff intro: filter_cong)
  have search: "filter (\<lambda>e. he_id e = OTHER \<and> length (he_name e) = length name \<and> sb_compare_cstr (he_name e) name False (length name) = 0)
      (header_fields h) = []"
  proof -
    have "\<not> (length (he_name e) = length name \<and> sb_compare_cstr (he_name e) name False (length name) = 0)"
      if "e \<in> set (header_fields h)" "he_id e = OTHER" for e
    proof
      have ok: "entry_ok e" using assms that(1) by (auto simp: header_ok_def list_all_iff)
      assume "length (he_name e) = length name \<and> sb_compare_cstr (he_name e) name False (length name) = 0"
      then have "named name e" using cmp_cstr_eq_0 [of "he_name e" "length name" name] ok by (simp add: entry_ok_def)
      then show False using named_registered [OF ok 2(1,2,4)] that(2) hid(3) by (simp add: any_registered_header_def)
    qed
    then show ?thesis by (auto simp: filter_empty_conv)
  qed
  let ?es = "filter (\<lambda>e. he_id e = hid) (header_fields h)"
  have mask: "hid \<in> hh_mask h \<longleftrightarrow> ?es \<noteq> []" using assms by (auto simp: mask_iff filter_empty_conv)
  have gl: "hr_list (lookup_id hid) \<Longrightarrow> getList hid h = (if ?es = [] then Inr None else case join_values (map he_value ?es) [] of Inl e \<Rightarrow> Inl e | Inr s \<Rightarrow> Inr (Some s))"
    using getList_fields [OF assms] by simp
  have fe: "\<not> hr_list (lookup_id hid) \<Longrightarrow> ?es \<noteq> [] \<Longrightarrow> findEntry hid h = Inr (Some (hd ?es))"
    using findEntry_fields(1) [OF assms hid(3)] filter_hd_find [of "\<lambda>e. he_id e = hid" "header_fields h"] by simp
  show ?thesis
  proof (cases "?es = []")
    case True
    then show ?thesis using hid mask 2(1-3)
      by (simp add: hasNamed_def search getByIdIfPresent_def header_has_def named_value_def named Let_def)
  next
    case False
    then show ?thesis using hid mask 2(1-3) gl fe
      by (auto simp: hasNamed_def search getByIdIfPresent_def header_has_def getStrOrList_def named_value_def named Let_def hd_map split: sum.split)
  qed
qed

section \<open>Sequences of calls\<close>

datatype header_call =
    HAdd header_entry
  | HPutInt64 HdrType int
  | HPutStr HdrType bytes
  | HPutExt bytes bytes
  | HDelById HdrType
  | HDelByName bytes
  | HAppend http_header
  | HUpdate http_header
  | HHopByHop
  | HCompact
  | HRefreshMask
  | HClean
  | HFind HdrType
  | HFindLast HdrType
  | HGetList HdrType
  | HNamed bytes
  | HPack

datatype header_reply = HDone | HCount nat | HEntry "header_entry option" | HText "bytes option" | HRaised exn

definition reply_with :: "('a \<Rightarrow> header_reply) \<Rightarrow> exn + 'a \<Rightarrow> header_reply" where
  "reply_with f r = (case r of Inl x \<Rightarrow> HRaised x | Inr v \<Rightarrow> f v)"

lemma reply_with_simps [simp]: "reply_with f (Inr v) = f v" "reply_with f (Inl x) = HRaised x"
  by (simp_all add: reply_with_def)

definition finished :: "(exn + unit) \<times> http_header \<Rightarrow> header_reply \<times> http_header" where
  "finished r = (reply_with (\<lambda>_. HDone) (fst r), snd r)"

fun header_exec :: "header_call \<Rightarrow> http_header \<Rightarrow> header_reply \<times> http_header" where
  "header_exec (HAdd e) h = finished (addEntry e h)"
| "header_exec (HPutInt64 hid n) h = finished (putInt64 hid n h)"
| "header_exec (HPutStr hid v) h = finished (putStr hid v h)"
| "header_exec (HPutExt name v) h = finished (putExt name v h)"
| "header_exec (HDelById hid) h = (case delById hid h of (r, h1) \<Rightarrow> (reply_with HCount r, h1))"
| "header_exec (HDelByName name) h = (case delByName name h of (r, h1) \<Rightarrow> (reply_with HCount r, h1))"
| "header_exec (HAppend src) h = finished (header_append src h)"
| "header_exec (HUpdate fresh) h = finished (header_update fresh h)"
| "header_exec HHopByHop h = finished (removeHopByHopEntries h)"
| "header_exec HCompact h = (HDone, header_compact h)"
| "header_exec HRefreshMask h = (HDone, refreshMask h)"
| "header_exec HClean h = finished (header_clean h)"
| "header_exec (HFind hid) h = (reply_with HEntry (findEntry hid h), h)"
| "header_exec (HFindLast hid) h = (reply_with HEntry (findLastEntry hid h), h)"
| "header_exec (HGetList hid) h = (reply_with HText (getList hid h), h)"
| "header_exec (HNamed name) h = (reply_with HText (hasNamed name h), h)"
| "header_exec HPack h = (reply_with (\<lambda>s. HText (Some s)) (header_packInto False h), h)"

definition registered_entry :: "HdrType \<Rightarrow> bytes \<Rightarrow> header_entry" where
  "registered_entry hid v = \<lparr>he_id = hid, he_name = hr_name (lookup_id hid), he_value = v\<rparr>"

definition other_entry :: "bytes \<Rightarrow> bytes \<Rightarrow> header_entry" where
  "other_entry name v = \<lparr>he_id = OTHER, he_name = name, he_value = v\<rparr>"

fun header_spec :: "header_call \<Rightarrow> header_entry list \<Rightarrow> header_reply \<times> header_entry list" where
  "header_spec (HAdd e) es = (HDone, es @ [e])"
| "header_spec (HPutInt64 hid n) es = (HDone, es @ [registered_entry hid (xint64toa n)])"
| "header_spec (HPutStr hid v) es = (HDone, es @ [registered_entry hid v])"
| "header_spec (HPutExt name v) es = (HDone, es @ [other_entry name v])"
| "header_spec (HDelById hid) es = (HCount (length (filter (\<lambda>e. he_id e = hid) es)), filter (\<lambda>e. he_id e \<noteq> hid) es)"
| "header_spec (HDelByName name) es = (HCount (length (filter (named name) es)), filter (\<lambda>e. \<not> named name e) es)"
| "header_spec (HAppend src) es = (HDone, es @ header_fields src)"
| "header_spec (HUpdate fresh) es = (HDone, updated_fields (header_fields fresh) es)"
| "header_spec HHopByHop es = (case connection_value es of Inl x \<Rightarrow> (HRaised x, es) | Inr conn \<Rightarrow> (HDone, filter (end_to_end conn) es))"
| "header_spec HCompact es = (HDone, es)"
| "header_spec HRefreshMask es = (HDone, es)"
| "header_spec HClean es = (HDone, [])"
| "header_spec (HFind hid) es = (HEntry (find (\<lambda>e. he_id e = hid) es), es)"
| "header_spec (HFindLast hid) es = (HEntry (find (\<lambda>e. he_id e = hid) (rev es)), es)"
| "header_spec (HGetList hid) es = (let vs = map he_value (filter (\<lambda>e. he_id e = hid) es)
     in (if vs = [] then HText None else reply_with (\<lambda>s. HText (Some s)) (join_values vs []), es))"
| "header_spec (HNamed name) es = (reply_with HText (named_value name es), es)"
| "header_spec HPack es = (HText (Some (concat (map entry_packInto es))), es)"

definition text_ok :: "bytes \<Rightarrow> bool" where
  "text_ok s \<longleftrightarrow> CHR 0x00 \<notin> set s \<and> length s < String_SizeMax"

fun header_legal :: "header_call \<Rightarrow> header_entry list \<Rightarrow> bool" where
  "header_legal (HAdd e) es \<longleftrightarrow> entry_ok e"
| "header_legal (HPutInt64 hid n) es \<longleftrightarrow> any_registered_header hid \<and> hr_type (lookup_id hid) = ftInt64 \<and> 0 \<le> n \<and> n \<le> LLONG_MAX"
| "header_legal (HPutStr hid v) es \<longleftrightarrow> any_registered_header hid \<and> hr_type (lookup_id hid) = ftStr \<and> text_ok v"
| "header_legal (HPutExt name v) es \<longleftrightarrow> entry_ok (other_entry name v)"
| "header_legal (HDelById hid) es \<longleftrightarrow> any_registered_header hid"
| "header_legal (HDelByName name) es \<longleftrightarrow> sb_ok name"
| "header_legal (HAppend src) es \<longleftrightarrow> header_ok src"
| "header_legal (HUpdate fresh) es \<longleftrightarrow> header_ok fresh"
| "header_legal (HFind hid) es \<longleftrightarrow> any_registered_header hid \<and> \<not> hr_list (lookup_id hid)"
| "header_legal (HFindLast hid) es \<longleftrightarrow> any_registered_header hid \<and> \<not> hr_list (lookup_id hid)"
| "header_legal (HGetList hid) es \<longleftrightarrow> hr_list (lookup_id hid)"
| "header_legal c es \<longleftrightarrow> True"

lemma decimal_digits_length: "n < 10 ^ k \<Longrightarrow> 0 < k \<Longrightarrow> length (decimal_digits n) \<le> k"
proof (induction n arbitrary: k rule: decimal_digits.induct)
  case (1 n)
  show ?case
  proof (cases "n < 10")
    case False
    obtain j where k: "k = Suc j" using 1(3) by (cases k) auto
    then have j: "0 < j" using False 1(2) by (cases j) auto
    have "n div 10 < 10 ^ j" using 1(2) k by (simp add: div_less_iff_less_mult mult.commute)
    then show ?thesis using 1(1) [OF False _ j] False k by (subst decimal_digits.simps) simp
  qed (use 1(3) in \<open>subst decimal_digits.simps; simp\<close>)
qed

lemma xint64toa_text: "0 \<le> n \<Longrightarrow> n \<le> LLONG_MAX \<Longrightarrow> text_ok (xint64toa n)"
proof -
  assume n: "0 \<le> n" "n \<le> LLONG_MAX"
  have "CHR 0x00 \<notin> set (decimal_digits n)" for n
  proof (induction n rule: decimal_digits.induct)
    case (1 n)
    have nz: "CHR 0x00 \<noteq> char_of (48 + d)" if "d < 10" for d :: nat
    proof
      assume "CHR 0x00 = char_of (48 + d)"
      then have "of_char (CHR 0x00) = (of_char (char_of (48 + d) :: char) :: nat)" by (rule arg_cong)
      then show False using that by (simp add: of_char_of)
    qed
    show ?case using 1 nz [of n] nz [of "n mod 10"] by (subst decimal_digits.simps) simp
  qed
  moreover have "length (decimal_digits (nat n)) \<le> 19" using n by (intro decimal_digits_length) (simp_all add: LLONG_MAX_def nat_less_iff)
  ultimately show ?thesis using n by (simp add: xint64toa_def text_ok_def String_SizeMax_def)
qed

lemma registered_names: "list_all (\<lambda>r. CHR 0x00 \<notin> set (hr_name r)) registered_headers"
  by (simp add: registered_headers_def HeaderTableRecord_of_def)

lemma registered_entry_ok: "any_registered_header hid \<Longrightarrow> text_ok v \<Longrightarrow> entry_ok (registered_entry hid v)"
proof -
  assume reg: "any_registered_header hid" and v: "text_ok v"
  then have hid: "hid < 86" "hid \<noteq> OTHER" "any_valid_header hid" by (simp_all add: any_registered_header_def any_valid_header_def)
  have "CHR 0x00 \<notin> set (hr_name (lookup_id hid))" using registered_names hid(1) by (simp add: lookup_id_declared list_all_length slot_count)
  moreover have "length (hr_name (lookup_id hid)) \<le> 25" using declared_record(6) [OF hid(1)] hid(1) by (simp add: lookup_id_declared)
  ultimately show ?thesis using hid v hr_name_nonempty [OF hid(1)] by (simp add: entry_ok_def registered_entry_def text_ok_def sb_ok_def maxSize_def)
qed

lemma add_new_becomes:
  assumes "header_ok h"
  shows "any_registered_header hid \<Longrightarrow> text_ok v \<Longrightarrow> \<exists>h'. add_new hid name v h = (Inr (), h') \<and> becomes h (header_fields h @ [registered_entry hid v]) h'"
    "entry_ok (other_entry name v) \<Longrightarrow> \<exists>h'. add_new OTHER name v h = (Inr (), h') \<and> becomes h (header_fields h @ [other_entry name v]) h'"
proof -
  assume reg: "any_registered_header hid" and v: "text_ok v"
  then have "HttpHeaderEntry hid name v = Inr (registered_entry hid v)"
    by (auto simp: HttpHeaderEntry_def registered_entry_def any_registered_header_def any_HdrType_enum_value_def text_ok_def cstr_id)
  then show "\<exists>h'. add_new hid name v h = (Inr (), h') \<and> becomes h (header_fields h @ [registered_entry hid v]) h'"
    using addEntry_becomes [OF assms registered_entry_ok [OF reg v]] by (simp add: add_new_def)
next
  assume ok: "entry_ok (other_entry name v)"
  then have "HttpHeaderEntry OTHER name v = Inr (other_entry name v)"
    by (auto simp: HttpHeaderEntry_def other_entry_def any_HdrType_enum_value_def entry_ok_def cstr_id)
  then show "\<exists>h'. add_new OTHER name v h = (Inr (), h') \<and> becomes h (header_fields h @ [other_entry name v]) h'"
    using addEntry_becomes [OF assms ok] by (simp add: add_new_def)
qed

lemma pack_fields: "header_packInto False h = Inr (concat (map entry_packInto (header_fields h)))"
proof -
  have "pack_loop h False es = Inr (concat (map entry_packInto es))" for es by (induction es) simp_all
  then show ?thesis by (simp add: header_packInto_def)
qed

text \<open>A step of the header is the step of the list of its fields.\<close>

definition steps_as :: "header_reply \<times> http_header \<Rightarrow> header_reply \<times> header_entry list \<Rightarrow> bool" where
  "steps_as c a \<longleftrightarrow> header_ok (snd c) \<and> fst c = fst a \<and> header_fields (snd c) = snd a"

lemma finished_steps: "\<exists>h'. r = (Inr (), h') \<and> becomes h es h' \<Longrightarrow> steps_as (finished r) (HDone, es)"
  by (auto simp: steps_as_def finished_def becomes_def)

lemma counted_steps:
  "\<exists>h'. r = (Inr n, h') \<and> becomes h es h' \<Longrightarrow> steps_as (case r of (x, h1) \<Rightarrow> (reply_with HCount x, h1)) (HCount n, es)"
  by (auto simp: steps_as_def becomes_def)

lemma hopByHop_steps:
  assumes "header_ok h"
  shows "steps_as (finished (removeHopByHopEntries h)) (header_spec HHopByHop (header_fields h))"
proof (cases "connection_value (header_fields h)")
  case (Inr conn)
  then show ?thesis using finished_steps [OF removeHopByHop_becomes [OF assms Inr]] by simp
next
  case (Inl x)
  have "filter (\<lambda>e. he_id e = CONNECTION) (header_fields h) \<noteq> []" using Inl by (auto simp: connection_value_def)
  then have m: "CONNECTION \<in> hh_mask h" using assms by (auto simp: mask_iff filter_empty_conv)
  have "hr_list (lookup_id CONNECTION)" by (simp add: lookup_id_declared registered_headers_def HeaderTableRecord_of_def)
  then have "getList CONNECTION h = Inl x" using m Inl by (simp add: getList_def connection_value_def)
  then have "removeHopByHopEntries h = (Inl x, h)" using m by (simp add: removeHopByHopEntries_def removeConnectionHeaderEntries_def then_do_def)
  then show ?thesis using assms Inl by (simp add: steps_as_def finished_def)
qed

lemma put_steps:
  assumes "header_ok h"
  shows "header_legal (HPutInt64 hid n) es \<Longrightarrow> steps_as (finished (putInt64 hid n h)) (header_spec (HPutInt64 hid n) (header_fields h))"
    "header_legal (HPutStr hid v) es \<Longrightarrow> steps_as (finished (putStr hid v h)) (header_spec (HPutStr hid v) (header_fields h))"
    "header_legal (HPutExt name v) es \<Longrightarrow> steps_as (finished (putExt name v h)) (header_spec (HPutExt name v) (header_fields h))"
proof -
  assume l: "header_legal (HPutInt64 hid n) es"
  then have "putInt64 hid n h = add_new hid [] (xint64toa n) h" by (simp add: putInt64_def then_do_def assert_do_def)
  then show "steps_as (finished (putInt64 hid n h)) (header_spec (HPutInt64 hid n) (header_fields h))"
    using finished_steps [OF add_new_becomes(1) [OF assms _ xint64toa_text]] l by simp
next
  assume l: "header_legal (HPutStr hid v) es"
  then have "putStr hid v h = add_new hid [] v h" by (simp add: putStr_def then_do_def assert_do_def)
  then show "steps_as (finished (putStr hid v h)) (header_spec (HPutStr hid v) (header_fields h))"
    using finished_steps [OF add_new_becomes(1) [OF assms]] l by simp
next
  assume l: "header_legal (HPutExt name v) es"
  then have "cstr name = name" by (simp add: entry_ok_def other_entry_def cstr_id)
  then show "steps_as (finished (putExt name v h)) (header_spec (HPutExt name v) (header_fields h))"
    using finished_steps [OF add_new_becomes(2) [OF assms]] l by (simp add: putExt_def)
qed

lemma header_step:
  assumes "header_ok h" "header_legal c (header_fields h)"
  shows "steps_as (header_exec c h) (header_spec c (header_fields h))"
proof (cases c)
  case (HAdd e)
  then show ?thesis using assms finished_steps [OF addEntry_becomes] by simp
next
  case (HDelById hid)
  then show ?thesis using assms counted_steps [OF delById_becomes] by simp
next
  case (HDelByName name)
  then show ?thesis using assms counted_steps [OF delByName_becomes] by simp
next
  case (HAppend src)
  then show ?thesis using assms finished_steps [OF add_clones_becomes] header_ok_fields by (simp add: header_append_def)
next
  case (HUpdate fresh)
  then show ?thesis using assms finished_steps [OF update_becomes] by simp
next
  case (HGetList hid)
  then show ?thesis using assms getList_fields [OF assms(1), of hid] by (auto simp: steps_as_def Let_def split: sum.split)
next
  case HClean
  then show ?thesis using clean_becomes [OF assms(1)] by (auto simp: steps_as_def finished_def)
qed (use assms put_steps [OF assms(1)] hopByHop_steps [OF assms(1)] compact_becomes [OF assms(1)] refreshMask_becomes [OF assms(1)] in
    \<open>auto simp: steps_as_def becomes_def findEntry_fields hasNamed_fields pack_fields simp del: header_spec.simps(9)\<close>)

interpretation header: implementation header_ok header_fields header_legal header_exec header_spec
  using header_step unfolding steps_as_def by unfold_locales blast+

section \<open>Correctness of the container\<close>


definition sample_header_calls :: "header_call list" where
  "sample_header_calls = [HPutStr VIA ''1.1 a'', HPutInt64 CONTENT_LENGTH 42, HAdd (registered_entry VIA ''1.0 b''), HGetList VIA,
     HDelById CONTENT_LENGTH, HFind CONTENT_LENGTH, HCompact]"

lemma sample_records:
  "lookup_id VIA = HeaderTableRecord_of ''Via'' VIA ftStr (1 OR (2 OR 4))"
  "lookup_id CONTENT_LENGTH = HeaderTableRecord_of ''Content-Length'' CONTENT_LENGTH ftInt64 (2 OR 4)"
  "lookup_id SET_COOKIE = HeaderTableRecord_of ''Set-Cookie'' SET_COOKIE ftStr 4"
  by (simp_all add: lookup_id_declared registered_headers_def)


lemma isMember_visited:
  assumes "CHR 0x00 \<notin> set m"
  shows "strListIsMember str m del \<longleftrightarrow> (\<exists>x\<in>set (visited del (cstr str)). map xtolower m = map xtolower x)"
proof -
  have "length m = n \<and> sb_compare_cstr m item False n = 0 \<longleftrightarrow> map xtolower m = map xtolower (take n item)"
    if "(item, n) \<in> set (list_items del (cstr str))" for item n
  proof -
    have n: "n \<le> length item" using list_items_after [OF that] by blast
    then have "map xtolower m = map xtolower (take n item) \<Longrightarrow> length m = n" using map_eq_imp_length_eq [of xtolower m xtolower "take n item"] by simp
    then show ?thesis using cmp_cstr_eq_0 [of m n item] n assms by blast
  qed
  then show ?thesis by (force simp: strListIsMember_def list_ex_iff)
qed


definition sample_reply_calls :: "header_call list" where
  "sample_reply_calls = [HPutStr CONNECTION ''close, X-Trace'', HPutExt ''x-trace'' ''7'', HPutStr SERVER ''s'', HPutStr UPGRADE ''h2'']"

definition sample_reply :: http_header where
  "sample_reply = snd (run_calls header_exec sample_reply_calls (header_new hoReply))"

lemma sample_reply_fields:
  "header_ok sample_reply" "header_fields sample_reply = [registered_entry CONNECTION ''close, X-Trace'', other_entry ''x-trace'' ''7'',
     registered_entry SERVER ''s'', registered_entry UPGRADE ''h2'']"
proof -
  have "hr_id (lookup_name ''x-trace'') = BAD_HDR"
    by (simp add: lookup_name_def lookup_is_find registered_headers_def HeaderTableRecord_of_def xtolower_def xisupper_def BadHdr_def)
  then have "entry_ok (other_entry ''x-trace'' ''7'')"
    by (simp add: entry_ok_def other_entry_def any_valid_header_def sb_ok_def maxSize_def String_SizeMax_def)
  moreover have "hr_type (lookup_id CONNECTION) = ftStr" "hr_type (lookup_id SERVER) = ftStr" "hr_type (lookup_id UPGRADE) = ftStr"
    by (simp_all add: lookup_id_declared registered_headers_def HeaderTableRecord_of_def)
  ultimately have "all_allowed header_legal header_spec sample_reply_calls []" by (simp add: sample_reply_calls_def any_registered_header_def text_ok_def String_SizeMax_def LLONG_MAX_def)
  then show "header_ok sample_reply" "header_fields sample_reply = [registered_entry CONNECTION ''close, X-Trace'', other_entry ''x-trace'' ''7'',
     registered_entry SERVER ''s'', registered_entry UPGRADE ''h2'']"
    using header.run_refines [OF header_new_ok(1) [of hoReply], of sample_reply_calls]
    by (simp_all add: sample_reply_def header_new_ok(2)) (simp add: sample_reply_calls_def)
qed


end
