(* ===== verification/Header_Update.thy ===== *)
theory Header_Update
  imports Header_Fields
begin

text \<open>
  Updating a stored header from a fresh one: what an update does to the values that are looked up by name, when \<^verbatim>\<open>needUpdate()\<close> asks
  for one, and two operations that leave the packed length out of step.
\<close>

section \<open>Values by name\<close>

lemma filter_named_updated:
  assumes "list_all entry_ok fresh" "list_all entry_ok es" "e \<in> set (fresh_fields fresh)"
  shows "filter (named (he_name e)) (updated_fields fresh es) = filter (named (he_name e)) fresh"
proof -
  have ok: "entry_ok f" if "f \<in> set fresh \<or> f \<in> set es" for f using that assms(1,2) by (auto simp: list_all_iff)
  have e: "e \<in> set fresh" "\<not> skipUpdateHeader (he_id e)" using assms(3) by (auto simp: fresh_fields_def)
  have same: "named (he_name e) f \<longleftrightarrow> replaces e f" if "entry_ok f" for f
  proof (cases "he_id e = OTHER")
    case False
    have reg: "any_registered_header (he_id e)" "he_name e = hr_name (lookup_id (he_id e))"
      using entry_registered [OF ok False] ok [of e] e(1) False by (simp_all add: entry_ok_def)
    then show ?thesis using named_registered [OF that reg(1), of "he_name e"] lookup_name_of_id [OF reg(1)] False by (simp add: replaces_def)
  qed (simp add: replaces_def)
  have "skipUpdateHeader (he_id f) \<longleftrightarrow> skipUpdateHeader (he_id e)" if "entry_ok f" "named (he_name e) f" for f
  proof (cases "he_id e = OTHER")
    case True
    have "hr_id (lookup_name (he_name e)) = BAD_HDR" using ok [of e] e(1) True by (simp add: entry_ok_def)
    then have "he_id f = OTHER" using named_other [OF that(1) _ that(2)] by blast
    then show ?thesis using True by simp
  next
    case False
    then show ?thesis using same [OF that(1)] that(2) by (simp add: replaces_def)
  qed
  then have skip: "filter (named (he_name e)) (fresh_fields fresh) = filter (named (he_name e)) fresh"
    using e(2) ok unfolding fresh_fields_def filter_filter by (intro filter_cong) auto
  have "filter (named (he_name e)) (filter (\<lambda>f. \<not> list_ex (\<lambda>e. replaces e f) (fresh_fields fresh)) es) = []"
    using same ok assms(3) by (auto simp: filter_empty_conv list_ex_iff)
  then show ?thesis using skip by (simp add: updated_fields_def)
qed

lemma filter_named_kept:
  assumes "list_all entry_ok fresh" "list_all entry_ok es" "\<not> list_ex (named name) (fresh_fields fresh)"
  shows "filter (named name) (updated_fields fresh es) = filter (named name) es"
proof -
  have "filter (named name) (fresh_fields fresh) = []" using assms(3) by (auto simp: filter_empty_conv list_ex_iff)
  moreover have "filter (named name) (filter (\<lambda>f. \<not> list_ex (\<lambda>e. replaces e f) (fresh_fields fresh)) es) = filter (named name) es"
  proof -
    have "\<not> replaces e f" if "f \<in> set es" "named name f" "e \<in> set (fresh_fields fresh)" for e f
    proof
      assume r: "replaces e f"
      have ok: "entry_ok e" "entry_ok f" using that assms(1,2) by (auto simp: list_all_iff fresh_fields_def)
      have "named name e"
      proof (cases "he_id e = OTHER")
        case True
        then show ?thesis using r that(2) by (simp add: replaces_def)
      next
        case False
        then have "he_name e = he_name f" using r ok by (auto simp: replaces_def entry_ok_def)
        then show ?thesis using that(2) by simp
      qed
      then show False using assms(3) that(3) by (auto simp: list_ex_iff)
    qed
    then show ?thesis unfolding filter_filter by (intro filter_cong) (auto simp: list_ex_iff)
  qed
  ultimately show ?thesis by (simp add: updated_fields_def)
qed

lemma named_value_updated:
  assumes "header_ok h" "header_ok fresh"
  shows "named_value name (updated_fields (header_fields fresh) (header_fields h)) =
    (if list_ex (named name) (fresh_fields (header_fields fresh)) then named_value name (header_fields fresh) else named_value name (header_fields h))"
proof -
  note ok = header_ok_fields [OF assms(2)] header_ok_fields [OF assms(1)]
  have "filter (named name) (updated_fields (header_fields fresh) (header_fields h)) = filter (named name) (header_fields fresh)"
    if fresh_named: "list_ex (named name) (fresh_fields (header_fields fresh))"
  proof -
    obtain e where e: "e \<in> set (fresh_fields (header_fields fresh))" "named name e" using fresh_named unfolding list_ex_iff by blast
    then have "named (he_name e) = named name" by (auto simp: fun_eq_iff)
    then show ?thesis using filter_named_updated [OF ok e(1)] by simp
  qed
  then show ?thesis using filter_named_kept [OF ok, of name] by (auto simp: named_value_def)
qed

lemma values_no_null:
  assumes "list_all entry_ok es" "named_value name es = Inr (Some v)"
  shows "CHR 0x00 \<notin> set v"
proof -
  have join: "CHR 0x00 \<notin> set s" if "join_values vs a = Inr s" "CHR 0x00 \<notin> set a" for vs a s
    using that
  proof (induction vs arbitrary: a)
    case (Cons w vs)
    then obtain b where b: "strListAdd a (cstr w) (CHR '','') = Inr b" "join_values vs b = Inr s" by (auto split: sum.splits)
    have "CHR 0x00 \<notin> set (cstr w)" by (auto simp: cstr_def dest: set_takeWhileD)
    then have "CHR 0x00 \<notin> set b" using b(1) Cons.prems(2) by (auto simp: strListAdd_def must_def split: if_splits)
    then show ?case using Cons.IH b(2) by blast
  qed simp
  have vals: "CHR 0x00 \<notin> set (he_value e)" if "e \<in> set es" for e using that assms(1) by (auto simp: list_all_iff entry_ok_def)
  show ?thesis
  proof (cases "filter (named name) es")
    case Nil
    then show ?thesis using assms(2) by (simp add: named_value_def)
  next
    case (Cons e fs)
    have "e \<in> set (filter (named name) es)" using Cons by simp
    then have "CHR 0x00 \<notin> set (he_value e)" using vals by simp
    then show ?thesis using assms(2) Cons join [of "map he_value (e # fs)" "[]" v]
      by (auto simp: named_value_def Let_def simp del: join_values.simps split: if_splits sum.splits)
  qed
qed

lemma String_eq_iff: "CHR 0x00 \<notin> set s \<Longrightarrow> CHR 0x00 \<notin> set t \<Longrightarrow> String_eq s t \<longleftrightarrow> s = t"
  by (auto simp: String_eq_def cstr_id)

text \<open>What the test for an update compares: every field of the fresh header, by name.\<close>

lemma needUpdate_loop_values:
  assumes "header_ok h" "header_ok fresh" "set es \<subseteq> set (header_fields fresh)"
  shows "needUpdate_loop es fresh h = Inr False \<Longrightarrow> e \<in> set (fresh_fields es) \<Longrightarrow>
      named_value (he_name e) (header_fields h) = named_value (he_name e) (header_fields fresh)"
    "(\<And>e. e \<in> set (fresh_fields es) \<Longrightarrow> named_value (he_name e) (header_fields h) = named_value (he_name e) (header_fields fresh)) \<Longrightarrow>
      needUpdate_loop es fresh h \<noteq> Inr True"
  using assms(3)
proof (induction es)
  case (Cons f es)
  have some: "named_value (he_name f) (header_fields fresh) \<noteq> Inr None" if "set (f # es) \<subseteq> set (header_fields fresh)"
    using that by (auto simp: named_value_def Let_def filter_empty_conv split: sum.splits)
  note null = values_no_null [OF header_ok_fields [OF assms(1)]] values_no_null [OF header_ok_fields [OF assms(2)]]
  note defs = fresh_fields_def getByName_def hasNamed_fields [OF assms(1)] hasNamed_fields [OF assms(2)] String_eq_iff
  {
    case 1
    then show ?case using Cons.IH(1) some null by (auto simp: defs split: if_splits sum.splits option.splits)
  next
    case 2
    then show ?case using Cons.IH(2) some null by (auto simp: defs split: if_splits sum.splits option.splits)
  }
qed (simp_all add: fresh_fields_def)

lemma named_value_same: "map xtolower n = map xtolower m \<Longrightarrow> named_value n es = named_value m es"
  using lookup_name_same [of n m] by (simp add: named_value_def)

section \<open>What an update does\<close>

text \<open>C24. Updating a stored header from a fresh one succeeds and keeps the representation invariant. Afterwards every name that occurs among the
  fields of the fresh header that take part in updates has the value that the fresh header gives it, and every other name has its old value. The
  result needs no further update from the same fresh header; and if the stored header did not need the update, the update changes the value of
  no name.\<close>
theorem update_settles:
  assumes "header_ok h" "header_ok fresh"
  shows "\<exists>h'. header_update fresh h = (Inr (), h') \<and> header_ok h' \<and>
    (\<forall>name. hasNamed name h' =
       (if list_ex (named name) (fresh_fields (header_fields fresh)) then hasNamed name fresh else hasNamed name h)) \<and>
    needUpdate fresh h' \<noteq> Inr True \<and>
    (needUpdate fresh h = Inr False \<longrightarrow> (\<forall>name. hasNamed name h' = hasNamed name h))"
proof -
  let ?new = "fresh_fields (header_fields fresh)"
  obtain h' where h': "header_update fresh h = (Inr (), h')" "header_ok h'"
    "header_fields h' = updated_fields (header_fields fresh) (header_fields h)"
    using update_becomes [OF assms] by (auto simp: becomes_def)
  have vals: "named_value name (header_fields h') =
      (if list_ex (named name) ?new then named_value name (header_fields fresh) else named_value name (header_fields h))" for name
    unfolding h'(3) by (rule named_value_updated [OF assms])
  have "needUpdate fresh h' \<noteq> Inr True"
    unfolding needUpdate_def by (rule needUpdate_loop_values(2) [OF h'(2) assms(2)]) (auto simp: vals list_ex_iff)
  moreover have "named_value name (header_fields h') = named_value name (header_fields h)" if "needUpdate fresh h = Inr False" for name
  proof (cases "list_ex (named name) ?new")
    case True
    then obtain e where e: "e \<in> set ?new" "named name e" unfolding list_ex_iff by blast
    then show ?thesis using needUpdate_loop_values(1) [OF assms subset_refl _ e(1)] \<open>needUpdate fresh h = Inr False\<close> True
      by (simp add: vals needUpdate_def named_value_same [OF e(2)])
  qed (simp add: vals)
  ultimately show ?thesis using h'(1,2) vals by (auto simp: hasNamed_fields assms)
qed

definition cookie_header :: "bytes list \<Rightarrow> http_header" where
  "cookie_header cookies = snd (run_calls header_exec (map (HPutStr SET_COOKIE) cookies) (header_new hoReply))"

lemma cookie_header_fields:
  assumes "list_all text_ok cookies"
  shows "header_ok (cookie_header cookies)" "header_fields (cookie_header cookies) = map (registered_entry SET_COOKIE) cookies"
proof -
  have "hr_type (lookup_id SET_COOKIE) = ftStr" by (simp add: lookup_id_declared registered_headers_def HeaderTableRecord_of_def)
  then have legal: "all_allowed header_legal header_spec (map (HPutStr SET_COOKIE) cookies) es" for es
    using assms by (induction cookies arbitrary: es) (simp_all add: any_registered_header_def)
  have "snd (run_calls header_spec (map (HPutStr SET_COOKIE) cookies) es) = es @ map (registered_entry SET_COOKIE) cookies" for es
    by (induction cookies arbitrary: es) (simp_all add: split_beta)
  then show "header_ok (cookie_header cookies)" "header_fields (cookie_header cookies) = map (registered_entry SET_COOKIE) cookies"
    using header.run_refines [OF header_new_ok(1) [of hoReply], of "map (HPutStr SET_COOKIE) cookies"] legal
    by (simp_all add: cookie_header_def header_new_ok(2))
qed

lemma cookie_record: "hr_name (lookup_id SET_COOKIE) = ''Set-Cookie''" "\<not> hr_list (lookup_id SET_COOKIE)"
  "lookup_name ''Set-Cookie'' = lookup_id SET_COOKIE" "hr_id (lookup_id SET_COOKIE) = SET_COOKIE"
proof -
  show name: "hr_name (lookup_id SET_COOKIE) = ''Set-Cookie''" and "\<not> hr_list (lookup_id SET_COOKIE)" "hr_id (lookup_id SET_COOKIE) = SET_COOKIE"
    by (simp_all add: lookup_id_declared registered_headers_def HeaderTableRecord_of_def)
  show "lookup_name ''Set-Cookie'' = lookup_id SET_COOKIE"
    using lookup_name_of_id [of SET_COOKIE] name by (simp add: any_registered_header_def)
qed

theorem update_settles_witness:
  "\<exists>h'. header_update (cookie_header [''a=2'']) (cookie_header [''a=1'', ''b=1'']) = (Inr (), h') \<and> hasNamed ''set-cookie'' h' = Inr (Some ''a=2'')"
proof -
  have ok: "list_all text_ok [''a=1'', ''b=1'']" "list_all text_ok [''a=2'']" by (simp_all add: text_ok_def String_SizeMax_def)
  have low: "map xtolower ''set-cookie'' = map xtolower ''Set-Cookie''" by code_simp
  then have "hasNamed ''set-cookie'' (cookie_header [''a=2'']) = Inr (Some ''a=2'')"
    unfolding hasNamed_fields [OF cookie_header_fields(1) [OF ok(2)]] named_value_same [OF low] cookie_header_fields(2) [OF ok(2)]
    by (simp add: named_value_def registered_entry_def cookie_record)
  moreover have "list_ex (named ''set-cookie'') (fresh_fields (header_fields (cookie_header [''a=2''])))"
    using low by (simp add: cookie_header_fields [OF ok(2)] fresh_fields_def skipUpdateHeader_def registered_entry_def cookie_record)
  ultimately show ?thesis
    using update_settles [OF cookie_header_fields(1) [OF ok(1)] cookie_header_fields(1) [OF ok(2)]] by auto
qed


section \<open>Lengths out of step\<close>


text \<open>The copy constructor starts from the length of the original and adds the length of every entry it copies.\<close>

lemma delete_fresh_empty:
  "hh_entries h = [] \<Longrightarrow> hh_mask h = {} \<Longrightarrow> list_all entry_ok es \<Longrightarrow> delete_fresh es h = (Inr (), h)"
proof (induction es)
  case (Cons e es)
  then have "delById (he_id e) h = (Inr 0, h)" if "he_id e \<noteq> OTHER" using that entry_registered [of e]
    by (simp add: delById_def then_do_def assert_do_def)
  moreover have "delByName (he_name e) h = (Inr 0, h)" using Cons.prems by (simp add: delByName_def for_entries_def)
  ultimately show ?case using Cons by (auto simp: then_do_def)
qed simp

lemma add_clones_length:
  "list_all entry_ok es \<Longrightarrow>
    \<exists>h'. add_clones es h = (Inr (), h') \<and> header_fields h' = header_fields h @ es \<and> hh_len h' = hh_len h + fields_length es"
proof (induction es arbitrary: h)
  case (Cons e es)
  have "any_HdrType_enum_value (he_id e)" "he_name e \<noteq> []"
    using Cons.prems by (auto simp: entry_ok_def any_valid_header_def any_HdrType_enum_value_def)
  then obtain h1 where h1: "addEntry e h = (Inr (), h1)" "header_fields h1 = header_fields h @ [e]" "hh_len h1 = hh_len h + int (entry_length e)"
    by (simp add: addEntry_def then_do_def assert_do_def header_fields_def)
  then show ?case using Cons.IH [of h1] Cons.prems by (auto simp: then_do_def entry_clone_same)
qed simp

lemma header_copy_length:
  assumes "header_ok other"
  shows "\<exists>h. header_copy other = (Inr (), h) \<and> header_fields h = fresh_fields (header_fields other) \<and>
    hh_len h = hh_len other + fields_length (fresh_fields (header_fields other))"
proof -
  let ?h = "(header_new (hh_owner other))\<lparr>hh_len := hh_len other\<rparr>"
  note ok = header_ok_fields [OF assms]
  have "list_all entry_ok (fresh_fields (header_fields other))" using ok by (auto simp: list_all_iff fresh_fields_def)
  then show ?thesis using delete_fresh_empty [of ?h, OF _ _ ok] add_clones_length [of "fresh_fields (header_fields other)" ?h]
    by (auto simp: header_copy_def header_update_def then_do_def header_new_def fresh_fields_def header_fields_def)
qed

end
