(* ===== verification/Header_Parse.thy ===== *)
theory Header_Parse
  imports Header_Fields Mime_Header
begin

text \<open>
  Parsing a header block: \<^verbatim>\<open>HttpHeaderEntry::parse()\<close>, \<^verbatim>\<open>HttpHeader::Isolate()\<close> and both forms of \<^verbatim>\<open>HttpHeader::parse()\<close> of
  \<^verbatim>\<open>HttpHeader.cc\<close>, with what they decide about the framing of the message. The lemmas separate reading the fields, which does not
  depend on the state, from keeping them.
\<close>

section \<open>One field\<close>

text \<open>The length of the field name without the white space before the colon, if it may be there.\<close>

definition name_length :: "http_config \<Rightarrow> bytes \<Rightarrow> http_hdr_owner_type \<Rightarrow> nat \<Rightarrow> nat option" where
  "name_length cfg field msgType name_len =
     (if xisspace (field ! (name_len - 1)) then
        (if msgType = hoRequest then None
         else if \<not> (msgType = hoReply \<or> relaxed cfg) then None
         else (let n = rtrim_len field name_len in if n = 0 then None else Some n))
      else Some name_len)"

definition parsed_id :: "bytes \<Rightarrow> HdrType" where
  "parsed_id name = (let hid = hr_id (lookup_name name) in if hid = BAD_HDR then OTHER else hid)"

definition trimmed_value :: "bytes \<Rightarrow> bytes" where
  "trimmed_value value_start = (let start = dropWhile xisspace value_start in take (rtrim_len start (length start)) start)"

definition HttpHeaderEntry_parse :: "http_config \<Rightarrow> bytes \<Rightarrow> http_hdr_owner_type \<Rightarrow> exn + header_entry option" where
  "HttpHeaderEntry_parse cfg field msgType =
     (let name_len = (if CHR '':'' \<in> set field then length (takeWhile (\<lambda>c. c \<noteq> CHR '':'') field) else 0);
          value_start = drop (name_len + 1) field
      in if name_len = 0 then Inr None
         else if name_len > 65534 then Inr None
         else case name_length cfg field msgType name_len of
           None \<Rightarrow> Inr None
         | Some name_len \<Rightarrow>
             (let name = take name_len field
              in if \<not> list_all (cs_index cs_TCHAR) name then Inr None
                 else let hid = parsed_id name;
                          theName = (if hid = OTHER then name else hr_name (lookup_id hid));
                          val = trimmed_value value_start
                      in if length val > 65534 then Inr None
                         else case HttpHeaderEntry hid theName val of Inl x \<Rightarrow> Inl x | Inr e \<Rightarrow> Inr (Some e)))"

section \<open>Lines of a field\<close>

text \<open>
  The lines of the field that starts after the bytes already read: the field without its last line end, the number of lines, whether a line had
  a stray CR, and the bytes after the field. Nothing if a line is rejected. The relaxed parser overwrites stray CRs with spaces.
\<close>

function field_lines :: "http_config \<Rightarrow> http_hdr_owner_type \<Rightarrow> bytes \<Rightarrow> nat \<Rightarrow> bool \<Rightarrow> bytes \<Rightarrow> (bytes \<times> nat \<times> bool \<times> bytes) option" where
  "field_lines cfg owner before lines hasBareCr field_ptr =
     (case dropWhile (\<lambda>c. c \<noteq> LF) field_ptr of
        [] \<Rightarrow> None
      | lf # rest \<Rightarrow>
          (let line = takeWhile (\<lambda>c. c \<noteq> LF) field_ptr;
               cr = (line \<noteq> [] \<and> last line = CR);
               this_line = (if cr then butlast line else line);
               stray = (CR \<in> set this_line);
               cleaned = map (\<lambda>c. if c = CR then SP else c) this_line
           in if cr \<and> owner = hoRequest \<and> this_line \<noteq> [] \<and> list_all (\<lambda>c. c = CR) this_line then None
              else if stray \<and> \<not> relaxed cfg then None
              else if length this_line = 1 \<and> before \<noteq> [] then None
              else if rest \<noteq> [] \<and> (hd rest = SP \<or> hd rest = HTAB)
              then field_lines cfg owner (before @ cleaned @ (if cr then [CR] else []) @ [lf]) (Suc lines) (hasBareCr \<or> stray) rest
              else Some (before @ cleaned, Suc lines, hasBareCr \<or> stray, rest)))"
  by pat_completeness auto
termination
proof (relation "measure (\<lambda>(_, _, _, _, _, p). length p)", goal_cases)
  case (2 cfg owner before lines hasBareCr field_ptr lf rest)
  then have "length (lf # rest) \<le> length field_ptr" by (metis length_dropWhile_le)
  then show ?case by simp
qed simp

declare field_lines.simps [simp del]

lemma field_lines_shorter:
  "field_lines cfg owner before lines bare field_ptr = Some (field, n, b, rest) \<Longrightarrow> length rest < length field_ptr"
proof (induction cfg owner before lines bare field_ptr rule: field_lines.induct)
  case (1 cfg owner before lines bare field_ptr)
  show ?case
  proof (cases "dropWhile (\<lambda>c. c \<noteq> LF) field_ptr")
    case (Cons lf r)
    then have "length (lf # r) \<le> length field_ptr" by (metis length_dropWhile_le)
    then show ?thesis using 1(2) 1(1) [OF Cons refl refl refl refl refl]
      unfolding field_lines.simps [of cfg owner before lines bare field_ptr] Cons by (auto simp: Let_def split: if_splits)
  next
    case Nil
    then show ?thesis using 1(2) unfolding field_lines.simps [of cfg owner before lines bare field_ptr] Nil by simp
  qed
qed

section \<open>The block\<close>

text \<open>The state of the parser is the header and the interpreter of its Content-Length fields.\<close>

type_synonym 'a parse_op = "('a, http_header \<times> length_interpreter) throwing"

definition on_header :: "'a header_op \<Rightarrow> 'a parse_op" where
  "on_header f = (\<lambda>(h, c). case f h of (r, h1) \<Rightarrow> (r, h1, c))"

definition on_length :: "('a, length_interpreter) throwing \<Rightarrow> 'a parse_op" where
  "on_length f = (\<lambda>(h, c). case f c of (r, c1) \<Rightarrow> (r, h, c1))"

definition parse_failed :: "bool parse_op" where
  "parse_failed = then_do (on_header header_clean) (\<lambda>_ s. (Inr False, s))"

definition framing_header :: "header_entry \<Rightarrow> bool" where
  "framing_header e \<longleftrightarrow> he_id e = CONTENT_LENGTH \<or> he_id e = TRANSFER_ENCODING"

text \<open>Whether a field is to be kept.\<close>

definition check_entry :: "http_config \<Rightarrow> header_entry \<Rightarrow> bool parse_op" where
  "check_entry cfg e = (if he_id e = CONTENT_LENGTH then on_length (checkField cfg (he_value e)) else (\<lambda>s1. (Inr True, s1)))"

function parse_fields :: "http_config \<Rightarrow> bytes \<Rightarrow> bool parse_op" where
  "parse_fields cfg field_ptr s =
     (if field_ptr = [] then (Inr True, s)
      else case field_lines cfg (hh_owner (fst s)) [] 0 False field_ptr of
        None \<Rightarrow> parse_failed s
      | Some (field, lines, hasBareCr, rest) \<Rightarrow>
          if field = [] then (if rest \<noteq> [] then parse_failed s else (Inr True, s))
          else (case HttpHeaderEntry_parse cfg field (hh_owner (fst s)) of
            Inl x \<Rightarrow> (Inl x, s)
          | Inr None \<Rightarrow> parse_failed s
          | Inr (Some e) \<Rightarrow>
              if (lines > 1 \<or> hasBareCr) \<and> framing_header e then parse_failed s
              else then_do (check_entry cfg e) (\<lambda>ok s1.
                if \<not> ok then (if relaxed cfg then parse_fields cfg rest s1 else parse_failed s1)
                else then_do (on_header (addEntry e)) (\<lambda>_ s2. parse_fields cfg rest s2) s1) s))"
  by pat_completeness auto
termination
  by (relation "measure (\<lambda>(_, p, _). length p)") (auto dest: field_lines_shorter)

declare parse_fields.simps [simp del]

text \<open>Equality with a literal in any letter case.\<close>

definition String_caseEq :: "bytes \<Rightarrow> bytes \<Rightarrow> bool" where
  "String_caseEq s t \<longleftrightarrow> (if s = [] \<or> t = [] then s = [] \<and> t = [] else map xtolower (cstr s) = map xtolower (cstr t))"

text \<open>What the fields together say about the framing.\<close>

definition parse_framing :: "length_interpreter \<Rightarrow> unit header_op" where
  "parse_framing clen h =
     (if cl_prohibitedAndIgnored clen \<noteq> None then
        then_do (delById CONTENT_LENGTH) (\<lambda>_. then_do (delById TRANSFER_ENCODING) (\<lambda>_ h1. (Inr (), h1))) h
      else case getByIdIfPresent TRANSFER_ENCODING h of
        Inl x \<Rightarrow> (Inl x, h)
      | Inr (Some rawTe) \<Rightarrow>
          then_do (delById CONTENT_LENGTH) (\<lambda>_ h1.
            if String_caseEq rawTe ''chunked'' then (Inr (), h1)
            else if String_caseEq rawTe ''identity'' then then_do (delById TRANSFER_ENCODING) (\<lambda>_ h2. (Inr (), h2)) h1
            else (Inr (), h1\<lparr>hh_teUnsupported := True\<rparr>)) h
      | Inr None \<Rightarrow>
          if cl_sawBad clen then then_do (delById CONTENT_LENGTH) (\<lambda>_ h1. (Inr (), h1\<lparr>hh_conflictingContentLength := True\<rparr>)) h
          else if cl_needsSanitizing clen then
            then_do (delById CONTENT_LENGTH) (\<lambda>_.
              if cl_sawGood clen then putInt64 CONTENT_LENGTH (cl_value clen) else (\<lambda>h1. (Inr (), h1))) h
          else (Inr (), h))"

definition header_parse :: "http_config \<Rightarrow> bytes \<Rightarrow> bool parse_op" where
  "header_parse cfg header s =
     (if CHR 0x00 \<in> set header then parse_failed s
      else then_do (parse_fields cfg header) (\<lambda>ok s1.
        if ok then then_do (on_header (parse_framing (snd s1))) (\<lambda>_ s2. (Inr True, s2)) s1 else (Inr False, s1)) s)"

section \<open>A block within a buffer\<close>

text \<open>The block without its terminating empty line, and its size with that line.\<close>

definition header_Isolate :: "bytes \<Rightarrow> exn + (bytes \<times> nat) option" where
  "header_Isolate buf =
     (let e = fst (headersEnd buf)
      in if e = 0 then Inr None
         else if buf ! (e - 1) \<noteq> LF then Inl (AssertFailure ''**blk_end == LF'')
         else Inr (Some (take (if e > 1 \<and> buf ! (e - 2) = CR then e - 2 else e - 1) buf, e)))"

text \<open>The result and the size of the header. The buffer is followed by a terminator, which ends a block that is not isolated.\<close>

definition header_parse_buffer :: "http_config \<Rightarrow> bytes \<Rightarrow> nat \<Rightarrow> bool \<Rightarrow> (int \<times> nat) parse_op" where
  "header_parse_buffer cfg buf buf_len atEnd s =
     (case header_Isolate (take buf_len buf) of
        Inl x \<Rightarrow> (Inl x, s)
      | Inr None \<Rightarrow>
          if \<not> atEnd then (Inr (0, 0), s)
          else then_do (header_parse cfg (cstr buf)) (\<lambda>ok s1. (Inr (if ok then (1, 0) else (- 1, 0)), s1)) s
      | Inr (Some (blk, hdr_sz)) \<Rightarrow>
          then_do (header_parse cfg blk) (\<lambda>ok s1. (Inr (if ok then (1, hdr_sz) else (- 1, 0)), s1)) s)"

section \<open>Reading the fields\<close>

text \<open>The fields of a block before any of them is dropped, or nothing if one is rejected.\<close>

function raw_fields :: "http_config \<Rightarrow> http_hdr_owner_type \<Rightarrow> bytes \<Rightarrow> header_entry list option" where
  "raw_fields cfg owner field_ptr =
     (if field_ptr = [] then Some []
      else case field_lines cfg owner [] 0 False field_ptr of
        None \<Rightarrow> None
      | Some (field, lines, hasBareCr, rest) \<Rightarrow>
          if field = [] then (if rest \<noteq> [] then None else Some [])
          else (case HttpHeaderEntry_parse cfg field owner of
            Inr (Some e) \<Rightarrow>
              if (lines > 1 \<or> hasBareCr) \<and> framing_header e then None else map_option (Cons e) (raw_fields cfg owner rest)
          | _ \<Rightarrow> None))"
  by pat_completeness auto
termination
  by (relation "measure (\<lambda>(_, _, p). length p)") (auto dest: field_lines_shorter)

declare raw_fields.simps [simp del]

text \<open>Keeping the fields that were read.\<close>

primrec keep_fields :: "http_config \<Rightarrow> header_entry list \<Rightarrow> bool parse_op" where
  "keep_fields cfg [] s = (Inr True, s)"
| "keep_fields cfg (e # es) s =
     then_do (check_entry cfg e) (\<lambda>ok s1.
       if \<not> ok then (if relaxed cfg then keep_fields cfg es s1 else parse_failed s1)
       else then_do (on_header (addEntry e)) (\<lambda>_. keep_fields cfg es) s1) s"

lemma parse_failed_owner: "hh_owner (fst (snd (parse_failed s))) = hh_owner (fst s)" "fst (parse_failed s) \<noteq> Inr True"
  by (cases s; simp add: parse_failed_def then_do_def on_header_def header_clean_def assert_do_def)+

lemma addEntry_owner: "hh_owner (snd (addEntry e h)) = hh_owner h"
  by (simp add: addEntry_def then_do_def assert_do_def)

lemma check_entry_header: "check_entry cfg e s = (r, s1) \<Longrightarrow> fst s1 = fst s"
  by (auto simp: check_entry_def on_length_def split: if_splits prod.splits)

lemma parse_fields_raw:
  "case raw_fields cfg (hh_owner (fst s)) field_ptr of
     Some es \<Rightarrow> parse_fields cfg field_ptr s = keep_fields cfg es s
   | None \<Rightarrow> fst (parse_fields cfg field_ptr s) \<noteq> Inr True"
proof (induction "length field_ptr" arbitrary: field_ptr s rule: less_induct)
  case less
  let ?o = "hh_owner (fst s)"
  note simps = raw_fields.simps [of cfg ?o field_ptr] parse_fields.simps [of cfg field_ptr s]
  consider "field_ptr = []" | "field_ptr \<noteq> []" "field_lines cfg ?o [] 0 False field_ptr = None"
    | rest lines bare where "field_ptr \<noteq> []" "field_lines cfg ?o [] 0 False field_ptr = Some ([], lines, bare, rest)"
    | field rest lines bare where "field_ptr \<noteq> []" "field \<noteq> []" "field_lines cfg ?o [] 0 False field_ptr = Some (field, lines, bare, rest)"
    by (metis option.exhaust prod_cases4)
  then show ?case
  proof cases
    case 4
    note here = 4
    show ?thesis
    proof (cases "\<exists>e. HttpHeaderEntry_parse cfg field ?o = Inr (Some e) \<and> \<not> ((lines > 1 \<or> bare) \<and> framing_header e)")
      case False
      then show ?thesis unfolding simps using here by (auto simp: parse_failed_owner split: sum.splits option.splits)
    next
      case True
      then obtain e where e: "HttpHeaderEntry_parse cfg field ?o = Inr (Some e)" "\<not> ((lines > 1 \<or> bare) \<and> framing_header e)" by blast
      have raw: "raw_fields cfg ?o field_ptr = map_option (Cons e) (raw_fields cfg ?o rest)" unfolding simps using here e by auto
      have parse: "parse_fields cfg field_ptr s = then_do (check_entry cfg e) (\<lambda>ok s1.
          if \<not> ok then (if relaxed cfg then parse_fields cfg rest s1 else parse_failed s1)
          else then_do (on_header (addEntry e)) (\<lambda>_ s2. parse_fields cfg rest s2) s1) s"
        unfolding simps using here e by auto
      have keep: "keep_fields cfg (e # es) s = then_do (check_entry cfg e) (\<lambda>ok s1.
          if \<not> ok then (if relaxed cfg then keep_fields cfg es s1 else parse_failed s1)
          else then_do (on_header (addEntry e)) (\<lambda>_. keep_fields cfg es) s1) s" for es by simp
      have IH: "case raw_fields cfg ?o rest of Some es \<Rightarrow> parse_fields cfg rest s1 = keep_fields cfg es s1
          | None \<Rightarrow> fst (parse_fields cfg rest s1) \<noteq> Inr True" if "hh_owner (fst s1) = ?o" for s1
        using less [OF field_lines_shorter [OF here(3)], of s1] that by simp
      obtain r s1 where s1: "check_entry cfg e s = (r, s1)" by (cases "check_entry cfg e s") auto
      obtain r2 s2 where s2: "on_header (addEntry e) s1 = (r2, s2)" by (cases "on_header (addEntry e) s1") auto
      have o: "hh_owner (fst s1) = ?o" "hh_owner (fst s2) = ?o"
        using check_entry_header [OF s1] s2 addEntry_owner [of e "fst s1"] by (auto simp: on_header_def split: prod.splits)
      show ?thesis using IH [OF o(1)] IH [OF o(2)] s2
        by (auto simp: raw parse keep then_do_def s1 parse_failed_owner simp del: keep_fields.simps split: option.splits sum.splits if_splits)
    qed
  qed (unfold simps, auto simp: parse_failed_owner)
qed

end
