(* ===== verification/Header_Framing.thy ===== *)
theory Header_Framing
  imports Header_Parse
begin

text \<open>
  The lemmas on parsing a header block: which bytes the fields have, what the Content-Length fields do to their interpreter, which fields are
  kept, and what is left of the framing fields at the end.
\<close>

section \<open>The fields that are read\<close>

abbreviation no_cr :: "bytes \<Rightarrow> bytes" where
  "no_cr line \<equiv> map (\<lambda>c. if c = CR then SP else c) line"

text \<open>One line of a field, its end, and what follows: the field ends there, or it goes on.\<close>

lemma field_lines_step:
  assumes "field_lines cfg owner before lines bare field_ptr = Some res"
  obtains line eol r where "field_ptr = line @ eol @ r" "eol = [LF] \<or> eol = [CR, LF]"
    "res = (before @ no_cr line, Suc lines, bare \<or> CR \<in> set line, r) \<or>
     field_lines cfg owner (before @ no_cr line @ eol) (Suc lines) (bare \<or> CR \<in> set line) r = Some res"
proof (cases "dropWhile (\<lambda>c. c \<noteq> LF) field_ptr")
  case (Cons lf r)
  let ?line = "takeWhile (\<lambda>c. c \<noteq> LF) field_ptr"
  have lf: "lf = LF" using Cons hd_dropWhile [of "\<lambda>c. c \<noteq> LF" field_ptr] by simp
  have parts: "field_ptr = ?line @ LF # r" using Cons lf takeWhile_dropWhile_id [of "\<lambda>c. c \<noteq> LF" field_ptr] by simp
  note unfolded = assms [unfolded field_lines.simps [of cfg owner before lines bare field_ptr] Cons]
  show thesis
  proof (cases "?line \<noteq> [] \<and> last ?line = CR")
    case True
    then have "field_ptr = butlast ?line @ [CR, LF] @ r" using parts append_butlast_last_id [of ?line] by (metis append_Cons append_Nil append_assoc)
    then show thesis using unfolded True lf by (intro that [of "butlast ?line" "[CR, LF]" r]) (auto simp: Let_def split: if_splits)
  next
    case False
    then show thesis using unfolded lf parts by (intro that [of ?line "[LF]" r]) (auto simp: Let_def split: if_splits)
  qed
next
  case Nil
  then show thesis using assms unfolding field_lines.simps [of cfg owner before lines bare field_ptr] Nil by simp
qed

lemma field_lines_bytes:
  "field_lines cfg owner before lines bare field_ptr = Some (field, n, b, rest) \<Longrightarrow>
    set field \<subseteq> set before \<union> set field_ptr \<union> {SP} \<and> set rest \<subseteq> set field_ptr \<and> length field + length rest < length before + length field_ptr"
proof (induction "length field_ptr" arbitrary: before lines bare field_ptr rule: less_induct)
  case less
  from less(2) obtain line eol r where 1: "field_ptr = line @ eol @ r" "eol = [LF] \<or> eol = [CR, LF]"
    and 2: "(field, n, b, rest) = (before @ no_cr line, Suc lines, bare \<or> CR \<in> set line, r) \<or>
     field_lines cfg owner (before @ no_cr line @ eol) (Suc lines) (bare \<or> CR \<in> set line) r = Some (field, n, b, rest)"
    by (rule field_lines_step)
  have "set (no_cr line) \<subseteq> set line \<union> {SP}" by auto
  moreover have "length r < length field_ptr" "set field_ptr = set line \<union> set eol \<union> set r" "length field_ptr = length line + length eol + length r" "0 < length eol"
    using 1 by auto
  ultimately show ?case using 2 less(1) [of r "before @ no_cr line @ eol" "Suc lines" "bare \<or> CR \<in> set line"] by auto
qed

lemma trimmed_strip: "trimmed_value v = strip v"
  by (simp add: trimmed_value_def Let_def strip_def take_rtrim_len)

lemma strip_bytes: "set (strip v) \<subseteq> set v" "length (strip v) \<le> length v"
proof -
  show "set (strip v) \<subseteq> set v" by (auto simp: strip_def rtrim_def dest!: set_dropWhileD)
  show "length (strip v) \<le> length v" using rtrim_length [of "dropWhile xisspace v"] length_dropWhile_le [of xisspace v] by (simp add: strip_def)
qed

lemma name_length_le: "name_length cfg field owner n = Some k \<Longrightarrow> 0 < n \<Longrightarrow> 0 < k \<and> k \<le> n"
  using rtrim_len_le [of field n] by (auto simp: name_length_def Let_def split: if_splits)

lemma parsed_parts:
  assumes "HttpHeaderEntry_parse cfg field owner = Inr (Some e)"
  obtains n k where "CHR '':'' \<in> set field" "n = length (takeWhile (\<lambda>c. c \<noteq> CHR '':'') field)" "0 < n" "n \<le> 65534"
    "name_length cfg field owner n = Some k" "list_all (cs_index cs_TCHAR) (take k field)" "length (strip (drop (n + 1) field)) \<le> 65534"
    "HttpHeaderEntry (parsed_id (take k field)) (if parsed_id (take k field) = OTHER then take k field else hr_name (lookup_id (parsed_id (take k field))))
       (strip (drop (n + 1) field)) = Inr e"
  using assms unfolding HttpHeaderEntry_parse_def Let_def trimmed_strip by (auto split: if_splits option.splits sum.splits)

lemma parsed_id_cases:
  obtains "parsed_id name = OTHER" "hr_id (lookup_name name) = BAD_HDR" | "any_registered_header (parsed_id name)" "parsed_id name \<noteq> OTHER"
    "lookup_name name = lookup_id (parsed_id name)"
  by (cases rule: lookup_name_cases [of name]) (auto simp: parsed_id_def Let_def any_registered_header_def)

text \<open>The values that are read fit a string, so the constructor of the entry passes its assertions.\<close>

lemma parsed_entry_made:
  assumes "length v \<le> 65534" "CHR 0x00 \<notin> set v"
  shows "HttpHeaderEntry (parsed_id name) (if parsed_id name = OTHER then name else hr_name (lookup_id (parsed_id name))) v =
    Inr (if parsed_id name = OTHER then other_entry name v else registered_entry (parsed_id name) v)"
  using assms by (cases rule: parsed_id_cases [of name])
    (simp_all add: HttpHeaderEntry_def other_entry_def registered_entry_def any_registered_header_def any_HdrType_enum_value_def String_SizeMax_def cstr_id)

lemma parsed_entry_total: "CHR 0x00 \<notin> set field \<Longrightarrow> \<exists>r. HttpHeaderEntry_parse cfg field owner = Inr r"
proof -
  assume null: "CHR 0x00 \<notin> set field"
  have no_null: "CHR 0x00 \<notin> set (strip (drop n field))" for n
    using null strip_bytes(1) [of "drop n field"] set_drop_subset [of n field] by blast
  have made: "parsed_id name = OTHER \<Longrightarrow> HttpHeaderEntry OTHER name (strip (drop n field)) = Inr (other_entry name (strip (drop n field)))"
    "parsed_id name \<noteq> OTHER \<Longrightarrow> HttpHeaderEntry (parsed_id name) (hr_name (lookup_id (parsed_id name))) (strip (drop n field)) =
      Inr (registered_entry (parsed_id name) (strip (drop n field)))"
    if "\<not> length (strip (drop n field)) > 65534" for name n
    using parsed_entry_made [of "strip (drop n field)" name] no_null that by simp_all
  show ?thesis unfolding HttpHeaderEntry_parse_def Let_def trimmed_strip by (simp add: made split: option.split)
qed

lemma parsed_entry:
  assumes "HttpHeaderEntry_parse cfg field owner = Inr (Some e)" "CHR 0x00 \<notin> set field"
  shows "entry_ok e" "set (he_value e) \<subseteq> set field" "length (he_value e) + 2 \<le> length field"
proof -
  from assms(1) obtain n k where p: "CHR '':'' \<in> set field" "n = length (takeWhile (\<lambda>c. c \<noteq> CHR '':'') field)" "0 < n" "n \<le> 65534"
    "name_length cfg field owner n = Some k" "list_all (cs_index cs_TCHAR) (take k field)" "length (strip (drop (n + 1) field)) \<le> 65534"
    "HttpHeaderEntry (parsed_id (take k field)) (if parsed_id (take k field) = OTHER then take k field else hr_name (lookup_id (parsed_id (take k field))))
       (strip (drop (n + 1) field)) = Inr e" by (rule parsed_parts)
  let ?v = "strip (drop (n + 1) field)" let ?name = "take k field"
  have "n < length field" using p(1,2) length_takeWhile_less [of "CHR '':''" field "\<lambda>c. c \<noteq> CHR '':''"] by simp
  then have "length (drop (n + 1) field) + 2 \<le> length field" using p(3) by simp
  then have v: "set ?v \<subseteq> set field" "length ?v + 2 \<le> length field"
    using strip_bytes [of "drop (n + 1) field"] set_drop_subset [of "n + 1" field] by auto
  have null: "CHR 0x00 \<notin> set ?v" using v(1) assms(2) by blast
  have e: "e = (if parsed_id ?name = OTHER then other_entry ?name ?v else registered_entry (parsed_id ?name) ?v)"
    using parsed_entry_made [OF p(7) null, of ?name] p(8) by simp
  show "set (he_value e) \<subseteq> set field" "length (he_value e) + 2 \<le> length field" using v by (simp_all add: e other_entry_def registered_entry_def)
  have "0 < k" "k \<le> n" using name_length_le [OF p(5,3)] by auto
  moreover have "CHR 0x00 \<notin> set ?name" using assms(2) by (auto dest: in_set_takeD)
  ultimately have "parsed_id ?name = OTHER \<Longrightarrow> hr_id (lookup_name ?name) = BAD_HDR \<Longrightarrow> entry_ok (other_entry ?name ?v)"
    using p(1,4,7) null by (auto simp: entry_ok_def other_entry_def any_valid_header_def sb_ok_def maxSize_def String_SizeMax_def)
  moreover have "any_registered_header (parsed_id ?name) \<Longrightarrow> entry_ok (registered_entry (parsed_id ?name) ?v)"
    using p(7) null by (intro registered_entry_ok) (simp_all add: text_ok_def String_SizeMax_def)
  ultimately show "entry_ok e" unfolding e by (cases rule: parsed_id_cases [of ?name]) auto
qed

lemma raw_fields_bytes:
  "raw_fields cfg owner field_ptr = Some es \<Longrightarrow> CHR 0x00 \<notin> set field_ptr \<Longrightarrow>
    (\<forall>e\<in>set es. entry_ok e \<and> set (he_value e) \<subseteq> set field_ptr \<union> {SP}) \<and> sum_list (map (\<lambda>e. length (he_value e) + 2) es) \<le> length field_ptr"
proof (induction "length field_ptr" arbitrary: field_ptr es rule: less_induct)
  case less
  show ?case
  proof (cases "field_ptr = [] \<or> es = []")
    case True
    then show ?thesis using less(2) by (auto simp: raw_fields.simps)
  next
    case False
    then obtain field lines bare rest e es' where here: "field_lines cfg owner [] 0 False field_ptr = Some (field, lines, bare, rest)"
      "HttpHeaderEntry_parse cfg field owner = Inr (Some e)" "raw_fields cfg owner rest = Some es'" "es = e # es'"
      using less(2) unfolding raw_fields.simps [of cfg owner field_ptr]
      by (auto split: option.splits if_splits sum.splits)
    note b = field_lines_bytes [OF here(1)]
    have "CHR 0x00 \<notin> set field" "CHR 0x00 \<notin> set rest" using b less(3) by auto
    then show ?thesis using b parsed_entry [OF here(2)] less(1) [OF field_lines_shorter [OF here(1)] here(3)] unfolding here(4) by fastforce
  qed
qed

section \<open>The interpreter during a parse\<close>

text \<open>What a Content-Length field does to the interpreter, without exceptions.\<close>

lemma checkField_cases:
  assumes "CHR 0x00 \<notin> set f"
  shows "checkField cfg f c =
    (if cl_sawBad c then (Inr False, c)
     else if CHR '','' \<in> set f then
       (Inr False, if relaxed cfg then note_all cfg (visited (CHR '','') f) (c\<lparr>cl_needsSanitizing := True\<rparr>) else c\<lparr>cl_sawBad := True\<rparr>)
     else (Inr (length_value cfg f \<noteq> None \<and> \<not> cl_sawGood c), length_note cfg f c))"
  using checkValue_note [of "[]" c cfg f] checkList_note [of c cfg f] cstr_id [OF assms]
  by (auto simp: checkField_def checkList_def then_do_def must_do_def must_def)

definition length_sane :: "length_interpreter \<Rightarrow> bool" where
  "length_sane c \<longleftrightarrow> (cl_sawGood c \<longrightarrow> 0 \<le> cl_value c \<and> cl_value c \<le> LLONG_MAX)"

lemma length_value_range: "length_value cfg m = Some v \<Longrightarrow> 0 \<le> v \<and> v \<le> LLONG_MAX"
  by (auto simp: length_value_def Let_def split: if_splits)

lemma length_note_sane: "length_sane c \<Longrightarrow> length_sane (length_note cfg m c)"
  using length_value_range [of cfg m] by (auto simp: length_note_def length_sane_def split: option.split)

lemma note_all_sane: "length_sane c \<Longrightarrow> length_sane (note_all cfg ms c)"
  by (induction ms arbitrary: c) (simp_all add: Let_def length_note_sane)

lemma length_note_prohibited: "cl_prohibitedAndIgnored (length_note cfg m c) = cl_prohibitedAndIgnored c"
  by (simp add: length_note_def split: option.split)

lemma note_all_prohibited: "cl_prohibitedAndIgnored (note_all cfg ms c) = cl_prohibitedAndIgnored c"
  by (induction ms arbitrary: c) (simp_all add: Let_def length_note_prohibited)

lemma checkField_total:
  assumes "CHR 0x00 \<notin> set f"
  obtains ok c' where "checkField cfg f c = (Inr ok, c')" "length_sane c \<Longrightarrow> length_sane c'" "cl_prohibitedAndIgnored c' = cl_prohibitedAndIgnored c"
proof -
  have "length_sane (c\<lparr>cl_needsSanitizing := True\<rparr>) = length_sane c" "length_sane (c\<lparr>cl_sawBad := True\<rparr>) = length_sane c" by (simp_all add: length_sane_def)
  then have "length_sane c \<Longrightarrow> length_sane (snd (checkField cfg f c))" "cl_prohibitedAndIgnored (snd (checkField cfg f c)) = cl_prohibitedAndIgnored c"
    "\<not> isl (fst (checkField cfg f c))"
    using note_all_sane [of "c\<lparr>cl_needsSanitizing := True\<rparr>"] by (simp_all add: checkField_cases [OF assms] length_note_sane length_note_prohibited note_all_prohibited)
  then show thesis using that by (metis prod.collapse sum.collapse(2))
qed

text \<open>A field that is to be kept is the first good one, and a single number.\<close>

lemma checkField_kept:
  assumes "CHR 0x00 \<notin> set f" "checkField cfg f c = (Inr True, c')"
  shows "\<not> cl_sawBad c" "\<not> cl_sawGood c" "length_members f = [f]" "cl_sawGood c'" "\<not> cl_sawBad c'"
    "length_value cfg f = Some (cl_value c')" "cl_needsSanitizing c' = cl_needsSanitizing c"
  using assms(2) unfolding checkField_cases [OF assms(1)] by (auto simp: length_members_def length_note_def split: if_splits)

lemma length_note_value: "cl_sawGood c \<Longrightarrow> cl_sawGood (length_note cfg m c) \<and> cl_value (length_note cfg m c) = cl_value c"
  by (simp add: length_note_def split: option.split)

lemma note_all_value: "cl_sawGood c \<Longrightarrow> cl_sawGood (note_all cfg ms c) \<and> cl_value (note_all cfg ms c) = cl_value c"
proof (induction ms arbitrary: c)
  case (Cons m ms)
  then show ?case using length_note_value [OF Cons.prems, of cfg m] by (simp add: Let_def)
qed simp

lemma checkField_dropped:
  assumes "CHR 0x00 \<notin> set f" "checkField cfg f c = (Inr False, c')" "\<not> cl_sawBad c'"
  shows "\<not> cl_sawBad c" "cl_needsSanitizing c'" "cl_sawGood c \<Longrightarrow> cl_sawGood c' \<and> cl_value c' = cl_value c"
  using assms(2,3) note_all_sanitizing [of "c\<lparr>cl_needsSanitizing := True\<rparr>" cfg "visited (CHR '','') f"]
    note_all_value [of "c\<lparr>cl_needsSanitizing := True\<rparr>" cfg "visited (CHR '','') f"]
  unfolding checkField_cases [OF assms(1)] by (auto simp: length_note_def split: if_splits option.splits)

lemma agrees_step:
  assumes "agrees cfg ms c0 c" "checkField cfg f c = (Inr ok, c')" "relaxed cfg \<or> ok" "field_ok f"
  shows "agrees cfg (ms @ length_members f) c0 c'"
proof (cases "cl_sawBad c")
  case True
  then have "c' = c" using assms(2) by (simp add: checkField_def)
  then show ?thesis using assms(1) True by (auto simp: agrees_def)
next
  case False
  have null: "CHR 0x00 \<notin> set f" using assms(4) by (simp add: field_ok_def)
  have "agrees cfg (length_members f) c c'"
  proof (cases ok)
    case True
    then show ?thesis using checkField_kept [OF null] assms(2) by (simp add: agrees_def)
  next
    case no: False
    then show ?thesis using checkField_agrees [OF _ _ null False, of cfg] assms by (auto simp: field_ok_def)
  qed
  then show ?thesis by (rule agrees_append [OF assms(1) False])
qed

section \<open>Keeping the fields\<close>

abbreviation lengths_of :: "header_entry list \<Rightarrow> header_entry list" where
  "lengths_of es \<equiv> filter (\<lambda>e. he_id e = CONTENT_LENGTH) es"

abbreviation others_of :: "header_entry list \<Rightarrow> header_entry list" where
  "others_of es \<equiv> filter (\<lambda>e. he_id e \<noteq> CONTENT_LENGTH) es"

text \<open>The Content-Length field that was kept says what the interpreter found, and there is one unless the fields need sanitizing.\<close>

definition kept_length :: "http_config \<Rightarrow> header_entry list \<Rightarrow> length_interpreter \<Rightarrow> bool" where
  "kept_length cfg cls c \<longleftrightarrow> cl_sawBad c \<or>
     (cls = [] \<or> (\<exists>e. cls = [e] \<and> cl_sawGood c \<and> length_value cfg (he_value e) = Some (cl_value c))) \<and>
     (cl_sawGood c \<and> \<not> cl_needsSanitizing c \<longrightarrow> cls \<noteq> [])"

lemma failed_clean: "header_ok h \<Longrightarrow> \<exists>h'. parse_failed (h, c) = (Inr False, h', c) \<and> header_ok h' \<and> header_fields h' = [] \<and> hh_owner h' = hh_owner h"
  using clean_becomes [of h] by (auto simp: parse_failed_def then_do_def on_header_def)

text \<open>Keeping goes through all fields, or stops and leaves an empty header.\<close>

definition block_keeps :: "http_header \<Rightarrow> length_interpreter \<Rightarrow> header_entry list \<Rightarrow> (exn + bool) \<times> http_header \<times> length_interpreter \<Rightarrow> bool" where
  "block_keeps h c es r \<longleftrightarrow> (case r of (ok, h', c') \<Rightarrow> \<not> isl ok \<and> header_ok h' \<and> hh_owner h' = hh_owner h \<and> length_sane c' \<and>
     cl_prohibitedAndIgnored c' = cl_prohibitedAndIgnored c \<and>
     (ok = Inr True \<longrightarrow> others_of (header_fields h') = others_of (header_fields h) @ others_of es \<and>
        hh_conflictingContentLength h' = hh_conflictingContentLength h \<and> hh_teUnsupported h' = hh_teUnsupported h) \<and>
     (ok = Inr False \<longrightarrow> header_fields h' = []))"

lemma block_keeps_added:
  "becomes h (header_fields h @ [e]) h1 \<Longrightarrow> cl_prohibitedAndIgnored c1 = cl_prohibitedAndIgnored c \<Longrightarrow> block_keeps h1 c1 es r \<Longrightarrow> block_keeps h c (e # es) r"
  by (auto simp: block_keeps_def becomes_def split: if_splits)

lemma block_keeps_dropped:
  "he_id e = CONTENT_LENGTH \<Longrightarrow> cl_prohibitedAndIgnored c1 = cl_prohibitedAndIgnored c \<Longrightarrow> block_keeps h c1 es r \<Longrightarrow> block_keeps h c (e # es) r"
  by (auto simp: block_keeps_def)

lemma block_keeps_failed:
  "header_ok h \<Longrightarrow> length_sane c1 \<Longrightarrow> cl_prohibitedAndIgnored c1 = cl_prohibitedAndIgnored c \<Longrightarrow> block_keeps h c es (parse_failed (h, c1))"
  using failed_clean [of h c1] by (auto simp: block_keeps_def)

lemma keep_fields_result:
  assumes "header_ok h" "list_all entry_ok es" "length_sane c"
  shows "block_keeps h c es (keep_fields cfg es (h, c))"
  using assms
proof (induction es arbitrary: h c)
  case Nil
  then show ?case by (simp add: block_keeps_def)
next
  case (Cons e es)
  have e: "entry_ok e" and null: "CHR 0x00 \<notin> set (he_value e)" using Cons.prems(2) by (auto simp: entry_ok_def)
  obtain h1 where h1: "addEntry e h = (Inr (), h1)" "becomes h (header_fields h @ [e]) h1" using addEntry_becomes [OF Cons.prems(1) e] by blast
  have es: "list_all entry_ok es" using Cons.prems(2) by simp
  show ?case
  proof (cases "he_id e = CONTENT_LENGTH")
    case False
    then have "keep_fields cfg (e # es) (h, c) = keep_fields cfg es (h1, c)" using h1(1) by (simp add: check_entry_def then_do_def on_header_def)
    then show ?thesis using block_keeps_added [OF h1(2) refl] Cons.IH [OF becomesD(1) [OF h1(2)] es Cons.prems(3)] by simp
  next
    case True
    obtain ok c1 where c1: "checkField cfg (he_value e) c = (Inr ok, c1)" "length_sane c1" "cl_prohibitedAndIgnored c1 = cl_prohibitedAndIgnored c"
      using checkField_total [OF null] Cons.prems(3) by metis
    have "keep_fields cfg (e # es) (h, c) =
        (if ok then keep_fields cfg es (h1, c1) else if relaxed cfg then keep_fields cfg es (h, c1) else parse_failed (h, c1))"
      using True c1(1) h1(1) by (simp add: check_entry_def on_length_def then_do_def on_header_def)
    then show ?thesis using block_keeps_added [OF h1(2) c1(3) Cons.IH [OF becomesD(1) [OF h1(2)] es c1(2)]]
        block_keeps_dropped [OF True c1(3) Cons.IH [OF Cons.prems(1) es c1(2)]] block_keeps_failed [OF Cons.prems(1) c1(2,3)] by simp
  qed
qed

lemma keep_fields_lengths:
  assumes "keep_fields cfg es (h, c) = (Inr True, h', c')" "header_ok h" "list_all entry_ok es" "length_sane c"
    "list_all (\<lambda>e. no_vt_ff (he_value e)) es" "agrees cfg ms c0 c" "kept_length cfg (lengths_of (header_fields h)) c"
  shows "agrees cfg (ms @ concat (map (length_members \<circ> he_value) (lengths_of es))) c0 c' \<and> kept_length cfg (lengths_of (header_fields h')) c'"
  using assms
proof (induction es arbitrary: h c ms)
  case (Cons e es)
  have e: "entry_ok e" and null: "CHR 0x00 \<notin> set (he_value e)" and fok: "field_ok (he_value e)"
    using Cons.prems(3,5) by (auto simp: entry_ok_def field_ok_def)
  obtain h1 where h1: "addEntry e h = (Inr (), h1)" "becomes h (header_fields h @ [e]) h1" using addEntry_becomes [OF Cons.prems(2) e] by blast
  have es: "list_all entry_ok es" "list_all (\<lambda>e. no_vt_ff (he_value e)) es" using Cons.prems(3,5) by simp_all
  show ?case
  proof (cases "he_id e = CONTENT_LENGTH")
    case False
    then have "keep_fields cfg es (h1, c) = (Inr True, h', c')" using Cons.prems(1) h1 by (simp add: check_entry_def then_do_def on_header_def)
    from Cons.IH [OF this becomesD(1) [OF h1(2)] es(1) Cons.prems(4) es(2) Cons.prems(6)] show ?thesis
      using False Cons.prems(7) h1(2) by (simp add: becomes_def)
  next
    case True
    obtain ok c1 where c1: "checkField cfg (he_value e) c = (Inr ok, c1)" "length_sane c1"
      using checkField_total [OF null] Cons.prems(4) by metis
    have step: "check_entry cfg e (h, c) = (Inr ok, h, c1)" using True c1(1) by (simp add: check_entry_def on_length_def)
    have "relaxed cfg \<or> ok" using Cons.prems(1) step parse_failed_owner(2) [of "(h, c1)"] by (auto simp: then_do_def split: if_splits)
    from agrees_step [OF Cons.prems(6) c1(1) this fok] have ag: "agrees cfg (ms @ length_members (he_value e)) c0 c1" .
    show ?thesis
    proof (cases ok)
      case ok: True
      then have "checkField cfg (he_value e) c = (Inr True, c1)" using c1(1) by simp
      note k = checkField_kept [OF null this]
      have "kept_length cfg (lengths_of (header_fields h1)) c1"
        using Cons.prems(7) k h1(2) True by (auto simp: kept_length_def becomes_def)
      moreover have "keep_fields cfg es (h1, c1) = (Inr True, h', c')" using Cons.prems(1) step ok h1 by (simp add: then_do_def on_header_def)
      ultimately show ?thesis using Cons.IH [OF _ becomesD(1) [OF h1(2)] es(1) c1(2) es(2) ag] True by simp
    next
      case False
      have "kept_length cfg (lengths_of (header_fields h)) c1"
        using Cons.prems(7) checkField_dropped [OF null, of cfg c c1] c1(1) False by (auto simp: kept_length_def)
      moreover have "keep_fields cfg es (h, c1) = (Inr True, h', c')"
        using Cons.prems(1) step False parse_failed_owner(2) [of "(h, c1)"] by (auto simp: then_do_def split: if_splits)
      ultimately show ?thesis using Cons.IH [OF _ Cons.prems(2) es(1) c1(2) es(2) ag] True by simp
    qed
  qed
qed simp

section \<open>The whole block\<close>

definition parsed_ok :: "(exn + bool) \<times> http_header \<times> length_interpreter \<Rightarrow> bool" where
  "parsed_ok r \<longleftrightarrow> (case r of (ok, h, c) \<Rightarrow> \<not> isl ok \<and> header_ok h \<and> length_sane c \<and> (ok = Inr False \<longrightarrow> header_fields h = []))"

lemma parsed_okE:
  assumes "parsed_ok r"
  obtains ok h c where "r = (Inr ok, h, c)" "header_ok h" "length_sane c" "\<not> ok \<longrightarrow> header_fields h = []"
proof -
  obtain x h c where "r = (x, h, c)" by (cases r)
  then show thesis using assms that by (cases x) (auto simp: parsed_ok_def)
qed

lemma parsed_failed: "header_ok h \<Longrightarrow> length_sane c \<Longrightarrow> parsed_ok (parse_failed (h, c))"
  using failed_clean [of h c] by (auto simp: parsed_ok_def)

lemma parse_fields_cases:
  obtains (stop) "parse_fields cfg field_ptr s \<in> {(Inr True, s), parse_failed s}"
    | (raised) field lines bare rest x where "field_lines cfg (hh_owner (fst s)) [] 0 False field_ptr = Some (field, lines, bare, rest)"
      "HttpHeaderEntry_parse cfg field (hh_owner (fst s)) = Inl x"
    | (field) field lines bare rest e where "field_lines cfg (hh_owner (fst s)) [] 0 False field_ptr = Some (field, lines, bare, rest)"
      "HttpHeaderEntry_parse cfg field (hh_owner (fst s)) = Inr (Some e)"
      "parse_fields cfg field_ptr s = then_do (check_entry cfg e) (\<lambda>ok s1.
         if \<not> ok then (if relaxed cfg then parse_fields cfg rest s1 else parse_failed s1)
         else then_do (on_header (addEntry e)) (\<lambda>_ s2. parse_fields cfg rest s2) s1) s"
proof -
  note unfolded = parse_fields.simps [of cfg field_ptr s]
  show thesis
  proof (cases "field_ptr = [] \<or> field_lines cfg (hh_owner (fst s)) [] 0 False field_ptr = None")
    case True
    then have "parse_fields cfg field_ptr s \<in> {(Inr True, s), parse_failed s}" unfolding unfolded by auto
    then show thesis by (rule stop)
  next
    case False
    then obtain f lines bare rest where f: "field_lines cfg (hh_owner (fst s)) [] 0 False field_ptr = Some (f, lines, bare, rest)" "field_ptr \<noteq> []" by auto
    consider "f = [] \<or> HttpHeaderEntry_parse cfg f (hh_owner (fst s)) = Inr None" | x where "HttpHeaderEntry_parse cfg f (hh_owner (fst s)) = Inl x"
      | e where "f \<noteq> []" "HttpHeaderEntry_parse cfg f (hh_owner (fst s)) = Inr (Some e)"
      by (metis option.exhaust sum.exhaust)
    then show thesis
    proof cases
      case 1
      then have "parse_fields cfg field_ptr s \<in> {(Inr True, s), parse_failed s}" unfolding unfolded using f by auto
      then show thesis by (rule stop)
    next
      case (2 x)
      then show thesis by (rule raised [OF f(1)])
    next
      case (3 e)
      show thesis
      proof (cases "(lines > 1 \<or> bare) \<and> framing_header e")
        case True
        then have "parse_fields cfg field_ptr s = parse_failed s" unfolding unfolded using f 3 by simp
        then show thesis by (intro stop) simp
      next
        case False
        show thesis by (rule field [OF f(1) 3(2)]) (unfold unfolded, use f 3 False in auto)
      qed
    qed
  qed
qed

lemma check_entry_total:
  assumes "entry_ok e" "length_sane c"
  obtains ok c1 where "check_entry cfg e (h, c) = (Inr ok, h, c1)" "length_sane c1"
proof (cases "he_id e = CONTENT_LENGTH")
  case True
  have "CHR 0x00 \<notin> set (he_value e)" using assms(1) by (simp add: entry_ok_def)
  then obtain ok c1 where "checkField cfg (he_value e) c = (Inr ok, c1)" "length_sane c1" using checkField_total [of "he_value e" cfg c] assms(2) by metis
  then show thesis using that True assms(2) by (simp add: check_entry_def on_length_def)
qed (use that [of True c] assms(2) in \<open>simp add: check_entry_def\<close>)

lemma parse_fields_result:
  "header_ok h \<Longrightarrow> CHR 0x00 \<notin> set field_ptr \<Longrightarrow> length_sane c \<Longrightarrow> parsed_ok (parse_fields cfg field_ptr (h, c))"
proof (induction "length field_ptr" arbitrary: field_ptr h c rule: less_induct)
  case less
  show ?case
  proof (cases rule: parse_fields_cases [of cfg field_ptr "(h, c)"])
    case stop
    then show ?thesis using parsed_failed [OF less(2,4)] less(2,4) by (auto simp: parsed_ok_def)
  next
    case (raised field lines bare rest x)
    then have "CHR 0x00 \<notin> set field" using field_lines_bytes [OF raised(1)] less(3) by auto
    then show ?thesis using parsed_entry_total [of field cfg "hh_owner h"] raised(2) by auto
  next
    case (field field lines bare rest e)
    have null: "CHR 0x00 \<notin> set field" "CHR 0x00 \<notin> set rest" using field_lines_bytes [OF field(1)] less(3) by auto
    have e: "entry_ok e" using parsed_entry(1) [OF field(2) null(1)] .
    obtain h1 where h1: "addEntry e h = (Inr (), h1)" "header_ok h1" using addEntry_becomes [OF less(2) e] becomesD(1) by blast
    obtain ok c1 where c1: "check_entry cfg e (h, c) = (Inr ok, h, c1)" "length_sane c1" by (rule check_entry_total [OF e less(4)])
    have "parse_fields cfg field_ptr (h, c) = (if ok then parse_fields cfg rest (h1, c1) else if relaxed cfg then parse_fields cfg rest (h, c1) else parse_failed (h, c1))"
      unfolding field(3) by (simp add: then_do_def c1(1) on_header_def h1(1))
    then show ?thesis using less(1) [OF field_lines_shorter [OF field(1)] _ null(2) c1(2)] h1(2) less(2) parsed_failed [OF less(2) c1(2)] by simp
  qed
qed

text \<open>The transfer coding of a header.\<close>

abbreviation codings_of :: "header_entry list \<Rightarrow> header_entry list" where
  "codings_of es \<equiv> filter (\<lambda>e. he_id e = TRANSFER_ENCODING) es"

lemma framing_records: "any_registered_header CONTENT_LENGTH" "any_registered_header TRANSFER_ENCODING" "hr_list (lookup_id TRANSFER_ENCODING)"
  "hr_type (lookup_id CONTENT_LENGTH) = ftInt64"
  by (simp_all add: any_registered_header_def lookup_id_declared registered_headers_def HeaderTableRecord_of_def)

lemma coding_present:
  "header_ok h \<Longrightarrow> getByIdIfPresent TRANSFER_ENCODING h =
    (if codings_of (header_fields h) = [] then Inr None
     else case join_values (map he_value (codings_of (header_fields h))) [] of Inl e \<Rightarrow> Inl e | Inr s \<Rightarrow> Inr (Some s))"
  using framing_records(2,3) getList_fields [of h TRANSFER_ENCODING] mask_iff [of h TRANSFER_ENCODING]
  by (auto simp: getByIdIfPresent_def header_has_def getStrOrList_def filter_empty_conv split: sum.splits)

lemma join_values_fits:
  "length a + sum_list (map (\<lambda>v. length v + 2) vs) < String_SizeMax \<Longrightarrow> \<exists>s. join_values vs a = Inr s"
proof (induction vs arbitrary: a)
  case (Cons v vs)
  have "length (cstr v) \<le> length v" by (simp add: cstr_def length_takeWhile_le)
  then have "\<exists>s. strListAdd a (cstr v) (CHR '','') = Inr s \<and> length s \<le> length a + 2 + length v"
    using Cons.prems by (auto simp: strListAdd_def must_def String_canGrowBy_def String_CanGrowTo_def String_SafeAdd_def)
  then show ?case using Cons.IH Cons.prems by fastforce
qed simp

lemma header_ok_flags [simp]:
  "header_ok (h\<lparr>hh_conflictingContentLength := b\<rparr>) = header_ok h" "header_ok (h\<lparr>hh_teUnsupported := b\<rparr>) = header_ok h"
  "header_fields (h\<lparr>hh_conflictingContentLength := b\<rparr>) = header_fields h" "header_fields (h\<lparr>hh_teUnsupported := b\<rparr>) = header_fields h"
  by (simp_all add: header_ok_def header_fields_def)

text \<open>What is left of the fields when the framing is settled: no framing field if they are prohibited; with a transfer coding no length, and
  the coding unless it is the identity; otherwise the length on which the fields agree.\<close>

definition framed_fields :: "length_interpreter \<Rightarrow> header_entry list \<Rightarrow> bytes \<Rightarrow> header_entry list" where
  "framed_fields c es raw =
     (if cl_prohibitedAndIgnored c \<noteq> None \<or> codings_of es \<noteq> [] \<and> String_caseEq raw ''identity'' \<and> \<not> String_caseEq raw ''chunked''
      then filter (\<lambda>e. \<not> framing_header e) es
      else if codings_of es \<noteq> [] \<or> cl_sawBad c then others_of es
      else if cl_needsSanitizing c then others_of es @ (if cl_sawGood c then [registered_entry CONTENT_LENGTH (xint64toa (cl_value c))] else [])
      else es)"

lemma putInt64_length:
  assumes "header_ok h" "0 \<le> v" "v \<le> LLONG_MAX"
  shows "\<exists>h'. putInt64 CONTENT_LENGTH v h = (Inr (), h') \<and> becomes h (header_fields h @ [registered_entry CONTENT_LENGTH (xint64toa v)]) h'"
  using add_new_becomes(1) [OF assms(1) framing_records(1) xint64toa_text [OF assms(2,3)], of "[]"] framing_records(1,4) assms(2)
  by (simp add: putInt64_def then_do_def assert_do_def)

lemma parse_framing_result:
  assumes "header_ok h" "length_sane c" "join_values (map he_value (codings_of (header_fields h))) [] = Inr raw"
  shows "\<exists>h'. parse_framing c h = (Inr (), h') \<and> header_ok h' \<and> hh_owner h' = hh_owner h \<and> header_fields h' = framed_fields c (header_fields h) raw \<and>
    (hh_conflictingContentLength h' \<longleftrightarrow> hh_conflictingContentLength h \<or>
       cl_prohibitedAndIgnored c = None \<and> codings_of (header_fields h) = [] \<and> cl_sawBad c) \<and>
    (hh_teUnsupported h' \<longleftrightarrow> hh_teUnsupported h \<or> cl_prohibitedAndIgnored c = None \<and> codings_of (header_fields h) \<noteq> [] \<and>
       \<not> String_caseEq raw ''chunked'' \<and> \<not> String_caseEq raw ''identity'')"
proof -
  obtain h1 where h1: "delById CONTENT_LENGTH h = (Inr (length (lengths_of (header_fields h))), h1)" "becomes h (others_of (header_fields h)) h1"
    using delById_becomes [OF assms(1) framing_records(1)] by blast
  obtain h2 where h2: "delById TRANSFER_ENCODING h1 = (Inr (length (codings_of (header_fields h1))), h2)"
    "becomes h1 (filter (\<lambda>e. he_id e \<noteq> TRANSFER_ENCODING) (header_fields h1)) h2"
    using delById_becomes [OF becomesD(1) [OF h1(2)] framing_records(2)] by blast
  have both: "becomes h (filter (\<lambda>e. \<not> framing_header e) (header_fields h)) h2"
    using becomes_trans [OF h1(2) h2(2)] by (simp add: becomesD(2) [OF h1(2)] framing_header_def conj_commute)
  have te: "getByIdIfPresent TRANSFER_ENCODING h = (if codings_of (header_fields h) = [] then Inr None else Inr (Some raw))"
    using coding_present [OF assms(1)] assms(3) by simp
  consider "cl_prohibitedAndIgnored c \<noteq> None" | "cl_prohibitedAndIgnored c = None" "codings_of (header_fields h) \<noteq> []"
    | "cl_prohibitedAndIgnored c = None" "codings_of (header_fields h) = []" "cl_sawBad c \<or> \<not> cl_needsSanitizing c \<or> \<not> cl_sawGood c"
    | "cl_prohibitedAndIgnored c = None" "codings_of (header_fields h) = []" "\<not> cl_sawBad c" "cl_needsSanitizing c" "cl_sawGood c"
    by blast
  then show ?thesis
  proof cases
    case 1
    then have "parse_framing c h = (Inr (), h2)" by (simp add: parse_framing_def then_do_def h1(1) h2(1))
    then show ?thesis using both 1 by (auto simp: becomes_def framed_fields_def)
  next
    case 2
    then have "parse_framing c h = (Inr (), if String_caseEq raw ''chunked'' then h1 else if String_caseEq raw ''identity'' then h2
        else h1\<lparr>hh_teUnsupported := True\<rparr>)" by (simp add: parse_framing_def te then_do_def h1(1) h2(1))
    then show ?thesis using both h1(2) 2 by (simp add: becomes_def framed_fields_def)
  next
    case 3
    then have "parse_framing c h = (Inr (), if cl_sawBad c then h1\<lparr>hh_conflictingContentLength := True\<rparr> else if cl_needsSanitizing c then h1 else h)"
      by (auto simp: parse_framing_def te then_do_def h1(1))
    then show ?thesis using h1(2) 3 assms(1) by (auto simp: becomes_def framed_fields_def)
  next
    case 4
    then have "0 \<le> cl_value c" "cl_value c \<le> LLONG_MAX" using assms(2) by (auto simp: length_sane_def)
    then obtain h3 where "putInt64 CONTENT_LENGTH (cl_value c) h1 = (Inr (), h3)"
      "becomes h1 (header_fields h1 @ [registered_entry CONTENT_LENGTH (xint64toa (cl_value c))]) h3"
      using putInt64_length [OF becomesD(1) [OF h1(2)]] by blast
    then show ?thesis using 4 h1 by (simp add: parse_framing_def te then_do_def framed_fields_def becomes_def)
  qed
qed

text \<open>A printed length is read back.\<close>

lemma decimal_digit: "d < 10 \<Longrightarrow> digit_value (char_of (48 + d)) = Some d \<and> xisdigit (char_of (48 + d :: nat))"
  by (simp add: digit_value_def xisdigit_def of_char_of)

lemma decimal_digits_read: "number_of 10 (decimal_digits n) 0 = n \<and> list_all xisdigit (decimal_digits n) \<and> decimal_digits n \<noteq> []"
proof (induction n rule: decimal_digits.induct)
  case (1 n)
  then show ?case using decimal_digit [of n] decimal_digit [of "n mod 10"]
    by (subst (1 2 3) decimal_digits.simps) (simp add: number_of_def)
qed

lemma printed_length: "0 \<le> v \<Longrightarrow> v \<le> LLONG_MAX \<Longrightarrow> length_value cfg (xint64toa v) = Some v"
proof -
  assume v: "0 \<le> v" "v \<le> LLONG_MAX"
  let ?s = "decimal_digits (nat v)"
  have d: "?s \<noteq> []" "xisdigit (hd ?s)" using decimal_digits_read [of "nat v"] by (cases ?s; simp)+
  then have "dropWhile (cs_index (WhitespaceCharacters cfg)) ?s = ?s" using white_not_digit(1) [of cfg "hd ?s"] by (cases ?s) auto
  moreover have tw: "takeWhile xisdigit ?s = ?s" "dropWhile xisdigit ?s = []"
    using decimal_digits_read [of "nat v"] by (simp_all add: takeWhile_eq_all_conv dropWhile_eq_Nil_conv list_all_iff)
  ultimately show ?thesis using v d decimal_digits_read [of "nat v"] by (simp add: length_value_def xint64toa_def Let_def tw)
qed

lemma raw_codings_fit:
  assumes "raw_fields cfg owner block = Some es" "CHR 0x00 \<notin> set block" "length block < String_SizeMax"
  obtains raw where "join_values (map he_value (codings_of es)) [] = Inr raw"
proof -
  have "sum_list (map (\<lambda>e. length (he_value e) + 2) (codings_of es)) \<le> sum_list (map (\<lambda>e. length (he_value e) + 2) es)"
    by (rule sum_list_filter_le_nat)
  then have "sum_list (map (\<lambda>v. length v + 2) (map he_value (codings_of es))) < String_SizeMax"
    using raw_fields_bytes [OF assms(1,2)] assms(3) by (simp add: comp_def)
  then show thesis using join_values_fits [of "[]" "map he_value (codings_of es)"] that by auto
qed

text \<open>A successful parse of a block: the fields that were read, those that were kept, and the end.\<close>

lemma codings_others: "codings_of (others_of es) = codings_of es"
  by (auto simp: intro: filter_cong)

lemma header_parse_parts:
  assumes "CHR 0x00 \<notin> set block" "length block < String_SizeMax" "header_ok h0" "header_fields h0 = []" "length_sane c0"
    "parse_fields cfg block (h0, c0) = (Inr True, h1, c1)"
  obtains es raw h where "raw_fields cfg (hh_owner h0) block = Some es" "list_all entry_ok es" "keep_fields cfg es (h0, c0) = (Inr True, h1, c1)"
    "others_of (header_fields h1) = others_of es" "join_values (map he_value (codings_of es)) [] = Inr raw" "codings_of (header_fields h1) = codings_of es"
    "cl_prohibitedAndIgnored c1 = cl_prohibitedAndIgnored c0" "hh_conflictingContentLength h1 = hh_conflictingContentLength h0"
    "hh_teUnsupported h1 = hh_teUnsupported h0" "header_ok h1" "length_sane c1" "parse_framing c1 h1 = (Inr (), h)" "header_ok h"
    "header_parse cfg block (h0, c0) = (Inr True, h, c1)"
proof -
  obtain es where es: "raw_fields cfg (hh_owner h0) block = Some es" "keep_fields cfg es (h0, c0) = (Inr True, h1, c1)"
    using parse_fields_raw [of cfg block "(h0, c0)"] assms(6) by (auto split: option.splits)
  have ok: "list_all entry_ok es" using raw_fields_bytes [OF es(1) assms(1)] by (simp add: list_all_iff)
  have kept: "others_of (header_fields h1) = others_of es" "cl_prohibitedAndIgnored c1 = cl_prohibitedAndIgnored c0"
    "hh_conflictingContentLength h1 = hh_conflictingContentLength h0" "hh_teUnsupported h1 = hh_teUnsupported h0" "header_ok h1" "length_sane c1"
    using keep_fields_result [OF assms(3) ok assms(5), of cfg] es(2) assms(4) by (simp_all add: block_keeps_def)
  obtain raw where raw: "join_values (map he_value (codings_of es)) [] = Inr raw" by (rule raw_codings_fit [OF es(1) assms(1,2)])
  have te: "codings_of (header_fields h1) = codings_of es" using codings_others [of es] codings_others [of "header_fields h1"] kept(1) by simp
  obtain h where h: "parse_framing c1 h1 = (Inr (), h)" "header_ok h" using parse_framing_result [OF kept(5,6)] raw te by auto
  then have "header_parse cfg block (h0, c0) = (Inr True, h, c1)" using assms(1,6) by (simp add: header_parse_def then_do_def on_header_def)
  then show thesis using that es ok kept raw te h by blast
qed

lemma header_parse_fields:
  assumes "header_parse cfg block (h0, c0) = (Inr True, h, c)" "header_ok h0"
  obtains h1 where "CHR 0x00 \<notin> set block" "parse_fields cfg block (h0, c0) = (Inr True, h1, c)"
proof -
  have null: "CHR 0x00 \<notin> set block" using assms failed_clean [of h0 c0] by (auto simp: header_parse_def)
  obtain r h1 c1 where p: "parse_fields cfg block (h0, c0) = (r, h1, c1)" by (cases "parse_fields cfg block (h0, c0)")
  then have "r = Inr True \<and> c1 = c" using assms(1) null by (auto simp: header_parse_def then_do_def on_header_def split: sum.splits prod.splits if_splits)
  then show thesis using that null p by blast
qed

lemma framed_none: "lengths_of (filter (\<lambda>e. \<not> framing_header e) es) = []" "codings_of (filter (\<lambda>e. \<not> framing_header e) es) = []"
  "lengths_of (others_of es) = []"
  by (auto simp: filter_empty_conv framing_header_def)

lemma rest_others: "filter (\<lambda>e. \<not> framing_header e) (others_of es) = filter (\<lambda>e. \<not> framing_header e) es"
  unfolding filter_filter by (intro filter_cong) (auto simp: framing_header_def)

lemma framed_rest: "filter (\<lambda>e. \<not> framing_header e) (framed_fields c es raw) = filter (\<lambda>e. \<not> framing_header e) es"
  using rest_others [of es] by (simp add: framed_fields_def del: filter_filter) (simp add: framing_header_def registered_entry_def)

text \<open>The lengths after the framing is settled, when there is no transfer coding and lengths are not prohibited.\<close>

lemma framed_lengths:
  assumes "agrees cfg ms c0 c" "\<not> cl_sawGood c0" "kept_length cfg (lengths_of es) c" "length_sane c" "cl_prohibitedAndIgnored c = None" "codings_of es = []"
  shows "if cl_sawBad c then lengths_of (framed_fields c es raw) = [] \<and> \<not> (\<exists>v. say_same cfg ms v)
    else if ms = [] then lengths_of (framed_fields c es raw) = []
    else \<exists>e v. lengths_of (framed_fields c es raw) = [e] \<and> length_value cfg (he_value e) = Some v \<and> say_same cfg ms v"
proof (cases "cl_sawBad c")
  case True
  then show ?thesis using assms(1,2,5,6) by (simp add: framed_fields_def framed_none(3) agrees_def)
next
  case False
  then have good: "cl_sawGood c \<longleftrightarrow> ms \<noteq> []" "cl_sawGood c \<Longrightarrow> say_same cfg ms (cl_value c)" using assms(1,2) by (auto simp: agrees_def)
  show ?thesis
  proof (cases "cl_needsSanitizing c")
    case True
    then have "lengths_of (framed_fields c es raw) = (if cl_sawGood c then [registered_entry CONTENT_LENGTH (xint64toa (cl_value c))] else [])"
      using False assms(5,6) framed_none(3) [of es] by (simp add: framed_fields_def registered_entry_def)
    moreover have "cl_sawGood c \<Longrightarrow> length_value cfg (xint64toa (cl_value c)) = Some (cl_value c)"
      using assms(4) by (intro printed_length) (auto simp: length_sane_def)
    ultimately show ?thesis using False good by (auto simp: registered_entry_def)
  next
    case no: False
    then have "framed_fields c es raw = es" using False assms(5,6) by (simp add: framed_fields_def)
    then show ?thesis using False no assms(3) good by (auto simp: kept_length_def)
  qed
qed

lemma header_parse_framed:
  assumes "length block < String_SizeMax" "owner \<noteq> hoNone" "owner \<noteq> hoEnd"
    "header_parse cfg block (header_new owner, ContentLengthInterpreter\<lparr>cl_prohibitedAndIgnored := p\<rparr>) = (Inr True, h, c)"
  obtains es raw kept where "CHR 0x00 \<notin> set block" "raw_fields cfg owner block = Some es" "join_values (map he_value (codings_of es)) [] = Inr raw"
    "others_of kept = others_of es" "codings_of kept = codings_of es" "header_fields h = framed_fields c kept raw" "cl_prohibitedAndIgnored c = p" "length_sane c"
    "hh_conflictingContentLength h \<longleftrightarrow> p = None \<and> codings_of es = [] \<and> cl_sawBad c"
    "hh_teUnsupported h \<longleftrightarrow> p = None \<and> codings_of es \<noteq> [] \<and> \<not> String_caseEq raw ''chunked'' \<and> \<not> String_caseEq raw ''identity''"
    "no_vt_ff block \<longrightarrow> agrees cfg (concat (map (length_members \<circ> he_value) (lengths_of es))) ContentLengthInterpreter c \<and> kept_length cfg (lengths_of kept) c"
proof -
  let ?c = "ContentLengthInterpreter\<lparr>cl_prohibitedAndIgnored := p\<rparr>" let ?h = "header_new owner"
  have new: "header_ok ?h" "length_sane ?c" "header_fields ?h = []"
    using header_new_ok assms(2,3) by (simp_all add: length_sane_def ContentLengthInterpreter_def)
  obtain h1 where h1: "CHR 0x00 \<notin> set block" "parse_fields cfg block (?h, ?c) = (Inr True, h1, c)" by (rule header_parse_fields [OF assms(4) new(1)])
  obtain es raw h2 where parts: "raw_fields cfg (hh_owner ?h) block = Some es" "list_all entry_ok es" "keep_fields cfg es (?h, ?c) = (Inr True, h1, c)"
    "others_of (header_fields h1) = others_of es" "join_values (map he_value (codings_of es)) [] = Inr raw" "codings_of (header_fields h1) = codings_of es"
    "cl_prohibitedAndIgnored c = cl_prohibitedAndIgnored ?c" "hh_conflictingContentLength h1 = hh_conflictingContentLength ?h"
    "hh_teUnsupported h1 = hh_teUnsupported ?h" "header_ok h1" "length_sane c" "parse_framing c h1 = (Inr (), h2)" "header_ok h2"
    "header_parse cfg block (?h, ?c) = (Inr True, h2, c)"
    by (rule header_parse_parts [OF h1(1) assms(1) new(1,3,2) h1(2)])
  have h: "h2 = h" using parts(14) assms(4) by simp
  have flags: "\<not> hh_conflictingContentLength h1" "\<not> hh_teUnsupported h1" "cl_prohibitedAndIgnored c = p" "hh_owner ?h = owner"
    using parts(7-9) by (simp_all add: header_new_def)
  have "agrees cfg [] ?c ?c" "kept_length cfg (lengths_of (header_fields ?h)) ?c"
    using new(3) by (simp_all add: agrees_def kept_length_def ContentLengthInterpreter_def)
  note keep = keep_fields_lengths [OF parts(3) new(1) parts(2) new(2) _ this]
  show thesis
  proof (rule that [of es raw "header_fields h1"])
    have "list_all (\<lambda>e. no_vt_ff (he_value e)) es" if "no_vt_ff block"
      using that raw_fields_bytes [OF parts(1) h1(1)] by (fastforce simp: list_all_iff no_vt_ff_def)
    with keep show "no_vt_ff block \<longrightarrow> agrees cfg (concat (map (length_members \<circ> he_value) (lengths_of es))) ContentLengthInterpreter c \<and>
        kept_length cfg (lengths_of (header_fields h1)) c" by (simp add: agrees_def ContentLengthInterpreter_def)
  qed (use parse_framing_result [OF parts(10,11), unfolded parts(6), OF parts(5)] parts flags h1(1) h in auto)
qed

end
