(* ===== verification/Header_Roundtrip.thy ===== *)
theory Header_Roundtrip
  imports Header_Framing
begin

text \<open>
  What parsing a header block guarantees. A packed header is parsed back to the same fields, with its framing fields, out of a buffer that goes
  on with the body. Parsing never fails an assertion and keeps the invariant of the header; the fields it keeps are those of the block but for
  the framing fields; and of the length of the body it reports at most one value, on which all Content-Length fields of the block agree.
\<close>

section \<open>Fields that can be sent\<close>

definition wire_ok :: "header_entry \<Rightarrow> bool" where
  "wire_ok e \<longleftrightarrow> entry_ok e \<and> list_all (cs_index cs_TCHAR) (he_name e) \<and> length (he_name e) \<le> 65534 \<and> length (he_value e) \<le> 65534 \<and>
     CR \<notin> set (he_value e) \<and> LF \<notin> set (he_value e) \<and> strip (he_value e) = he_value e"

lemma tchar_plain: "cs_index cs_TCHAR c \<Longrightarrow> c \<noteq> CHR '':'' \<and> c \<noteq> CR \<and> c \<noteq> LF \<and> c \<noteq> SP \<and> c \<noteq> HTAB \<and> \<not> xisspace c"
  by (auto simp: charset_simps xisspace_cases)

lemma wire_name:
  assumes "wire_ok e"
  obtains c cs where "he_name e = c # cs" "cs_index cs_TCHAR c" "list_all (cs_index cs_TCHAR) cs"
  using assms by (cases "he_name e") (auto simp: wire_ok_def entry_ok_def)

lemma parse_packed_entry:
  assumes "wire_ok e"
  shows "HttpHeaderEntry_parse cfg (he_name e @ '': '' @ he_value e) owner = Inr (Some e)"
proof -
  let ?f = "he_name e @ '': '' @ he_value e" let ?n = "length (he_name e)"
  have name: "he_name e \<noteq> []" "list_all (cs_index cs_TCHAR) (he_name e)" using assms by (auto simp: wire_ok_def entry_ok_def)
  have "takeWhile (\<lambda>c. c \<noteq> CHR '':'') ?f = he_name e"
    using name(2) tchar_plain by (subst takeWhile_append2) (auto simp: list_all_iff)
  moreover have "name_length cfg ?f owner ?n = Some ?n"
    using name tchar_plain(1) [of "last (he_name e)"] by (auto simp: name_length_def nth_append last_conv_nth list_all_iff)
  moreover have v: "trimmed_value (drop (?n + 1) ?f) = he_value e" using assms by (simp add: trimmed_strip wire_ok_def strip_def xisspace_cases)
  moreover have "HttpHeaderEntry (parsed_id (he_name e)) (if parsed_id (he_name e) = OTHER then he_name e else hr_name (lookup_id (parsed_id (he_name e)))) (he_value e) = Inr e"
  proof -
    have ok: "entry_ok e" "length (he_value e) \<le> 65534" "CHR 0x00 \<notin> set (he_value e)" using assms by (auto simp: wire_ok_def entry_ok_def)
    have id: "parsed_id (he_name e) = he_id e"
    proof (cases "he_id e = OTHER")
      case True
      then show ?thesis using ok(1) by (simp add: entry_ok_def parsed_id_def)
    next
      case False
      then have reg: "any_registered_header (he_id e)" "he_name e = hr_name (lookup_id (he_id e))"
        using entry_registered [OF ok(1)] ok(1) by (simp_all add: entry_ok_def)
      then have "hr_id (lookup_id (he_id e)) = he_id e" by (simp add: any_registered_header_def lookup_id_declared hr_id_declared)
      then show ?thesis using lookup_name_of_id [OF reg(1)] reg by (auto simp: parsed_id_def any_registered_header_def)
    qed
    have "e = (if he_id e = OTHER then other_entry (he_name e) (he_value e) else registered_entry (he_id e) (he_value e))"
      using ok(1) by (cases e) (auto simp: other_entry_def registered_entry_def entry_ok_def split: if_splits)
    then show ?thesis using parsed_entry_made [OF ok(2,3), of "he_name e"] unfolding id by metis
  qed
  ultimately show ?thesis using name assms by (simp add: HttpHeaderEntry_parse_def wire_ok_def)
qed


section \<open>Reading packed fields\<close>

abbreviation packed :: "header_entry list \<Rightarrow> bytes" where
  "packed es \<equiv> concat (map entry_packInto es)"

lemma packed_next: "list_all wire_ok es \<Longrightarrow> packed es = [] \<or> cs_index cs_TCHAR (hd (packed es))"
proof (cases es)
  case (Cons e es')
  assume "list_all wire_ok es"
  then have "wire_ok e" using Cons by simp
  then show ?thesis using Cons by (auto elim: wire_name simp: entry_packInto_def)
qed simp

lemma line_split: "LF \<notin> set l \<Longrightarrow> takeWhile (\<lambda>c. c \<noteq> LF) (l @ LF # r) = l \<and> dropWhile (\<lambda>c. c \<noteq> LF) (l @ LF # r) = LF # r"
  by (induction l) auto

lemma field_lines_packed:
  assumes "wire_ok e" "rest = [] \<or> cs_index cs_TCHAR (hd rest)"
  shows "field_lines cfg owner [] 0 False (entry_packInto e @ rest) = Some (he_name e @ '': '' @ he_value e, 1, False, rest)"
proof -
  let ?f = "he_name e @ '': '' @ he_value e"
  have all: "entry_packInto e @ rest = (?f @ [CR]) @ LF # rest" by (simp add: entry_packInto_def CrLf_def)
  have no: "LF \<notin> set ?f" "CR \<notin> set ?f" using assms(1) tchar_plain by (auto simp: wire_ok_def list_all_iff)
  have "takeWhile (\<lambda>c. c \<noteq> LF) ((?f @ [CR]) @ LF # rest) = ?f @ [CR]" "dropWhile (\<lambda>c. c \<noteq> LF) ((?f @ [CR]) @ LF # rest) = LF # rest"
    using line_split [of "?f @ [CR]" rest] no(1) by simp_all
  moreover have "map (\<lambda>c. if c = CR then SP else c) ?f = ?f" using no(2) by (intro map_idI) auto
  moreover have "\<not> (rest \<noteq> [] \<and> (hd rest = SP \<or> hd rest = HTAB))" using assms(2) tchar_plain by blast
  moreover have "\<not> list_all (\<lambda>c. c = CR) ?f" by simp
  ultimately show ?thesis using no(2) unfolding all by (subst field_lines.simps) (auto simp: Let_def butlast_append)
qed

lemma raw_fields_packed: "list_all wire_ok es \<Longrightarrow> raw_fields cfg owner (packed es) = Some es"
proof (induction es)
  case (Cons e es)
  then have e: "wire_ok e" "list_all wire_ok es" by simp_all
  have "packed (e # es) \<noteq> []" "he_name e @ '': '' @ he_value e \<noteq> []" by (simp_all add: entry_packInto_def)
  then show ?case using field_lines_packed [OF e(1) packed_next [OF e(2)], of cfg owner] parse_packed_entry [OF e(1), of cfg owner] Cons.IH [OF e(2)]
    by (subst raw_fields.simps) simp
qed (simp add: raw_fields.simps)

text \<open>The end of the block is found, whatever follows.\<close>

lemma scan_line: "LF \<notin> set l \<Longrightarrow> headersEnd_loop (l @ LF # rest) e 0 obs = headersEnd_loop rest (e + length l + 1) 1 obs"
  by (induction l arbitrary: e) (auto simp: headersEnd_step_def)

lemma scan_packed:
  "list_all wire_ok es \<Longrightarrow> headersEnd_loop (packed es @ rest) e 1 obs = headersEnd_loop rest (e + length (packed es)) 1 obs"
proof (induction es arbitrary: e)
  case (Cons x es)
  then have x: "wire_ok x" by simp
  obtain c cs where c: "he_name x = c # cs" "cs_index cs_TCHAR c" "list_all (cs_index cs_TCHAR) cs" by (rule wire_name [OF x])
  let ?l = "cs @ '': '' @ he_value x @ [CR]"
  have l: "LF \<notin> set ?l" using c(3) x tchar_plain by (auto simp: wire_ok_def list_all_iff)
  have "packed (x # es) @ rest = c # ?l @ LF # (packed es @ rest)" by (simp add: entry_packInto_def CrLf_def c(1))
  then have "headersEnd_loop (packed (x # es) @ rest) e 1 obs = headersEnd_loop (?l @ LF # (packed es @ rest)) (e + 1) 0 obs"
    using tchar_plain [OF c(2)] by (simp add: headersEnd_step_def)
  also have "\<dots> = headersEnd_loop (packed es @ rest) (e + 1 + length ?l + 1) 1 obs" by (rule scan_line [OF l])
  also have "e + 1 + length ?l + 1 = e + length (entry_packInto x)" by (simp add: entry_packInto_def CrLf_def c(1))
  finally show ?case using Cons by (simp add: add.assoc)
qed simp

lemma scan_stop: "headersEnd_loop rest e 3 obs = (e, 3, obs)"
  by (cases rest) simp_all

lemma isolate_packed:
  assumes "list_all wire_ok es"
  shows "header_Isolate (packed es @ CrLf @ body) = Inr (Some (packed es, length (packed es) + 2))"
proof -
  have "headersEnd (packed es @ CrLf @ body) = (length (packed es) + 2, False)"
    using scan_packed [OF assms, of "CrLf @ body" 0 False] by (simp add: headersEnd_def CrLf_def headersEnd_step_def scan_stop)
  then show ?thesis by (simp add: header_Isolate_def Let_def CrLf_def nth_append)
qed


section \<open>Keeping packed fields\<close>

text \<open>Framing fields that leave no doubt: one length that is a number, or one coding that is chunked, or neither.\<close>

definition plain_framing :: "http_config \<Rightarrow> header_entry list \<Rightarrow> bool" where
  "plain_framing cfg es \<longleftrightarrow>
     (lengths_of es = [] \<or> length (lengths_of es) = 1 \<and> list_all (\<lambda>e. CHR '','' \<notin> set (he_value e) \<and> length_value cfg (he_value e) \<noteq> None) (lengths_of es) \<and>
        codings_of es = []) \<and>
     (codings_of es = [] \<or> length (codings_of es) = 1 \<and> list_all (\<lambda>e. String_caseEq (he_value e) ''chunked'') (codings_of es))"

lemma keep_plain:
  assumes "header_ok h" "list_all entry_ok es"
    "lengths_of es = [] \<or> length (lengths_of es) = 1 \<and> list_all (\<lambda>e. CHR '','' \<notin> set (he_value e) \<and> length_value cfg (he_value e) \<noteq> None) (lengths_of es) \<and>
       \<not> cl_sawBad c \<and> \<not> cl_sawGood c"
  shows "\<exists>h' c'. keep_fields cfg es (h, c) = (Inr True, h', c') \<and> becomes h (header_fields h @ es) h' \<and>
    cl_sawBad c' = cl_sawBad c \<and> cl_needsSanitizing c' = cl_needsSanitizing c"
  using assms
proof (induction es arbitrary: h c)
  case Nil
  then show ?case using becomes_refl by simp
next
  case (Cons e es)
  have e: "entry_ok e" and es: "list_all entry_ok es" using Cons.prems(2) by simp_all
  obtain h1 where h1: "addEntry e h = (Inr (), h1)" "becomes h (header_fields h @ [e]) h1" using addEntry_becomes [OF Cons.prems(1) e] by blast
  obtain c1 where c1: "check_entry cfg e (h, c) = (Inr True, h, c1)" "cl_sawBad c1 = cl_sawBad c" "cl_needsSanitizing c1 = cl_needsSanitizing c"
    "he_id e = CONTENT_LENGTH \<longrightarrow> lengths_of es = []" "he_id e \<noteq> CONTENT_LENGTH \<longrightarrow> c1 = c"
  proof (cases "he_id e = CONTENT_LENGTH")
    case True
    have "checkField cfg (he_value e) c = (Inr True, length_note cfg (he_value e) c)"
      using Cons.prems(3) True e by (auto simp: checkField_cases entry_ok_def)
    moreover have "lengths_of es = []" "\<not> cl_sawGood c" "length_value cfg (he_value e) \<noteq> None" using True Cons.prems(3) by auto
    ultimately show thesis using True by (intro that [of "length_note cfg (he_value e) c"]) (auto simp: check_entry_def on_length_def length_note_def)
  qed (use that [of c] in \<open>simp add: check_entry_def\<close>)
  have "lengths_of es = [] \<or> length (lengths_of es) = 1 \<and> list_all (\<lambda>e. CHR '','' \<notin> set (he_value e) \<and> length_value cfg (he_value e) \<noteq> None) (lengths_of es) \<and>
      \<not> cl_sawBad c1 \<and> \<not> cl_sawGood c1" using Cons.prems(3) c1(4,5) by (auto split: if_splits)
  from Cons.IH [OF becomesD(1) [OF h1(2)] es this] obtain h' c' where
    "keep_fields cfg es (h1, c1) = (Inr True, h', c')" "becomes h1 (header_fields h1 @ es) h'" "cl_sawBad c' = cl_sawBad c1" "cl_needsSanitizing c' = cl_needsSanitizing c1" by blast
  then show ?case using becomes_trans [OF h1(2)] becomesD(2) [OF h1(2)] c1 h1(1) by (auto simp: then_do_def on_header_def)
qed

lemma join_single: "length v < String_SizeMax \<Longrightarrow> CHR 0x00 \<notin> set v \<Longrightarrow> join_values [v] [] = Inr v"
  by (auto simp: strListAdd_def must_def String_canGrowBy_def String_CanGrowTo_def String_SafeAdd_def cstr_id)

lemma plain_framed:
  assumes "plain_framing cfg es" "list_all entry_ok es" "\<not> cl_sawBad c" "\<not> cl_needsSanitizing c" "cl_prohibitedAndIgnored c = None"
  obtains raw where "join_values (map he_value (codings_of es)) [] = Inr raw" "framed_fields c es raw = es" "codings_of es \<noteq> [] \<Longrightarrow> String_caseEq raw ''chunked''"
proof (cases "codings_of es")
  case Nil
  then show thesis using assms that [of "[]"] by (simp add: framed_fields_def)
next
  case (Cons e fs)
  then have e: "codings_of es = [e]" "String_caseEq (he_value e) ''chunked''" using assms(1) by (auto simp: plain_framing_def)
  have "e \<in> set (codings_of es)" unfolding e(1) by simp
  then have "e \<in> set es" by simp
  then have "entry_ok e" using assms(2) by (simp add: list_all_iff)
  then have raw: "join_values (map he_value (codings_of es)) [] = Inr (he_value e)" using join_single e(1) by (simp add: entry_ok_def)
  have "lengths_of es = []" using assms(1) e(1) by (simp add: plain_framing_def)
  then have "others_of es = es" by (simp add: filter_empty_conv filter_id_conv)
  then show thesis using that [of "he_value e"] raw e assms(5) by (simp add: framed_fields_def)
qed


lemma packed_bytes: "list_all wire_ok es \<Longrightarrow> CHR 0x00 \<notin> set (packed es)"
  by (induction es) (auto simp: entry_packInto_def CrLf_def wire_ok_def entry_ok_def)

lemma header_parse_packed:
  assumes "list_all wire_ok es" "plain_framing cfg es" "owner \<noteq> hoNone" "owner \<noteq> hoEnd"
  shows "\<exists>h c. header_parse cfg (packed es) (header_new owner, ContentLengthInterpreter) = (Inr True, h, c) \<and> header_ok h \<and> header_fields h = es \<and>
    \<not> hh_conflictingContentLength h \<and> \<not> hh_teUnsupported h"
proof -
  let ?s = "(header_new owner, ContentLengthInterpreter)"
  have es: "list_all entry_ok es" using assms(1) by (auto simp: list_all_iff wire_ok_def)
  have new: "header_ok (header_new owner)" "header_fields (header_new owner) = []" "hh_owner (header_new owner) = owner"
    "\<not> hh_conflictingContentLength (header_new owner)" "\<not> hh_teUnsupported (header_new owner)" "length_sane ContentLengthInterpreter"
    using header_new_ok assms(3,4) by (simp_all add: header_new_def length_sane_def ContentLengthInterpreter_def)
  obtain h1 c1 where keep: "keep_fields cfg es ?s = (Inr True, h1, c1)" "becomes (header_new owner) es h1" "\<not> cl_sawBad c1" "\<not> cl_needsSanitizing c1"
    using keep_plain [OF new(1) es, of cfg ContentLengthInterpreter] assms(2) new(2) by (auto simp: plain_framing_def ContentLengthInterpreter_def)
  have c1: "length_sane c1" "cl_prohibitedAndIgnored c1 = None"
    using keep_fields_result [OF new(1) es new(6), of cfg] keep(1) by (simp_all add: block_keeps_def ContentLengthInterpreter_def)
  obtain raw where raw: "join_values (map he_value (codings_of es)) [] = Inr raw" "framed_fields c1 es raw = es" "codings_of es \<noteq> [] \<Longrightarrow> String_caseEq raw ''chunked''"
    using plain_framed [OF assms(2) es keep(3,4) c1(2)] by blast
  have h1: "header_ok h1" "header_fields h1 = es" "\<not> hh_conflictingContentLength h1" "\<not> hh_teUnsupported h1" using keep(2) new(4,5) by (simp_all add: becomes_def)
  obtain h where "parse_framing c1 h1 = (Inr (), h)" "header_ok h" "header_fields h = es" "\<not> hh_conflictingContentLength h" "\<not> hh_teUnsupported h"
    using parse_framing_result [OF h1(1) c1(1), unfolded h1(2), OF raw(1)] h1(3,4) keep(3) raw(2,3) by auto
  moreover have "parse_fields cfg (packed es) ?s = (Inr True, h1, c1)"
    using parse_fields_raw [of cfg "packed es" ?s] raw_fields_packed [OF assms(1), of cfg owner] keep(1) new(3) by simp
  ultimately show ?thesis using packed_bytes [OF assms(1)] by (simp add: header_parse_def then_do_def on_header_def)
qed



text \<open>C7. A header of fields that can be sent, with framing fields that leave no doubt, is packed, and parsed back out of a buffer that goes on with
  any body: the result has the same fields in the same order, no mark of a framing problem, and the size of the header is exact.\<close>
theorem header_roundtrip:
  assumes "header_ok h0" "list_all wire_ok (header_fields h0)" "plain_framing cfg (header_fields h0)" "owner \<noteq> hoNone" "owner \<noteq> hoEnd"
    "header_packInto False h0 = Inr block"
  shows "\<exists>h c. header_parse_buffer cfg (block @ CrLf @ body) (length block + 2 + length body) atEnd (header_new owner, ContentLengthInterpreter) =
      (Inr (1, length block + 2), h, c) \<and>
    header_ok h \<and> header_fields h = header_fields h0 \<and> \<not> hh_conflictingContentLength h \<and> \<not> hh_teUnsupported h"
proof -
  have block: "block = packed (header_fields h0)" using assms(6) by (simp add: pack_fields)
  have "take (length block + 2 + length body) (block @ CrLf @ body) = block @ CrLf @ body" by (simp add: CrLf_def)
  then show ?thesis using isolate_packed [OF assms(2), of body] header_parse_packed [OF assms(2-5)]
    unfolding header_parse_buffer_def block by (auto simp: then_do_def)
qed


section \<open>A concrete message\<close>

definition message_calls :: "header_call list" where
  "message_calls = [HPutInt64 CONTENT_LENGTH 5, HPutStr SERVER ''s'', HPutExt ''X-Note'' ''a b'']"

definition message_header :: http_header where
  "message_header = snd (run_calls header_exec message_calls (header_new hoReply))"

definition message_fields :: "header_entry list" where
  "message_fields = [registered_entry CONTENT_LENGTH ''5'', registered_entry SERVER ''s'', other_entry ''X-Note'' ''a b'']"

lemma message_note: "hr_id (lookup_name ''X-Note'') = BAD_HDR"
  by (simp add: lookup_name_def lookup_is_find registered_headers_def HeaderTableRecord_of_def xtolower_def xisupper_def BadHdr_def)

lemma message_records: "hr_type (lookup_id SERVER) = ftStr" "hr_name (lookup_id SERVER) = ''Server''" "hr_name (lookup_id CONTENT_LENGTH) = ''Content-Length''"
  "any_registered_header SERVER"
  by (simp_all add: lookup_id_declared registered_headers_def HeaderTableRecord_of_def any_registered_header_def)

lemma message_entries: "list_all entry_ok message_fields"
proof -
  have "entry_ok (other_entry ''X-Note'' ''a b'')" using message_note
    by (simp add: entry_ok_def other_entry_def any_valid_header_def sb_ok_def maxSize_def String_SizeMax_def)
  moreover have "entry_ok (registered_entry CONTENT_LENGTH ''5'')" "entry_ok (registered_entry SERVER ''s'')"
    using framing_records(1) message_records(4) by (auto intro!: registered_entry_ok simp: text_ok_def String_SizeMax_def)
  ultimately show ?thesis by (simp add: message_fields_def)
qed

lemma message_header_fields: "header_ok message_header" "header_fields message_header = message_fields"
proof -
  have five: "xint64toa 5 = ''5''" by code_simp
  have "all_allowed header_legal header_spec message_calls []"
    using message_entries framing_records(1,4) message_records
    by (simp add: message_calls_def message_fields_def text_ok_def String_SizeMax_def LLONG_MAX_def)
  then show "header_ok message_header" "header_fields message_header = message_fields"
    using header.run_refines [OF header_new_ok(1) [of hoReply], of message_calls]
    by (simp_all add: message_header_def header_new_ok(2)) (simp add: message_calls_def message_fields_def five)
qed

lemma message_wire: "list_all wire_ok message_fields"
proof -
  have "list_all (cs_index cs_TCHAR) ''Content-Length''" "list_all (cs_index cs_TCHAR) ''Server''" "list_all (cs_index cs_TCHAR) ''X-Note''"
    by (simp_all add: charset_simps)
  moreover have "strip ''5'' = ''5''" "strip ''s'' = ''s''" "strip ''a b'' = ''a b''" by code_simp+
  ultimately show ?thesis using message_entries
    by (simp add: wire_ok_def message_fields_def registered_entry_def other_entry_def message_records)
qed

lemma message_length: "length_value cfg ''5'' = Some 5"
  by (simp add: length_value_eval Let_def relaxed_delim_def xisdigit_def number_of_def digit_value_def LLONG_MAX_def)

lemma message_plain: "plain_framing cfg message_fields"
  by (simp add: plain_framing_def message_fields_def registered_entry_def other_entry_def message_length)

lemma message_packed: "header_packInto False message_header =
    Inr (''Content-Length: 5'' @ CrLf @ ''Server: s'' @ CrLf @ ''X-Note: a b'' @ CrLf)"
  by (simp add: pack_fields message_header_fields(2) message_fields_def registered_entry_def other_entry_def entry_packInto_def message_records)

theorem header_roundtrip_witness:
  "\<exists>h c. header_parse_buffer (sample_config 1) ((''Content-Length: 5'' @ CrLf @ ''Server: s'' @ CrLf @ ''X-Note: a b'' @ CrLf) @ CrLf @ ''hello'')
      50 False (header_new hoReply, ContentLengthInterpreter) = (Inr (1, 45), h, c) \<and> header_fields h = message_fields"
proof -
  let ?block = "''Content-Length: 5'' @ CrLf @ ''Server: s'' @ CrLf @ ''X-Note: a b'' @ CrLf"
  have size: "length ?block = 43" by (simp add: CrLf_def)
  from header_roundtrip [OF message_header_fields(1) _ _ _ _ message_packed, of "sample_config 1" hoReply "''hello''" False]
  show ?thesis using message_wire message_plain unfolding message_header_fields(2) size by auto
qed



end
