(* ===== verification/Spec2Isabelle.thy ===== *)
theory Spec2Isabelle
  imports Http1_Response Request_Grammar Chunked_Decoding SBuf_Isolation Lock_Exclusion
    Heap_Order Clp_Cache Header_Update Header_Roundtrip
begin

text \<open>
  A verification library for the Squid proxy under \<^verbatim>\<open>src/squid-modified-aws\<close>: the path that bytes
  from a client or server take through the string buffers, the tokenizer and the HTTP/1 message
  parsers into the header fields of a message, the lock that guards the shared-memory cache index, and the containers that decide what a cache
  keeps. File names below are relative to
  \<^verbatim>\<open>src/squid-modified-aws/src\<close>.

  \<^bold>\<open>How the parts interact.\<close> Received bytes live in an \<^verbatim>\<open>SBuf\<close>, a slice of a reference-counted
  \<^verbatim>\<open>MemBlob\<close>. A \<^verbatim>\<open>Parser::Tokenizer\<close> cuts tokens of a \<^verbatim>\<open>CharacterSet\<close> off either end of a buffer. The HTTP/1
  request and response parsers, which share a base class, use tokenizers for the first line and
  \<^verbatim>\<open>headersEnd()\<close> for the header block; they are called again with the longer buffer when input was
  missing. \<^verbatim>\<open>HttpHeader::parse()\<close> turns the header block into fields, which are identified by the table of registered
  headers, and settles the framing of the message with a \<^verbatim>\<open>ContentLengthInterpreter\<close>. The chunked decoder writes message bodies into a \<^verbatim>\<open>MemBuf\<close>. Worker processes share
  cache entries under an \<^verbatim>\<open>Ipc::ReadWriteLock\<close>. The heap replacement policies order what may be removed in
  a binary heap; small caches are instances of \<^verbatim>\<open>ClpMap\<close>, which counts memory with checked sums.

  \<^bold>\<open>Conventions.\<close> Bytes are characters. A size of the 32-bit type \<^verbatim>\<open>SBuf::size_type\<close> is a natural number, with
  sums and differences that the code does not guard written as \<open>uadd32\<close> and \<open>usub32\<close>, which wrap
  around. An exception is a value of type \<open>exn\<close>: missing input, a \<^verbatim>\<open>TextException\<close>, or a failed
  assertion; a method that throws returns it with the state reached. A class is a record, a derived class
  an extended record. Debug output and statistics are left out. Loops are structural or
  have a termination proof; the loops of the binary heap and of the cache run on fuel, and the theorems
  show that they return. Structures with pointers have an explicit memory of nodes.

  \<^bold>\<open>Theories.\<close>
  \<^item> \<open>Squid_Prelude\<close>: types, 32-bit arithmetic, list lemmas and lemma collections that the others share.
  \<^item> \<open>Character_Set\<close> (\<^verbatim>\<open>base/CharacterSet\<close>): the cell vector, its constructors, operators and named sets.
    It computes set algebra; \<^verbatim>\<open>isEmpty()\<close> never holds.
  \<^item> \<open>SBuf_Value\<close> (\<^verbatim>\<open>sbuf/SBuf\<close>): searching, slicing and comparing on the value of a buffer. \<^verbatim>\<open>find()\<close>
    returns the first occurrence; slices are exact unless the 32-bit sum of position and length wraps.
  \<^item> \<open>SBuf_Heap\<close> (\<^verbatim>\<open>sbuf/SBuf\<close>, \<^verbatim>\<open>sbuf/MemBlob\<close>): blobs, buffers as slices of blobs, and the methods that change
    them, on an explicit heap. \<open>SBuf_Cow\<close> has the invariant and copy-on-write, \<open>SBuf_Operations\<close> what
    each method does to the values, \<open>SBuf_Isolation\<close> the refinement: any sequence of calls acts as on
    independent strings. Raw appending nothing is the exception, with a proved example.
  \<^item> \<open>Tokenizer\<close> (\<^verbatim>\<open>parser/Tokenizer\<close>): every method. The locale \<open>token_method\<close> states the contract: no effect on
    failure, and on success a non-empty piece leaves one end and is counted; all methods interpret it.
    Integers are read exactly.
  \<^item> \<open>Mime_Header\<close> (\<^verbatim>\<open>mime_header.cc\<close>): \<^verbatim>\<open>headersEnd()\<close> finds the first empty line.
  \<^item> \<open>Request_Method\<close> (\<^verbatim>\<open>http/RequestMethod\<close>): methods and their images. The table of names that the build
    generates is a parameter.
  \<^item> \<open>Http1_Parser\<close> (\<^verbatim>\<open>http/one/Parser\<close>): parser state, cleaning and unfolding of the header block, the
    Host field scan. Unfolding refines a relation on lines.
  \<^item> \<open>Http1_Request\<close>, \<open>Request_Grammar\<close> (\<^verbatim>\<open>http/one/RequestParser\<close>): field parsers and the staged parse.
    Input is conserved, the verdict is consistent, parsing in pieces is parsing at once, printed requests
    are parsed back, and in the strict mode only request lines of the grammar are accepted.
  \<^item> \<open>Http1_Response\<close> (\<^verbatim>\<open>http/one/ResponseParser\<close>): the same for responses.
  \<^item> \<open>Registered_Headers\<close>, \<open>Header_Lookup\<close> (\<^verbatim>\<open>http/RegisteredHeaders\<close>, \<^verbatim>\<open>http/RegisteredHeadersHash\<close>): header identities, their records and the
    perfect hash table of their names, which finds exactly the declared names in any letter case.
  \<^item> \<open>Str_List\<close> (\<^verbatim>\<open>StrList.cc\<close>): building and iterating over the lists in header values. The iteration visits the trimmed parts
    that are not empty, unless a part has only vertical tabs or form feeds.
  \<^item> \<open>Content_Length\<close> (\<^verbatim>\<open>http/ContentLengthInterpreter\<close>): what repeated and list-valued Content-Length fields say together.
  \<^item> \<open>Http_Header\<close> (\<^verbatim>\<open>HttpHeader\<close>): entries and the header container with its mask, gaps and packed length.
    \<open>Header_Fields\<close> has the invariant and the refinement to a plain list of fields, and that removing hop-by-hop fields leaves the end-to-end
    ones. \<open>Header_Update\<close>: what an update from a fresh header does, when it is asked for, and two
    operations that leave the packed length out of step.
  \<^item> \<open>Header_Parse\<close>, \<open>Header_Framing\<close>, \<open>Header_Roundtrip\<close> (\<^verbatim>\<open>HttpHeader::parse()\<close>, \<^verbatim>\<open>HttpHeaderEntry::parse()\<close>): parsing is safe on any
    bytes, a packed header is parsed back, and a parsed header has at most one body length, on which the block agrees.
  \<^item> \<open>Mem_Buf\<close> (\<^verbatim>\<open>MemBuf\<close>, \<^verbatim>\<open>mem/old_api.cc\<close>): growth within the limits, appending and consuming.
  \<^item> \<open>Chunked\<close>, \<open>Chunked_Decoding\<close> (\<^verbatim>\<open>http/one/TeChunkedParser\<close>, \<^verbatim>\<open>http/one/Tokenizer.cc\<close>, the extension value parser
    of \<^verbatim>\<open>adaptation/icap/ModXact.cc\<close>): the decoder with extensions and trailer. It is safe on any input
    and decodes every well-formed body.
  \<^item> \<open>Read_Write_Lock\<close>, \<open>Lock_Exclusion\<close> (\<^verbatim>\<open>ipc/ReadWriteLock\<close>): each operation as a sequence of atomic
    accesses, with any interleaving of any number of processes as a step relation. Exclusion, no
    failing assertion, a bound on the accesses of a call, and recovery of the initial state.
  \<^item> \<open>Binary_Heap\<close>, \<open>Heap_Order\<close> (\<^verbatim>\<open>lib/heap.c\<close>, \<^verbatim>\<open>include/heap.h\<close>): the heap as an array of pointers to nodes that know
    their position. The locale \<open>priority_queue\<close> is its interface. Extraction sorts; every operation changes one
    node, keeps the order and every other pointer.
  \<^item> \<open>Safe_Math\<close> (\<^verbatim>\<open>SquidMath.h\<close>): sums of mixed integer types, which are exact or nothing.
  \<^item> \<open>Clp_Map\<close>, \<open>Clp_Cache\<close> (\<^verbatim>\<open>base/ClpMap.h\<close>): the cache as a list of nodes with an index and a memory
    counter. It implements a list in the order of last use; the counter is exact and within the limit.
  \<^item> \<open>Refinement\<close>: sequences of calls and the locale \<open>implementation\<close>, by which the buffers, the cache and the header
    refine their abstract specifications.

  \<^bold>\<open>Bounds.\<close> Buffers are at most \<^verbatim>\<open>SBuf::maxSize\<close> bytes where a theorem says \<open>sb_ok\<close>; method arguments that are sizes
  are \<^verbatim>\<open>npos\<close> or leave room for the 32-bit sums, and the lock theorems are for fewer than \<open>2\<^sup>3\<^sup>2\<close>
  processes, as the counters are 32-bit. Sifting in the heap has fuel for one round per node, and purging the
  cache one per entry, with one more for the last test: each round moves to another level of the heap, or
  removes an entry. Sizes of heaps are natural numbers, which is exact below \<open>2\<^sup>3\<^sup>0\<close> nodes. Header blocks
  are shorter than the limit of a \<^verbatim>\<open>String\<close>, so that joining the values of a field cannot exceed it; that the agreement of Content-Length
  fields is for blocks without vertical tabs and form feeds is necessary, by a proved example. The packed length of a header is an integer.

  \<^bold>\<open>Not modelled.\<close> Connection handling, the store, DNS, access control, TLS, helpers, logging and the event
  loop: they are driven by sockets, timers, disks, external processes and asynchronous calls. The
  formatted-output methods of the buffers and the statistics counters are left out as well, and of the header container the fields
  with a parsed structure of their own (Cache-Control, Range, dates, entity tags, credentials).
\<close>

end
